(* ===== verification/Tmk_Prelude.thy ===== *)
theory Tmk_Prelude
  imports Main "HOL-Library.Word"
begin

text \<open>
  Shared vocabulary of the development: the machine integers of the ILP32 target the
  repository is built for (\<^verbatim>\<open>Tmk/lib.i386_linux2\<close>), the constants of
  \<^verbatim>\<open>Tmk/include/Tmk.h\<close> and \<^verbatim>\<open>Tmk/src/Tmk.h\<close>, the kinds of
  fatal exit, the \<^theory_text>\<open>named_theorems\<close> collections, and generic lemmas on
  lists and words that several components use.
\<close>

unbundle bit_operations_syntax

named_theorems tmk_defs \<open>small definitions that component proofs unfold\<close>
named_theorems tmk_frame \<open>fields an operation leaves unchanged\<close>
named_theorems tmk_inv \<open>invariant preservation, one fact per operation\<close>

section \<open>Machine integers and constants\<close>

type_synonym u8 = "8 word"
type_synonym u16 = "16 word"
type_synonym u32 = "32 word"

abbreviation (input) NPROCS :: nat where "NPROCS \<equiv> 32"
abbreviation (input) NPAGES :: nat where "NPAGES \<equiv> 16384"
abbreviation (input) NBARRIERS :: nat where "NBARRIERS \<equiv> 32"
abbreviation (input) NCONDS :: nat where "NCONDS \<equiv> 4"
abbreviation (input) NLOCKS :: nat where "NLOCKS \<equiv> 1024"

text \<open>The UDP transport (not MPL) on Linux: \<^verbatim>\<open>MTU\<close> and \<^verbatim>\<open>SEQNO_INCR\<close>.\<close>

abbreviation (input) MTU :: nat where "MTU \<equiv> 32768"
abbreviation (input) SEQNO_INCR :: u32 where "SEQNO_INCR \<equiv> 32"

text \<open>
  A call of \<^verbatim>\<open>Tmk_errexit\<close> or \<^verbatim>\<open>Tmk_perrexit\<close> ends the process; the message names the site.
  \<open>Wild_access\<close> is a wild pointer access or a pointer walk that never ends.
\<close>

datatype tmk_exit = Errexit string | Perrexit string | Wild_access

type_synonym 'a tmk_result = "tmk_exit + 'a"

fun tmk_bind :: "'a tmk_result \<Rightarrow> ('a \<Rightarrow> 'b tmk_result) \<Rightarrow> 'b tmk_result" where
  "tmk_bind (Inl e) f = Inl e"
| "tmk_bind (Inr x) f = f x"

definition tmk_option :: "'a option \<Rightarrow> 'a tmk_result" where
  "tmk_option r = (case r of None \<Rightarrow> Inl Wild_access | Some x \<Rightarrow> Inr x)"

lemma tmk_option_simps [simp]: "tmk_option None = Inl Wild_access" "tmk_option (Some x) = Inr x"
  by (simp_all add: tmk_option_def)

lemma tmk_bind_Inr_iff: "tmk_bind r f = Inr y \<longleftrightarrow> (\<exists>x. r = Inr x \<and> f x = Inr y)"
  by (cases r) auto

text \<open>Loops over results are partial functions.\<close>

lemma case_sum_mono [partial_function_mono]:
  assumes "\<And>x. monotone orda ordb (\<lambda>f. F f x)" "\<And>y. monotone orda ordb (\<lambda>f. G f y)"
  shows "monotone orda ordb (\<lambda>f. case_sum (F f) (G f) s)"
  using assms by (cases s) simp_all

section \<open>Lists\<close>

text \<open>Writing a run of words at an offset of a page.\<close>

definition overwrite :: "'a list \<Rightarrow> nat \<Rightarrow> 'a list \<Rightarrow> 'a list" where
  "overwrite q i ws = take i q @ ws @ drop (i + length ws) q"

lemma overwrite_Nil [simp]: "overwrite q i [] = q"
  by (simp add: overwrite_def)

lemma length_overwrite [simp]: "i + length ws \<le> length q \<Longrightarrow> length (overwrite q i ws) = length q"
  by (simp add: overwrite_def)

lemma nth_overwrite:
  assumes "i + length ws \<le> length q" "j < length q"
  shows "overwrite q i ws ! j = (if i \<le> j \<and> j < i + length ws then ws ! (j - i) else q ! j)"
proof (cases "j < i")
  case True
  then show ?thesis using assms by (simp add: overwrite_def nth_append)
next
  case False
  then show ?thesis using assms by (auto simp: overwrite_def nth_append)
qed

lemma overwrite_append:
  assumes "i + length (xs @ ys) \<le> length q"
  shows "overwrite (overwrite q i xs) (i + length xs) ys = overwrite q i (xs @ ys)"
  using assms by (intro nth_equalityI) (auto simp: nth_overwrite nth_append)

lemma update_overwrite: "i < length q \<Longrightarrow> q[i := w] = overwrite q i [w]"
  by (intro nth_equalityI) (auto simp: nth_overwrite nth_list_update)

lemma filter_neq_id: "x \<notin> set xs \<Longrightarrow> filter (\<lambda>y. y \<noteq> x) xs = xs"
  by (rule filter_True) auto

section \<open>Words\<close>

lemma unat_of_nat_small [simp]:
  "n < 2 ^ LENGTH('a) \<Longrightarrow> unat (of_nat n :: 'a::len word) = n"
  by (simp add: unat_of_nat take_bit_nat_eq_self)

lemma sint_of_nat_u16: "n < 32768 \<Longrightarrow> sint (of_nat n :: u16) = int n"
  by (simp add: sint_uint unsigned_of_nat take_bit_nat_eq_self signed_take_bit_int_eq_self)

end
