(* ===== verification/Tmk_Diff.thy ===== *)
theory Tmk_Diff
  imports Tmk_Prelude
begin

text \<open>
  Diffs of shared pages, \<^verbatim>\<open>Tmk/src/diff.c\<close>: the encoder
  \<^verbatim>\<open>Tmk_diff_create\<close> (the loop unrolled four words at a time, with its two modes
  joined by \<^verbatim>\<open>goto\<close>) and the decoder \<^verbatim>\<open>diff_apply\<close>.  A page is the list of
  its 32-bit words.  A diff is a sequence of 32-bit words of the diff heap:
  runs \<open><size in bytes, offset in bytes>, word, word, \<dots>\<close> closed by a zero word.
\<close>

section \<open>Run headers\<close>

text \<open>
  \<^verbatim>\<open>start[-2]\<close> is the low and \<^verbatim>\<open>start[-1]\<close> the high half of the header word
  (little endian, i386).
\<close>

definition run_hdr :: "u16 \<Rightarrow> u16 \<Rightarrow> u32" where
  "run_hdr sz offset = push_bit 16 (ucast offset) OR ucast sz"

definition hdr_size :: "u32 \<Rightarrow> u16" where
  "hdr_size h = ucast h"

definition hdr_offset :: "u32 \<Rightarrow> u16" where
  "hdr_offset h = ucast (drop_bit 16 h)"

lemma hdr_size_run_hdr [simp]: "hdr_size (run_hdr s n) = s"
  by (rule bit_word_eqI) (auto simp: hdr_size_def run_hdr_def bit_simps)

lemma hdr_offset_run_hdr [simp]: "hdr_offset (run_hdr s n) = n"
  by (rule bit_word_eqI) (auto simp: hdr_offset_def run_hdr_def bit_simps dest: bit_imp_le_length)

section \<open>Creating a diff\<close>

text \<open>
  The registers of \<^verbatim>\<open>Tmk_diff_create\<close>: the words written to the heap so far
  (\<^verbatim>\<open>diff\<close> points past the last one) and the index \<^verbatim>\<open>start\<close> of the first word of
  the open run.  \<open>stale i\<close> is what the heap held in the low half of word \<open>i\<close>
  before the call: opening a run skips the header word and sets its high half only.
\<close>

record diff_regs =
  diff_out :: "u32 list"
  diff_start :: nat

datatype diff_mode = Same | Differ

definition open_run :: "(nat \<Rightarrow> u16) \<Rightarrow> nat \<Rightarrow> diff_regs \<Rightarrow> diff_regs" where
  "open_run stale offset r =
     r\<lparr>diff_out := diff_out r @ [run_hdr (stale (length (diff_out r))) (of_nat offset)],
       diff_start := length (diff_out r) + 1\<rparr>"

definition close_run :: "diff_regs \<Rightarrow> diff_regs" where
  "close_run r =
     (let i = diff_start r - 1; h = diff_out r ! i
      in r\<lparr>diff_out := (diff_out r)[i := run_hdr (of_nat (4 * (length (diff_out r) - diff_start r)))
                                              (hdr_offset h)]\<rparr>)"

definition emit_word :: "u32 \<Rightarrow> diff_regs \<Rightarrow> diff_regs" where
  "emit_word w r = r\<lparr>diff_out := diff_out r @ [w]\<rparr>"

text \<open>
  One word of a block.  In mode \<open>Same\<close> control is at the test \<^verbatim>\<open>twin\<close>k \<^verbatim>\<open>!= vadr\<close>k of the
  first loop: a difference opens a run and jumps to the label \<^verbatim>\<open>diff\<close>k of the
  second loop.  In mode \<open>Differ\<close> control is at the test \<^verbatim>\<open>twin\<close>k \<^verbatim>\<open>== vadr\<close>k of the
  second loop: equality jumps to \<^verbatim>\<open>same\<close>k, which closes the run, in the first loop.
\<close>

fun diff_word ::
  "(nat \<Rightarrow> u16) \<Rightarrow> nat \<Rightarrow> u32 \<Rightarrow> u32 \<Rightarrow> diff_mode \<times> diff_regs \<Rightarrow> diff_mode \<times> diff_regs" where
  "diff_word stale offset v t (Same, r) =
     (if t \<noteq> v then (Differ, emit_word v (open_run stale offset r)) else (Same, r))"
| "diff_word stale offset v t (Differ, r) =
     (if t = v then (Same, close_run r) else (Differ, emit_word v r))"

text \<open>
  The two loops.  \<open>vadr\<close> is the word index of the current block; after
  \<^verbatim>\<open>vadr += 4\<close> the offset of word k of the block is
  \<^verbatim>\<open>(caddr_t) vadr - (caddr_t)(begin + 3 - k)\<close>, \<^verbatim>\<open>begin\<close> being one word into the page.
  A block that runs past the end of the page would be an out-of-bounds read: \<open>None\<close>.
\<close>

abbreviation blk_offset :: "nat \<Rightarrow> nat \<Rightarrow> nat" where
  "blk_offset vadr k \<equiv> 4 * (vadr + 4) - 4 * (1 + (3 - k))"

fun diff_loop ::
  "(nat \<Rightarrow> u16) \<Rightarrow> nat \<Rightarrow> u32 list \<Rightarrow> u32 list \<Rightarrow> diff_mode \<times> diff_regs \<Rightarrow> diff_regs option" where
  "diff_loop stale vadr (v0 # v1 # v2 # v3 # vs) (t0 # t1 # t2 # t3 # ts) s =
     (let s = diff_word stale (blk_offset vadr 0) v0 t0 s;
          s = diff_word stale (blk_offset vadr 1) v1 t1 s;
          s = diff_word stale (blk_offset vadr 2) v2 t2 s;
          s = diff_word stale (blk_offset vadr 3) v3 t3 s
      in if vs = []
         then Some (case s of (Same, r) \<Rightarrow> r | (Differ, r) \<Rightarrow> close_run r)
         else diff_loop stale (vadr + 4) vs ts s)"
| "diff_loop _ _ _ _ _ = None"

text \<open>The words \<^verbatim>\<open>Tmk_diff_create\<close> writes at \<^verbatim>\<open>heap_1_brk\<close>, the closing zero included.\<close>

definition diff_encode :: "(nat \<Rightarrow> u16) \<Rightarrow> u32 list \<Rightarrow> u32 list \<Rightarrow> u32 list option" where
  "diff_encode stale vadr twin =
     map_option (\<lambda>r. diff_out r @ [0])
       (diff_loop stale 0 vadr twin (Same, \<lparr>diff_out = [], diff_start = 0\<rparr>))"

section \<open>Applying a diff\<close>

text \<open>\<open>copy_words n\<close> moves the next \<open>n\<close> words of the diff to \<open>page[dest ..]\<close>.\<close>

definition copy_words ::
  "nat \<Rightarrow> u32 list \<Rightarrow> nat \<Rightarrow> u32 list \<Rightarrow> (u32 list \<times> nat \<times> u32 list) option" where
  "copy_words n page dest cur =
     (if n \<le> length cur \<and> dest + n \<le> length page
      then Some (overwrite page dest (take n cur), dest + n, drop n cur) else None)"

text \<open>
  The \<^verbatim>\<open>do\<close> loop that moves four words at a time until \<^verbatim>\<open>diff_cur == diff_run_end\<close>;
  the remaining length \<open>n\<close> is in bytes.  A length that is not a multiple of sixteen
  is never met exactly: the loop runs off the buffer.
\<close>

function copy_quads :: "nat \<Rightarrow> u32 list \<Rightarrow> nat \<Rightarrow> u32 list \<Rightarrow> (u32 list \<times> u32 list) option" where
  "copy_quads n page dest cur =
     (case copy_words 4 page dest cur of
        None \<Rightarrow> None
      | Some (page', dest', cur') \<Rightarrow>
          if n = 16 then Some (page', cur')
          else if n < 16 then None
          else copy_quads (n - 16) page' dest' cur')"
  by pat_completeness auto
termination
  by (relation "measure (\<lambda>(n, page, dest, cur). n)") auto

declare copy_quads.simps [simp del]

text \<open>One run: the \<^verbatim>\<open>if (run_length & 4)\<close> and \<^verbatim>\<open>& 8\<close> prologue, then the quads.\<close>

definition apply_run :: "nat \<Rightarrow> u32 list \<Rightarrow> nat \<Rightarrow> u32 list \<Rightarrow> (u32 list \<times> u32 list) option" where
  "apply_run run_length page dest cur =
     (case (if run_length AND 4 \<noteq> 0
            then map_option (Pair (run_length - 4)) (copy_words 1 page dest cur)
            else Some (run_length, page, dest, cur)) of
        None \<Rightarrow> None
      | Some (n, page, dest, cur) \<Rightarrow>
          if n = 0 then Some (page, cur)
          else
            (case (if n AND 8 \<noteq> 0
                   then map_option (Pair (n - 8)) (copy_words 2 page dest cur)
                   else Some (n, page, dest, cur)) of
               None \<Rightarrow> None
             | Some (m, page, dest, cur) \<Rightarrow>
                 if m = 0 then Some (page, cur) else copy_quads m page dest cur))"

lemma copy_words_rest: "copy_words n page dest cur = Some (p, d, c) \<Longrightarrow> length c \<le> length cur"
  by (auto simp: copy_words_def split: if_splits)

lemma copy_quads_rest: "copy_quads n page dest cur = Some (p, c) \<Longrightarrow> length c \<le> length cur"
proof (induction n page dest cur rule: copy_quads.induct)
  case (1 n page dest cur)
  from "1.prems" obtain p' d' c' where cw: "copy_words 4 page dest cur = Some (p', d', c')"
    by (subst (asm) copy_quads.simps) (auto split: option.splits)
  show ?case
  proof (cases "n = 16 \<or> n < 16")
    case True
    with "1.prems" cw show ?thesis
      by (subst (asm) copy_quads.simps) (auto dest: copy_words_rest split: if_splits)
  next
    case False
    with "1.prems" cw have "copy_quads (n - 16) p' d' c' = Some (p, c)"
      by (subst (asm) copy_quads.simps) simp
    with False have "length c \<le> length c'" by (intro "1.IH" [OF cw]) auto
    with copy_words_rest [OF cw] show ?thesis by simp
  qed
qed

lemma apply_run_rest:
  assumes "apply_run n page dest cur = Some (p, c)"
  shows "length c \<le> length cur"
  using assms unfolding apply_run_def
  by (auto dest!: copy_words_rest copy_quads_rest split: option.splits if_splits)

text \<open>
  The outer loop.  The header halves are read as signed shorts; a non-positive length
  ends the diff.  \<open>None\<close> is a header, a run or a destination outside its buffer (or an
  offset that is not a word boundary).  The result is the page and the rest of the
  buffer, at the returned pointer.  Every iteration reads at least the header.
\<close>

function diff_apply :: "u32 list \<Rightarrow> u32 list \<Rightarrow> (u32 list \<times> u32 list) option" where
  "diff_apply page [] = None"
| "diff_apply page (h # cur) =
     (if sint (hdr_size h) > 0 then
        if sint (hdr_offset h) < 0 \<or> sint (hdr_offset h) mod 4 \<noteq> 0 then None
        else
          (case apply_run (nat (sint (hdr_size h))) page (nat (sint (hdr_offset h)) div 4) cur of
             None \<Rightarrow> None
           | Some (page', cur') \<Rightarrow> diff_apply page' cur')
      else Some (page, cur))"
  by pat_completeness auto
termination
  by (relation "measure (\<lambda>(page, cur). length cur)")
     (auto dest: apply_run_rest simp: less_Suc_eq_le)

section \<open>The unrolled encoder is a word-at-a-time scan\<close>

fun diff_scan ::
  "(nat \<Rightarrow> u16) \<Rightarrow> nat \<Rightarrow> u32 list \<Rightarrow> u32 list \<Rightarrow> diff_mode \<times> diff_regs \<Rightarrow> diff_mode \<times> diff_regs" where
  "diff_scan stale i (v # vs) (t # ts) s = diff_scan stale (i + 1) vs ts (diff_word stale (4 * i) v t s)"
| "diff_scan stale i _ _ s = s"

definition diff_finish :: "diff_mode \<times> diff_regs \<Rightarrow> diff_regs" where
  "diff_finish s = (case s of (Same, r) \<Rightarrow> r | (Differ, r) \<Rightarrow> close_run r)"

lemma diff_loop_scan:
  assumes "length vs = length ts" "vs \<noteq> []" "4 dvd length vs"
  shows "diff_loop stale i vs ts s = Some (diff_finish (diff_scan stale i vs ts s))"
  using assms
proof (induction stale i vs ts s rule: diff_loop.induct)
  case (1 stale i v0 v1 v2 v3 vs t0 t1 t2 t3 ts s)
  from "1.prems" have len: "length vs = length ts" and dvd: "4 dvd length vs"
    by (auto simp: dvd_def) presburger
  show ?case
  proof (cases "vs = []")
    case True
    with len show ?thesis by (simp add: Let_def diff_finish_def algebra_simps)
  next
    case False
    have four: "Suc (Suc (Suc (Suc i))) = i + 4" by simp
    from False "1.IH" len dvd show ?thesis by (simp add: Let_def algebra_simps four)
  qed
qed (auto dest: dvd_imp_le)

section \<open>Runs: what a diff means\<close>

text \<open>The maximal runs of words in which a page differs from its twin, with their word offsets.\<close>

fun runs_same :: "nat \<Rightarrow> u32 list \<Rightarrow> u32 list \<Rightarrow> (nat \<times> u32 list) list"
  and runs_differ :: "nat \<Rightarrow> u32 list \<Rightarrow> nat \<Rightarrow> u32 list \<Rightarrow> u32 list \<Rightarrow> (nat \<times> u32 list) list" where
  "runs_same i (v # vs) (t # ts) =
     (if t \<noteq> v then runs_differ i [v] (i + 1) vs ts else runs_same (i + 1) vs ts)"
| "runs_same i _ _ = []"
| "runs_differ k acc i (v # vs) (t # ts) =
     (if t = v then (k, acc) # runs_same (i + 1) vs ts else runs_differ k (acc @ [v]) (i + 1) vs ts)"
| "runs_differ k acc i _ _ = [(k, acc)]"

definition encode_run :: "nat \<times> u32 list \<Rightarrow> u32 list" where
  "encode_run run = (case run of (k, ws) \<Rightarrow> run_hdr (of_nat (4 * length ws)) (of_nat (4 * k)) # ws)"

lemma close_run_open:
  "close_run \<lparr>diff_out = pre @ run_hdr sz off # acc, diff_start = length pre + 1\<rparr> =
   \<lparr>diff_out = pre @ run_hdr (of_nat (4 * length acc)) off # acc, diff_start = length pre + 1\<rparr>"
  by (simp add: close_run_def Let_def list_update_append nth_append)

lemma diff_scan_runs:
  "diff_out (diff_finish (diff_scan stale i vs ts (Same, \<lparr>diff_out = out, diff_start = st\<rparr>))) =
     out @ concat (map encode_run (runs_same i vs ts))"
  "diff_out (diff_finish (diff_scan stale j vs' ts'
       (Differ, \<lparr>diff_out = out @ run_hdr sz (of_nat (4 * k)) # acc, diff_start = length out + 1\<rparr>))) =
     out @ concat (map encode_run (runs_differ k acc j vs' ts'))"
proof (induction i vs ts and k acc j vs' ts' arbitrary: out st and out sz rule: runs_same_runs_differ.induct)
  case (1 i v vs t ts)
  show ?case
  proof (cases "t = v")
    case True
    with 1(2) show ?thesis by simp
  next
    case False
    with 1(1) [of out "stale (length out)"] show ?thesis
      by (simp add: open_run_def emit_word_def)
  qed
next
  case (3 k acc i v vs t ts)
  show ?case
  proof (cases "t = v")
    case True
    with 3(1) [of _ "length out + 1"] show ?thesis
      by (simp add: close_run_open [simplified] encode_run_def)
  next
    case False
    with 3(2) [of out sz] show ?thesis by (simp add: emit_word_def)
  qed
qed (simp_all add: diff_finish_def encode_run_def close_run_open [simplified])

lemma diff_encode_runs:
  assumes "length vadr = length twin" "vadr \<noteq> []" "4 dvd length vadr"
  shows "diff_encode stale vadr twin = Some (concat (map encode_run (runs_same 0 vadr twin)) @ [0])"
  by (simp add: diff_encode_def diff_loop_scan [OF assms] diff_scan_runs)

section \<open>Decoding runs\<close>

lemma and_4_nat: "(m::nat) AND 4 = 0 \<longleftrightarrow> even (m div 4)"
  using and_exp_eq_0_iff_not_bit [of m 2] by (simp add: bit_iff_odd)

lemma and_8_nat: "(m::nat) AND 8 = 0 \<longleftrightarrow> even (m div 8)"
  using and_exp_eq_0_iff_not_bit [of m 3] by (simp add: bit_iff_odd)

lemma copy_words_append [simp]:
  "length ws = n \<Longrightarrow> dest + n \<le> length page \<Longrightarrow>
   copy_words n page dest (ws @ rest) = Some (overwrite page dest ws, dest + n, rest)"
  by (simp add: copy_words_def)

lemma copy_quads_append:
  assumes "4 dvd length ws" "ws \<noteq> []" "dest + length ws \<le> length page"
  shows "copy_quads (4 * length ws) page dest (ws @ rest) = Some (overwrite page dest ws, rest)"
  using assms
proof (induction "length ws" arbitrary: ws dest page rule: less_induct)
  case less
  define us ys where "us = take 4 ws" and "ys = drop 4 ws"
  from less.prems(1,2) have "4 \<le> length ws" by (auto dest: dvd_imp_le)
  then have us: "length us = 4" and ws: "ws = us @ ys" by (auto simp: us_def ys_def)
  have cw: "copy_words 4 page dest (ws @ rest) = Some (overwrite page dest us, dest + 4, ys @ rest)"
    using copy_words_append [of us 4 dest page "ys @ rest"] us less.prems(3) by (simp add: ws)
  show ?case
  proof (cases "ys = []")
    case True
    with us cw show ?thesis by (subst copy_quads.simps) (simp add: ws)
  next
    case False
    from less.prems(1) us have "4 dvd length ys" by (simp add: ws)
    with False less.prems(3) us
    have "copy_quads (4 * length ys) (overwrite page dest us) (dest + 4) (ys @ rest) =
          Some (overwrite (overwrite page dest us) (dest + 4) ys, rest)"
      by (intro less.hyps) (auto simp: ws)
    moreover have "overwrite (overwrite page dest us) (dest + 4) ys = overwrite page dest ws"
      using overwrite_append [of dest us ys page] us less.prems(3) by (simp add: ws)
    ultimately show ?thesis
      using us cw False by (subst copy_quads.simps) (simp add: ws)
  qed
qed

text \<open>The two prologue steps of \<^const>\<open>apply_run\<close>: one word if bit 2 is set, two if bit 3 is.\<close>

lemma prologue_4:
  assumes "length us = (if odd n then 1 else 0)" "dest + length us \<le> length page"
  shows "(if (4 * n) AND 4 \<noteq> 0 then map_option (Pair (4 * n - 4)) (copy_words 1 page dest (us @ cur))
          else Some (4 * n, page, dest, us @ cur)) =
         Some (4 * (n - length us), overwrite page dest us, dest + length us, cur)"
  using assms by (auto simp: and_4_nat right_diff_distrib' simp del: neq0_conv)

lemma prologue_8:
  assumes "length us = (if odd (n div 2) then 2 else 0)" "dest + length us \<le> length page"
  shows "(if (4 * n) AND 8 \<noteq> 0 then map_option (Pair (4 * n - 8)) (copy_words 2 page dest (us @ cur))
          else Some (4 * n, page, dest, us @ cur)) =
         Some (4 * (n - length us), overwrite page dest us, dest + length us, cur)"
proof -
  have "odd ((4 * n) div 8) \<longleftrightarrow> odd (n div 2)" by presburger
  with assms show ?thesis by (auto simp: and_8_nat right_diff_distrib' simp del: neq0_conv)
qed

lemma apply_run_parts:
  assumes us: "length us = (if odd n then 1 else 0)"
    and xs: "length xs = (if odd ((n - length us) div 2) then 2 else 0)"
    and ys: "4 dvd length ys"
    and n: "n = length us + length xs + length ys" and ne: "0 < n"
    and dest: "dest + n \<le> length page"
  shows "apply_run (4 * n) page dest (us @ xs @ ys @ rest) =
         Some (overwrite page dest (us @ xs @ ys), rest)"
proof -
  let ?p1 = "overwrite page dest us"
  let ?p2 = "overwrite page dest (us @ xs)"
  have p2: "overwrite ?p1 (dest + length us) xs = ?p2"
    using dest n by (intro overwrite_append) simp
  have p3: "overwrite ?p2 (dest + length us + length xs) ys = overwrite page dest (us @ xs @ ys)"
    using overwrite_append [of dest "us @ xs" ys page] dest n by (simp add: add.assoc)
  have quads: "copy_quads (4 * length ys) ?p2 (dest + length us + length xs) (ys @ rest) =
        Some (overwrite page dest (us @ xs @ ys), rest)" if "ys \<noteq> []"
    using copy_quads_append [OF ys that, of "dest + length us + length xs" ?p2 rest] dest n p3
    by simp
  have m: "n - length us = length xs + length ys" using n by simp
  note s1 = prologue_4 [OF us, of dest page "xs @ ys @ rest"]
  note s2 = prologue_8 [OF xs, of "dest + length us" ?p1 "ys @ rest"]
  show ?thesis
    unfolding apply_run_def using s1 s2 quads p2 p3 dest n ne m
    by (cases "ys = []"; cases "xs = []") auto
qed

lemma apply_run_append:
  assumes "ws \<noteq> []" "dest + length ws \<le> length page"
  shows "apply_run (4 * length ws) page dest (ws @ rest) = Some (overwrite page dest ws, rest)"
proof -
  let ?n = "length ws"
  define a where "a = (if odd ?n then 1 else 0 :: nat)"
  define b where "b = (if odd ((?n - a) div 2) then 2 else 0 :: nat)"
  define us xs ys where "us = take a ws" and "xs = take b (drop a ws)" and "ys = drop (a + b) ws"
  have ab: "a + b = ?n mod 4" unfolding a_def b_def by presburger
  then have le: "a + b \<le> ?n" by simp
  have ws: "us @ xs @ ys = ws"
    unfolding us_def xs_def ys_def by (metis append_take_drop_id drop_drop add.commute)
  have len: "length us = a" "length xs = b" "length ys = ?n - (a + b)"
    using le by (auto simp: us_def xs_def ys_def)
  have "4 dvd length ys" unfolding len ab by (simp add: minus_mod_eq_mult_div)
  then have "apply_run (4 * ?n) page dest (us @ xs @ ys @ rest) =
             Some (overwrite page dest (us @ xs @ ys), rest)"
    using assms le by (intro apply_run_parts) (auto simp: len a_def b_def)
  moreover have "us @ xs @ ys @ rest = ws @ rest"
    by (simp only: ws [symmetric] append_assoc)
  ultimately show ?thesis by (simp only: ws)
qed

section \<open>Decoding a whole diff\<close>

text \<open>A run that fits the page and whose byte length and offset fit a signed short.\<close>

definition run_ok :: "nat \<Rightarrow> nat \<times> u32 list \<Rightarrow> bool" where
  "run_ok n run = (case run of (k, ws) \<Rightarrow> ws \<noteq> [] \<and> k + length ws \<le> n)"

definition patch :: "u32 list \<Rightarrow> (nat \<times> u32 list) list \<Rightarrow> u32 list" where
  "patch q runs = fold (\<lambda>(k, ws) q. overwrite q k ws) runs q"

lemma diff_apply_run:
  assumes "run_ok (length q) (k, ws)" "length q \<le> 8191"
  shows "diff_apply q (encode_run (k, ws) @ rest) = diff_apply (overwrite q k ws) rest"
proof -
  from assms have ws: "ws \<noteq> []" and k: "k + length ws \<le> length q" and s: "0 < length ws"
    by (auto simp: run_ok_def)
  have sz: "sint (of_nat (4 * length ws) :: u16) = int (4 * length ws)"
    using k assms(2) by (intro sint_of_nat_u16) simp
  have off: "sint (of_nat (4 * k) :: u16) = int (4 * k)"
    using k s assms(2) by (intro sint_of_nat_u16) simp
  show ?thesis
    using apply_run_append [OF ws k] s sz off by (simp add: encode_run_def nat_mult_distrib)
qed

lemma diff_apply_runs:
  assumes "\<And>r. r \<in> set runs \<Longrightarrow> run_ok (length q) r" "length q \<le> 8191"
  shows "diff_apply q (concat (map encode_run runs) @ 0 # rest) = Some (patch q runs, rest)"
  using assms
proof (induction runs arbitrary: q)
  case Nil
  then show ?case by (simp add: patch_def hdr_size_def)
next
  case (Cons r runs)
  obtain k ws where r: "r = (k, ws)" by (cases r)
  from Cons.prems r have ok: "run_ok (length q) (k, ws)" by auto
  then have len: "length (overwrite q k ws) = length q" by (simp add: run_ok_def)
  have "diff_apply q (concat (map encode_run (r # runs)) @ 0 # rest) =
        diff_apply (overwrite q k ws) (concat (map encode_run runs) @ 0 # rest)"
    using diff_apply_run [OF ok Cons.prems(2)] by (simp add: r)
  also have "\<dots> = Some (patch (overwrite q k ws) runs, rest)"
    using Cons.prems len by (intro Cons.IH) auto
  finally show ?case by (simp add: r patch_def)
qed

section \<open>The meaning of the runs\<close>

text \<open>\<open>diff_merge v t q\<close>: the words of \<open>q\<close>, except where \<open>v\<close> differs from its twin \<open>t\<close>.\<close>

definition diff_merge :: "u32 list \<Rightarrow> u32 list \<Rightarrow> u32 list \<Rightarrow> u32 list" where
  "diff_merge v t q = map (\<lambda>i. if v ! i \<noteq> t ! i then v ! i else q ! i) [0..<length q]"

lemma runs_ok:
  "length vs = length ts \<Longrightarrow> r \<in> set (runs_same i vs ts) \<Longrightarrow> run_ok (i + length vs) r"
  "length vs' = length ts' \<Longrightarrow> acc \<noteq> [] \<Longrightarrow> k + length acc = j \<Longrightarrow> r \<in> set (runs_differ k acc j vs' ts') \<Longrightarrow>
     run_ok (j + length vs') r"
  by (induction i vs ts and k acc j vs' ts' rule: runs_same_runs_differ.induct)
     (auto simp: run_ok_def split: if_splits)

lemma patch_simps [simp]:
  "patch q [] = q" "patch q ((k, ws) # runs) = patch (overwrite q k ws) runs"
  by (simp_all add: patch_def)

lemma length_patch: "(\<And>r. r \<in> set runs \<Longrightarrow> run_ok (length q) r) \<Longrightarrow> length (patch q runs) = length q"
proof (induction runs arbitrary: q)
  case (Cons r runs)
  obtain k ws where r: "r = (k, ws)" by (cases r)
  with Cons.prems have "length (overwrite q k ws) = length q" by (force simp: run_ok_def)
  with Cons r show ?case by simp
qed simp

lemma nth_patch_runs:
  "length vs = length ts \<Longrightarrow> i + length vs \<le> length q \<Longrightarrow> m < length q \<Longrightarrow>
   patch q (runs_same i vs ts) ! m =
     (if i \<le> m \<and> m < i + length vs \<and> vs ! (m - i) \<noteq> ts ! (m - i) then vs ! (m - i) else q ! m)"
  "length vs' = length ts' \<Longrightarrow> j + length vs' \<le> length q \<Longrightarrow> m < length q \<Longrightarrow> k + length acc = j \<Longrightarrow>
   patch q (runs_differ k acc j vs' ts') ! m =
     (if k \<le> m \<and> m < j then acc ! (m - k)
      else if j \<le> m \<and> m < j + length vs' \<and> vs' ! (m - j) \<noteq> ts' ! (m - j) then vs' ! (m - j)
      else q ! m)"
proof (induction i vs ts and k acc j vs' ts' arbitrary: q and q rule: runs_same_runs_differ.induct)
  case (1 i v vs t ts)
  then show ?case by (cases "m = i") (auto simp: nth_Cons' not_less_eq_eq)
next
  case (3 k acc i v vs t ts)
  show ?case
  proof (cases "t = v")
    case True
    with 3 show ?thesis by (cases "m = i") (auto simp: nth_overwrite nth_Cons')
  next
    case False
    with 3 show ?thesis by (cases "m = i") (auto simp: nth_append nth_Cons')
  qed
qed (auto simp: nth_overwrite)

lemma patch_runs_merge:
  assumes "length v = length t" "length q = length v"
  shows "patch q (runs_same 0 v t) = diff_merge v t q"
proof (rule nth_equalityI)
  show "length (patch q (runs_same 0 v t)) = length (diff_merge v t q)"
    using runs_ok(1) [OF assms(1), of _ 0] assms(2) by (simp add: length_patch diff_merge_def)
  show "patch q (runs_same 0 v t) ! m = diff_merge v t q ! m"
    if "m < length (patch q (runs_same 0 v t))" for m
    using that runs_ok(1) [OF assms(1), of _ 0] assms
    by (simp add: length_patch nth_patch_runs(1) diff_merge_def)
qed

text \<open>
  A page the code can diff: a positive multiple of four words (the unrolling), small
  enough that a byte length fits the signed short the decoder reads.
\<close>

definition page_words_ok :: "nat \<Rightarrow> bool" where
  "page_words_ok n \<longleftrightarrow> 0 < n \<and> 4 dvd n \<and> n \<le> 8191"

lemma diff_encode_apply:
  assumes "page_words_ok (length v)" "length t = length v" "length q = length v"
    and "diff_encode stale v t = Some d"
  shows "diff_apply q (d @ rest) = Some (diff_merge v t q, rest)"
proof -
  have "d = concat (map encode_run (runs_same 0 v t)) @ [0]"
    using diff_encode_runs [of v t stale] assms by (auto simp: page_words_ok_def)
  then show ?thesis
    using diff_apply_runs [of "runs_same 0 v t" q rest] runs_ok(1) [of v t _ 0] assms
    by (simp add: patch_runs_merge page_words_ok_def)
qed

lemma diff_encode_total:
  assumes "page_words_ok (length v)" "length t = length v"
  obtains d where "diff_encode stale v t = Some d"
  using diff_encode_runs [of v t stale] assms by (auto simp: page_words_ok_def)

lemma length_diff_merge [simp]: "length (diff_merge v t q) = length q"
  by (simp add: diff_merge_def)

lemma diff_merge_twin: "length t = length v \<Longrightarrow> diff_merge v t t = v"
  by (rule nth_equalityI) (auto simp: diff_merge_def)

lemma diff_merge_commute:
  assumes "\<And>i. i < length q \<Longrightarrow> v ! i \<noteq> t ! i \<Longrightarrow> w ! i = u ! i"
  shows "diff_merge w u (diff_merge v t q) = diff_merge v t (diff_merge w u q)"
  using assms by (intro nth_equalityI) (auto simp: diff_merge_def)

text \<open>Two runs are never adjacent, so the header words of a diff are paid for by unmodified words.\<close>

lemma length_encode_run [simp]: "length (encode_run (k, ws)) = length ws + 1"
  by (simp add: encode_run_def)

lemma runs_length:
  "length vs = length ts \<Longrightarrow> length (concat (map encode_run (runs_same i vs ts))) \<le> length vs + 1"
  "length vs' = length ts' \<Longrightarrow>
     length (concat (map encode_run (runs_differ k acc j vs' ts'))) \<le> length acc + length vs' + 1"
  by (induction i vs ts and k acc j vs' ts' rule: runs_same_runs_differ.induct) force+

section \<open>Properties\<close>

text \<open>
  C1: Creating a diff of a page against its twin always succeeds, and applying the result to
  any copy of the page writes exactly the words in which page and twin differ, leaves every
  other word alone and returns the position right after the diff.
\<close>

theorem diff_roundtrip:
  assumes "page_words_ok (length v)" "length t = length v" "length q = length v"
  shows "\<exists>d. diff_encode stale v t = Some d \<and>
             (\<forall>rest. diff_apply q (d @ rest) = Some (diff_merge v t q, rest))"
  using diff_encode_total [OF assms(1,2), of stale] diff_encode_apply [OF assms] by metis

theorem diff_roundtrip_witness:
  "page_words_ok (length [1, 2, 3, 4 :: u32]) \<and>
   (\<exists>d. diff_encode (\<lambda>_. 7) [1, 2, 3, 4] [1, 0, 3, 0] = Some d \<and>
        (\<forall>rest. diff_apply [9, 9, 9, 9] (d @ rest) = Some ([9, 2, 9, 4], rest)))"
proof -
  have ok: "page_words_ok (length [1, 2, 3, 4 :: u32])" by code_simp
  have "diff_merge [1, 2, 3, 4] [1, 0, 3, 0] [9, 9, 9, 9] = [9, 2, 9, 4]" by code_simp
  with diff_roundtrip [OF ok, of "[1, 0, 3, 0]" "[9, 9, 9, 9]" "\<lambda>_. 7"] ok show ?thesis by simp
qed

text \<open>
  Applying the diff of a page to a copy of its twin reproduces the page, whatever was left
  in the diff heap before.
\<close>

theorem diff_apply_twin:
  assumes "page_words_ok (length v)" "length t = length v" "diff_encode stale v t = Some d"
  shows "diff_apply t (d @ rest) = Some (v, rest)"
  using diff_encode_apply [OF assms(1,2) assms(2) assms(3)] assms(2) by (simp add: diff_merge_twin)

theorem diff_apply_twin_witness:
  "diff_apply [1, 0, 3, 0] ([run_hdr 4 4, 2, run_hdr 4 12, 4, 0] @ [5]) = Some ([1, 2, 3, 4], [5])"
proof -
  have "page_words_ok (length [1, 2, 3, 4 :: u32])" by code_simp
  moreover have "diff_encode (\<lambda>_. 7) [1, 2, 3, 4] [1, 0, 3, 0] = Some [run_hdr 4 4, 2, run_hdr 4 12, 4, 0]"
    by code_simp
  ultimately show ?thesis
    using diff_apply_twin [of "[1, 2, 3, 4]" "[1, 0, 3, 0]" "\<lambda>_. 7" _ "[5]"] by simp
qed

text \<open>
  C5: Multiple writers: diffs of writers that modified different words of a page can be
  applied in either order, with the same result, and the page gets the words of both.
\<close>

theorem diff_concurrent_commute:
  assumes "page_words_ok (length q)" "length v = length q" "length t = length q"
    and "length w = length q" "length u = length q"
    and d: "diff_encode stale v t = Some d" and e: "diff_encode stale' w u = Some e"
    and "\<And>i. i < length q \<Longrightarrow> v ! i \<noteq> t ! i \<Longrightarrow> w ! i = u ! i"
  shows "\<exists>q'. diff_apply q (d @ e) = Some (diff_merge v t q, e) \<and>
              diff_apply (diff_merge v t q) e = Some (q', []) \<and>
              diff_apply (diff_merge w u q) d = Some (q', []) \<and>
              (\<forall>i < length q. q' ! i = (if v ! i \<noteq> t ! i then v ! i else if w ! i \<noteq> u ! i then w ! i else q ! i))"
proof -
  have d': "diff_apply p (d @ rest) = Some (diff_merge v t p, rest)" if "length p = length q" for p rest
    using that assms by (intro diff_encode_apply [OF _ _ _ d]) auto
  have e': "diff_apply p (e @ rest) = Some (diff_merge w u p, rest)" if "length p = length q" for p rest
    using that assms by (intro diff_encode_apply [OF _ _ _ e]) auto
  have "diff_merge w u (diff_merge v t q) = diff_merge v t (diff_merge w u q)"
    using assms(8) by (rule diff_merge_commute)
  with d' [of "diff_merge w u q" "[]"] e' [of "diff_merge v t q" "[]"] d' [of q e] assms(8)
  show ?thesis by (auto simp: diff_merge_def)
qed

theorem diff_concurrent_commute_witness:
  "diff_apply [0, 0, 0, 0] ([run_hdr 4 0, 1, 0] @ [run_hdr 4 8, 3, 0]) =
     Some (diff_merge [1, 0, 0, 0] [0, 0, 0, 0] [0, 0, 0, 0], [run_hdr 4 8, 3, 0])"
proof -
  have d: "diff_encode (\<lambda>_. 0) [1, 0, 0, 0] [0, 0, 0, 0] = Some [run_hdr 4 0, 1, 0]"
    and e: "diff_encode (\<lambda>_. 0) [0, 0, 3, 0] [0, 0, 0, 0] = Some [run_hdr 4 8, 3, 0]"
    by code_simp+
  have "[0, 0, 3, 0 :: u32] ! i = [0, 0, 0, 0] ! i"
    if "i < length [0, 0, 0, 0 :: u32]" "[1, 0, 0, 0 :: u32] ! i \<noteq> [0, 0, 0, 0] ! i" for i
    using that by (auto simp: less_Suc_eq nth_Cons')
  moreover have "page_words_ok (length [0, 0, 0, 0 :: u32])" by code_simp
  ultimately show ?thesis
    using diff_concurrent_commute [of "[0, 0, 0, 0]" "[1, 0, 0, 0]" "[0, 0, 0, 0]" "[0, 0, 3, 0]" "[0, 0, 0, 0]", OF _ _ _ _ _ d e] by auto
qed

text \<open>
  C7: A diff of a page of n words has at most n + 2 words, so its byte size fits the 16-bit
  \<^verbatim>\<open>diff_size\<close> field of a write notice and its heap block fits the overflow area of a chunk.
\<close>

theorem diff_size_bound:
  assumes "page_words_ok (length v)" "length t = length v" "diff_encode stale v t = Some d"
  shows "length d \<le> length v + 2 \<and> unat (of_nat (4 * length d) :: u16) = 4 * length d"
proof -
  have "length d \<le> length v + 2"
    using diff_encode_runs [of v t stale] assms runs_length(1) [of v t 0]
    by (auto simp: page_words_ok_def)
  moreover from this assms(1) have "unat (of_nat (4 * length d) :: u16) = 4 * length d"
    by (intro unat_of_nat_small) (simp add: page_words_ok_def)
  ultimately show ?thesis by simp
qed

theorem diff_size_bound_witness:
  "length [run_hdr 4 4, 2, run_hdr 4 12, 4, 0] \<le> length [1, 2, 3, 4 :: u32] + 2"
proof -
  have "diff_encode (\<lambda>_. 7) [1, 2, 3, 4] [1, 0, 3, 0] = Some [run_hdr 4 4, 2, run_hdr 4 12, 4, 0]"
    by code_simp
  moreover have "page_words_ok (length [1, 2, 3, 4 :: u32])" by code_simp
  ultimately show ?thesis
    using diff_size_bound [of "[1, 2, 3, 4]" "[1, 0, 3, 0]" "\<lambda>_. 7"] by simp
qed

end
