(* ===== verification/Tmk_Node.thy ===== *)
theory Tmk_Node
  imports Tmk_Diff
begin

text \<open>
  The state of one TreadMarks process, as the globals of \<^verbatim>\<open>Tmk/src\<close> keep it: the page
  table \<^verbatim>\<open>page_array_\<close> with the list heads that live in it, the shared pages and their
  protection, the twins and their free list, the interval records and write notices, the
  vector times and the statistics (\<^verbatim>\<open>Tmk.h\<close>, \<^verbatim>\<open>page.c\<close>, \<^verbatim>\<open>segv.c\<close>,
  \<^verbatim>\<open>interval.c\<close>, \<^verbatim>\<open>exit.c\<close>).  Components with state of their own extend the record.
\<close>

section \<open>Statistics\<close>

record tmk_stat =
  acquires :: u32
  acquire_time :: u32
  arrivals :: u32
  broadcasts :: u32
  signals :: u32
  waits :: u32
  bytes :: u32
  bytes_of_data :: u32
  cold_misses :: u32
  messages :: u32
  messages_for_acquires :: u32
  rexmits :: u32
  diffs :: u32
  twins :: u32
  repos :: u32
  total_diff_size :: u32

section \<open>Intervals and write notices\<close>

text \<open>
  A \<^verbatim>\<open>struct interval\<close> without its list links: the creating process, its vector time and
  its write notice ranges (first and last page).  Interval records are never written
  after they are enqueued, so a pointer to one is modelled by its value.
\<close>

record interval =
  iv_id :: nat
  iv_vector_time :: "nat \<Rightarrow> u16"
  iv_ranges :: "(u16 \<times> u16) list"

text \<open>\<^verbatim>\<open>struct write_notice\<close>: \<^verbatim>\<open>diff == 0\<close> is \<open>None\<close>; the chain through \<^verbatim>\<open>next\<close> is a list, newest first.\<close>

record write_notice =
  wn_diff :: "u32 list option"
  wn_diff_size :: u16
  wn_interval :: interval

section \<open>Pages\<close>

datatype page_state = Valid | Invalid | Private | Empty

datatype prot = PROT_NONE | PROT_READ | PROT_READ_WRITE

text \<open>
  \<^verbatim>\<open>page_t\<close> is a pointer into \<^verbatim>\<open>page_array_[NPAGES + 1]\<close>, modelled by the index.  The
  global \<^verbatim>\<open>page_dirty\<close> is a \<^verbatim>\<open>struct page\<close> outside the array: it gets the next index.
  \<^verbatim>\<open>NULL\<close> is a further one.
\<close>

type_synonym page_t = nat

definition inval_head :: page_t where "inval_head = NPAGES"
definition page_dirty :: page_t where "page_dirty = NPAGES + 1"
definition null_page :: page_t where "null_page = NPAGES + 2"

text \<open>A twin is a buffer at an address (0 is \<^verbatim>\<open>NULL\<close>).\<close>

record page =
  pg_prev :: page_t
  pg_next :: page_t
  pg_partner :: page_t
  pg_twin :: u32
  pg_state :: page_state
  pg_manager :: nat
  pg_inval_toggle :: bool
  pg_dirty_toggle :: bool
  pg_write_notice :: "nat \<Rightarrow> write_notice list"

section \<open>Chunked heaps\<close>

text \<open>
  \<^verbatim>\<open>heap_t\<close> of \<^verbatim>\<open>interval.c\<close> and \<^verbatim>\<open>diff.c\<close>: a chain of chunks obtained from
  \<^verbatim>\<open>malloc\<close>; \<^verbatim>\<open>heap_current\<close> is the chunk in use (by its position in the chain) and
  \<^verbatim>\<open>heap_brk\<close> the offset of the next free byte in it.
\<close>

record heap =
  heap_current :: nat
  heap_brk :: nat
  heap_chunks :: nat

section \<open>The process\<close>

text \<open>
  \<open>mem\<close> holds the shared pages, \<open>proc_array\<close> the interval lists (oldest first), and
  \<open>heap_1_mem\<close> the words of the chunks of the heap of created diffs, which keep their
  contents when a reclamation gives the chunks back.
\<close>

record node =
  proc_id :: nat
  nprocs :: nat
  page_size :: nat
  npages :: nat
  page_array :: "page_t \<Rightarrow> page"
  mem :: "page_t \<Rightarrow> u32 list"
  protection :: "page_t \<Rightarrow> prot"
  twin_free_list :: u32
  twin_mem :: "u32 \<Rightarrow> u32 list"
  proc_array :: "nat \<Rightarrow> interval list"
  proc_vector_time :: "nat \<Rightarrow> u16"
  inverse_time :: "nat \<Rightarrow> u16"
  interval_heap :: heap
  diff_heap_1 :: heap
  diff_heap_2 :: heap
  heap_1_mem :: "nat \<Rightarrow> nat \<Rightarrow> u32"
  stat :: tmk_stat

section \<open>Access to the page table\<close>

definition upd_page :: "page_t \<Rightarrow> (page \<Rightarrow> page) \<Rightarrow> 'a node_scheme \<Rightarrow> 'a node_scheme" where
  "upd_page p f n = n\<lparr>page_array := (page_array n)(p := f (page_array n p))\<rparr>"

definition upd_stat :: "(tmk_stat \<Rightarrow> tmk_stat) \<Rightarrow> 'a node_scheme \<Rightarrow> 'a node_scheme" where
  "upd_stat f n = n\<lparr>stat := f (stat n)\<rparr>"

lemma page_array_upd_page:
  "page_array (upd_page p f n) q = (if q = p then f (page_array n p) else page_array n q)"
  by (simp add: upd_page_def)

lemma upd_page_frame [simp]:
  "proc_id (upd_page p f n) = proc_id n" "nprocs (upd_page p f n) = nprocs n"
  "page_size (upd_page p f n) = page_size n" "npages (upd_page p f n) = npages n"
  "mem (upd_page p f n) = mem n" "protection (upd_page p f n) = protection n"
  "twin_free_list (upd_page p f n) = twin_free_list n" "twin_mem (upd_page p f n) = twin_mem n"
  "proc_array (upd_page p f n) = proc_array n"
  "proc_vector_time (upd_page p f n) = proc_vector_time n"
  "inverse_time (upd_page p f n) = inverse_time n"
  "interval_heap (upd_page p f n) = interval_heap n"
  "diff_heap_1 (upd_page p f n) = diff_heap_1 n" "diff_heap_2 (upd_page p f n) = diff_heap_2 n"
  "heap_1_mem (upd_page p f n) = heap_1_mem n"
  "stat (upd_page p f n) = stat n"
  by (simp_all add: upd_page_def)

section \<open>The zeroed globals\<close>

text \<open>
  The globals before any initialisation: C zeroes objects of static storage duration.  The
  shared pages are a fresh anonymous mapping, zero as well.
\<close>

definition zero_stat :: tmk_stat where
  "zero_stat = \<lparr>acquires = 0, acquire_time = 0, arrivals = 0, broadcasts = 0, signals = 0, waits = 0,
     bytes = 0, bytes_of_data = 0, cold_misses = 0, messages = 0, messages_for_acquires = 0,
     rexmits = 0, diffs = 0, twins = 0, repos = 0, total_diff_size = 0\<rparr>"

definition zero_page :: page where
  "zero_page = \<lparr>pg_prev = null_page, pg_next = null_page, pg_partner = null_page, pg_twin = 0,
     pg_state = Valid, pg_manager = 0, pg_inval_toggle = False, pg_dirty_toggle = False,
     pg_write_notice = (\<lambda>_. [])\<rparr>"

definition zero_heap :: heap where
  "zero_heap = \<lparr>heap_current = 0, heap_brk = 0, heap_chunks = 1\<rparr>"

definition zero_node :: "nat \<Rightarrow> nat \<Rightarrow> nat \<Rightarrow> nat \<Rightarrow> node" where
  "zero_node pid np size_p pages =
     \<lparr>proc_id = pid, nprocs = np, page_size = size_p, npages = pages,
      page_array = (\<lambda>_. zero_page), mem = (\<lambda>_. replicate (size_p div 4) 0),
      protection = (\<lambda>_. PROT_READ_WRITE), twin_free_list = 0, twin_mem = (\<lambda>_. []),
      proc_array = (\<lambda>_. []), proc_vector_time = (\<lambda>_. 0), inverse_time = (\<lambda>_. 0),
      interval_heap = zero_heap, diff_heap_1 = zero_heap, diff_heap_2 = zero_heap,
      heap_1_mem = (\<lambda>_ _. 0), stat = zero_stat\<rparr>"

lemmas zero_defs = zero_stat_def zero_page_def zero_heap_def zero_node_def

end
