(* ===== verification/Tmk_Page_List.thy ===== *)
theory Tmk_Page_List
  imports Tmk_Node
begin

text \<open>
  Page lists with merging, \<^verbatim>\<open>Tmk/src/page.c\<close>.  Pages to invalidate
  (\<^verbatim>\<open>Tmk_page_inval_merge\<close>) and pages written since the last interval
  (\<^verbatim>\<open>Tmk_page_dirty_merge\<close>) are kept as circular doubly linked lists of runs of
  consecutive pages, threaded through the page table itself.  The first page of a run is
  on the list; first and last page are each other's \<^verbatim>\<open>partner\<close>; a toggle bit marks the
  first page of a run and the page after its last one.  The two routines are the same
  code on different toggles and list heads, so they are instances of one definition; the
  locale \<open>page_runs\<close> states what the code relies on about the toggle field and
  proves the list lemmas once.
\<close>

section \<open>The code\<close>

type_synonym pages = "page_t \<Rightarrow> page"

text \<open>\<^verbatim>\<open>page1->prev = prev; page1->next = next; next->prev = prev->next = page1\<close> with \<^verbatim>\<open>next\<close> the list head.\<close>

definition link_page :: "page_t \<Rightarrow> page_t \<Rightarrow> pages \<Rightarrow> pages" where
  "link_page head page1 a =
     (let prev = pg_prev (a head);
          a = a(page1 := (a page1)\<lparr>pg_prev := prev, pg_next := head\<rparr>);
          a = a(prev := (a prev)\<lparr>pg_next := page1\<rparr>)
      in a(head := (a head)\<lparr>pg_prev := page1\<rparr>))"

definition unlink_page :: "page_t \<Rightarrow> pages \<Rightarrow> pages" where
  "unlink_page page2 a =
     (let prev = pg_prev (a page2); next = pg_next (a page2);
          a = a(next := (a next)\<lparr>pg_prev := prev\<rparr>)
      in a(prev := (a prev)\<lparr>pg_next := next\<rparr>))"

definition set_partners :: "page_t \<Rightarrow> page_t \<Rightarrow> pages \<Rightarrow> pages" where
  "set_partners page1 page2 a =
     (let a = a(page1 := (a page1)\<lparr>pg_partner := page2\<rparr>)
      in a(page2 := (a page2)\<lparr>pg_partner := page1\<rparr>))"

text \<open>The common body of the two merge routines.\<close>

definition page_merge ::
  "(page \<Rightarrow> bool) \<Rightarrow> (bool \<Rightarrow> page \<Rightarrow> page) \<Rightarrow> page_t \<Rightarrow> page_t \<Rightarrow> pages \<Rightarrow> pages" where
  "page_merge tog set_tog head p a =
     (let a = a(p := set_tog (\<not> tog (a p)) (a p));
          (a, page1) =
            (if tog (a p) then (link_page head p a, p) else (a, pg_partner (a (p - 1))));
          a = a(p + 1 := set_tog (\<not> tog (a (p + 1))) (a (p + 1)));
          (a, page2) =
            (if \<not> tog (a (p + 1)) then (unlink_page (p + 1) a, pg_partner (a (p + 1))) else (a, p))
      in set_partners page1 page2 a)"

definition page_inval_merge :: "page_t \<Rightarrow> pages \<Rightarrow> pages" where
  "page_inval_merge = page_merge pg_inval_toggle (\<lambda>b. pg_inval_toggle_update (\<lambda>_. b)) inval_head"

definition page_dirty_merge :: "page_t \<Rightarrow> pages \<Rightarrow> pages" where
  "page_dirty_merge = page_merge pg_dirty_toggle (\<lambda>b. pg_dirty_toggle_update (\<lambda>_. b)) page_dirty"

section \<open>Circular doubly linked lists\<close>

fun dpath :: "pages \<Rightarrow> page_t \<Rightarrow> page_t list \<Rightarrow> page_t \<Rightarrow> bool" where
  "dpath a x [] y \<longleftrightarrow> pg_next (a x) = y \<and> pg_prev (a y) = x"
| "dpath a x (z # zs) y \<longleftrightarrow> pg_next (a x) = z \<and> pg_prev (a z) = x \<and> dpath a z zs y"

definition dll :: "pages \<Rightarrow> page_t \<Rightarrow> page_t list \<Rightarrow> bool" where
  "dll a head xs \<longleftrightarrow> dpath a head xs head \<and> distinct (head # xs)"

lemma dpath_append [simp]:
  "dpath a x (ys @ z # zs) y \<longleftrightarrow> dpath a x ys z \<and> dpath a z zs y"
  by (induction ys arbitrary: x) auto

lemma dpath_cong:
  assumes "\<And>u. u = x \<or> u \<in> set zs \<Longrightarrow> pg_next (b u) = pg_next (a u)"
    and "\<And>u. u = y \<or> u \<in> set zs \<Longrightarrow> pg_prev (b u) = pg_prev (a u)"
  shows "dpath b x zs y = dpath a x zs y"
  using assms by (induction zs arbitrary: x) auto

lemma dpath_last: "dpath a x zs y \<Longrightarrow> pg_prev (a y) = last (x # zs)"
  by (induction zs arbitrary: x) auto

lemma dll_cong:
  assumes "\<And>u. pg_next (b u) = pg_next (a u)" "\<And>u. pg_prev (b u) = pg_prev (a u)"
  shows "dll b h xs = dll a h xs"
  using assms by (simp add: dll_def dpath_cong [of h xs b a])

lemma dll_link_page:
  assumes "dll a h xs" "p \<notin> set (h # xs)"
  shows "dll (link_page h p a) h (xs @ [p])"
proof (cases xs rule: rev_cases)
  case Nil
  with assms show ?thesis by (auto simp: dll_def link_page_def Let_def)
next
  case (snoc ys y)
  with assms(1) have path: "dpath a h ys y" and y: "pg_next (a y) = h" "pg_prev (a h) = y"
    and dist: "distinct (h # ys @ [y])"
    by (auto simp: dll_def)
  have "dpath (link_page h p a) h ys y = dpath a h ys y"
    using assms(2) dist y snoc by (intro dpath_cong) (auto simp: link_page_def Let_def)
  with path y dist assms(2) snoc show ?thesis
    by (auto simp: dll_def link_page_def Let_def)
qed

lemma dll_unlink_page:
  assumes "dll a h (ys @ x # zs)"
  shows "dll (unlink_page x a) h (ys @ zs)"
proof -
  from assms have l: "dpath a h ys x" and r: "dpath a x zs h" and dist: "distinct (h # ys @ x # zs)"
    by (auto simp: dll_def)
  define pr nx where "pr = pg_prev (a x)" and "nx = pg_next (a x)"
  have pr: "pr = last (h # ys)" using dpath_last [OF l] by (simp add: pr_def)
  have nx: "nx = hd (zs @ [h])" using r by (cases zs) (auto simp: nx_def)
  let ?b = "unlink_page x a"
  have b: "pg_next (?b u) = (if u = pr then nx else pg_next (a u))"
    "pg_prev (?b u) = (if u = nx then pr else pg_prev (a u))" for u
    by (auto simp: unlink_page_def Let_def pr_def nx_def)
  have "dpath ?b h (ys @ zs) h"
  proof (cases ys rule: rev_cases)
    case Nil
    then have "pr = h" using pr by simp
    show ?thesis
    proof (cases zs)
      case Nil
      with \<open>ys = []\<close> \<open>pr = h\<close> nx show ?thesis by (simp add: b)
    next
      case (Cons z zs')
      have "dpath ?b z zs' h = dpath a z zs' h"
        using Cons \<open>ys = []\<close> \<open>pr = h\<close> nx dist by (intro dpath_cong) (auto simp: b)
      with Cons \<open>ys = []\<close> \<open>pr = h\<close> nx r show ?thesis by (simp add: b)
    qed
  next
    case (snoc ys' y)
    then have pry: "pr = y" using pr by simp
    have "dpath ?b h ys' y = dpath a h ys' y"
      using snoc pry nx dist by (cases zs) (auto simp: b intro!: dpath_cong)
    moreover have "dpath ?b y zs h"
    proof (cases zs)
      case Nil
      with pry nx show ?thesis by (simp add: b)
    next
      case (Cons z zs')
      have "dpath ?b z zs' h = dpath a z zs' h"
        using Cons snoc pry nx dist by (intro dpath_cong) (auto simp: b)
      with Cons pry nx r show ?thesis by (simp add: b)
    qed
    ultimately show ?thesis using l snoc by auto
  qed
  with dist show ?thesis by (simp add: dll_def)
qed

section \<open>Runs of pages\<close>

text \<open>Sets of page runs (first and last page): inside the table, and separated by at least one page.\<close>

definition separated :: "(nat \<times> nat) set \<Rightarrow> bool" where
  "separated S \<longleftrightarrow> (\<forall>r \<in> S. \<forall>r' \<in> S. r \<noteq> r' \<longrightarrow> snd r + 1 < fst r' \<or> snd r' + 1 < fst r)"

definition runs_wf :: "nat \<Rightarrow> (nat \<times> nat) set \<Rightarrow> bool" where
  "runs_wf N S \<longleftrightarrow> (\<forall>r \<in> S. fst r \<le> snd r \<and> snd r < N) \<and> separated S"

lemma runs_wfD: "runs_wf N S \<Longrightarrow> (f, l) \<in> S \<Longrightarrow> f \<le> l" "runs_wf N S \<Longrightarrow> (f, l) \<in> S \<Longrightarrow> l < N" 
  "runs_wf N S \<Longrightarrow> (f, l) \<in> S \<Longrightarrow> (f', l') \<in> S \<Longrightarrow> f \<noteq> f' \<or> l \<noteq> l' \<Longrightarrow> l + 1 < f' \<or> l' + 1 < f"
  unfolding runs_wf_def separated_def by fastforce+

text \<open>
  Adding page \<open>p\<close> to a set of runs: \<open>g\<close> is the first page of the run that ends just
  below it (or \<open>p\<close>), \<open>m\<close> the last page of the run that begins just above it (or \<open>p\<close>).
\<close>

definition left_end :: "(nat \<times> nat) set \<Rightarrow> nat \<Rightarrow> nat \<Rightarrow> bool" where
  "left_end S p g \<longleftrightarrow> (\<exists>l. (g, l) \<in> S \<and> l + 1 = p) \<or> ((\<forall>(f, l) \<in> S. l + 1 \<noteq> p) \<and> g = p)"

definition right_end :: "(nat \<times> nat) set \<Rightarrow> nat \<Rightarrow> nat \<Rightarrow> bool" where
  "right_end S p m \<longleftrightarrow> (p + 1, m) \<in> S \<or> ((\<forall>(f, l) \<in> S. f \<noteq> p + 1) \<and> m = p)"

definition joins :: "nat \<Rightarrow> (nat \<times> nat) set \<Rightarrow> nat \<Rightarrow> nat \<Rightarrow> nat \<Rightarrow> bool" where
  "joins N S p g m \<longleftrightarrow> runs_wf N S \<and> p < N \<and> (\<forall>(f, l) \<in> S. p < f \<or> l < p) \<and> left_end S p g \<and> right_end S p m"

definition join_runs :: "(nat \<times> nat) set \<Rightarrow> nat \<Rightarrow> nat \<Rightarrow> nat \<Rightarrow> (nat \<times> nat) set" where
  "join_runs S p g m = insert (g, m) {(f, l) \<in> S. l + 1 \<noteq> p \<and> f \<noteq> p + 1}"

lemma joins_bounds: assumes "joins N S p g m" shows "g \<le> p" "p \<le> m" "m < N"
  using assms runs_wfD(1,2) [of N S] by (force simp: joins_def left_end_def right_end_def)+

lemma joins_other:
  assumes j: "joins N S p g m" and "(f, l) \<in> S" "l + 1 \<noteq> p" "f \<noteq> p + 1"
  shows "l + 1 < g \<or> m + 1 < f"
proof -
  from j have wf: "runs_wf N S" by (simp add: joins_def)
  have fl: "f \<le> l" using runs_wfD(1) [OF wf assms(2)] .
  have a: "l + 1 < p \<or> p + 1 < f" using j assms by (fastforce simp: joins_def)
  have L: "l + 1 < g \<or> p < f"
    using j a assms runs_wfD(3) [OF wf assms(2)] by (fastforce simp: joins_def left_end_def)
  have R: "l < p \<or> m + 1 < f"
    using j a assms runs_wfD(3) [OF wf assms(2)] by (fastforce simp: joins_def right_end_def)
  show ?thesis using fl a L R by linarith
qed

lemma joins_wf: assumes j: "joins N S p g m" shows "runs_wf N (join_runs S p g m)"
proof -
  from j have wf: "runs_wf N S" by (simp add: joins_def)
  show ?thesis
    unfolding runs_wf_def separated_def join_runs_def
    using joins_bounds [OF j] joins_other [OF j] runs_wfD [OF wf] by (auto; blast?)
qed

lemma joins_left:
  assumes j: "joins N S p g m"
  shows "(f, l) \<in> S \<Longrightarrow> l + 1 = p \<Longrightarrow> f = g" and "g < p \<Longrightarrow> (g, p - 1) \<in> S"
    and "(g, p - 1) \<in> S \<Longrightarrow> g < p"
proof -
  from j have wf: "runs_wf N S" and g: "left_end S p g" by (simp_all add: joins_def)
  show "f = g" if fl: "(f, l) \<in> S" "l + 1 = p"
  proof -
    from g fl have "(g, l) \<in> S" by (auto simp: left_end_def)
    with fl runs_wfD(1) [OF wf] runs_wfD(3) [OF wf fl(1), of g l] show ?thesis by fastforce
  qed
  show "(g, p - 1) \<in> S" if "g < p"
    using g that by (auto simp: left_end_def)
  show "g < p" if "(g, p - 1) \<in> S"
    using j runs_wfD(1) [OF wf that] that by (force simp: joins_def)
qed

lemma joins_right:
  assumes j: "joins N S p g m"
  shows "(f, l) \<in> S \<Longrightarrow> f = p + 1 \<Longrightarrow> l = m" and "p < m \<Longrightarrow> (p + 1, m) \<in> S"
    and "(p + 1, m) \<in> S \<Longrightarrow> p < m"
proof -
  from j have wf: "runs_wf N S" and m: "right_end S p m" by (simp_all add: joins_def)
  show "l = m" if fl: "(f, l) \<in> S" "f = p + 1"
  proof -
    from m fl have "(f, m) \<in> S" by (auto simp: right_end_def)
    with fl runs_wfD(1) [OF wf] runs_wfD(3) [OF wf fl(1), of f m] show ?thesis by fastforce
  qed
  show "(p + 1, m) \<in> S" if "p < m"
    using m that by (auto simp: right_end_def)
  show "p < m" if "(p + 1, m) \<in> S"
    using runs_wfD(1) [OF wf that] by simp
qed

lemma joins_cover:
  assumes j: "joins N S p g m"
  shows "(\<Union>r \<in> join_runs S p g m. {fst r..snd r}) = insert p (\<Union>r \<in> S. {fst r..snd r})" (is "?A = ?B")
proof
  note b = joins_bounds [OF j]
  show "?A \<subseteq> ?B"
  proof -
    have "q \<in> ?B" if "g \<le> q" "q \<le> m" for q
    proof -
      consider "q = p" | "q < p" | "p < q" by linarith
      then show ?thesis
      proof cases
        case 2
        with that have "(g, p - 1) \<in> S" "q \<in> {g..p - 1}" using joins_left(2) [OF j] by auto
        then show ?thesis by force
      next
        case 3
        with that have "(p + 1, m) \<in> S" "q \<in> {p + 1..m}" using joins_right(2) [OF j] by auto
        then show ?thesis by force
      qed simp
    qed
    then show ?thesis by (force simp: join_runs_def)
  qed
  show "?B \<subseteq> ?A"
  proof -
    have "q \<in> ?A" if "(f, l) \<in> S" "f \<le> q" "q \<le> l" for f l q
    proof (cases "l + 1 \<noteq> p \<and> f \<noteq> p + 1")
      case True
      with that show ?thesis by (force simp: join_runs_def)
    next
      case False
      with that joins_left(1) [OF j that(1)] joins_right(1) [OF j that(1)] b
      have "q \<in> {g..m}" by auto
      then show ?thesis by (force simp: join_runs_def)
    qed
    note inside = this
    have pA: "p \<in> ?A" using b by (force simp: join_runs_def)
    show ?thesis
    proof
      fix q assume "q \<in> ?B"
      then consider "q = p" | f l where "(f, l) \<in> S" "f \<le> q" "q \<le> l" by auto
      then show "q \<in> ?A" using inside pA by cases blast+
    qed
  qed
qed

lemma joins_boundary:
  assumes j: "joins N S p g m"
  shows "(\<exists>(f, l) \<in> join_runs S p g m. q = f \<or> q = l + 1) \<longleftrightarrow>
         (\<exists>(f, l) \<in> S. q = f \<or> q = l + 1) \<noteq> (q = p \<or> q = p + 1)" (is "?A \<longleftrightarrow> ?B \<noteq> _")
proof -
  note b = joins_bounds [OF j] and wf = conjunct1 [OF j [unfolded joins_def]]
  have out: "p < f \<or> l < p" if "(f, l) \<in> S" for f l using j that by (force simp: joins_def)
  have A: "?A \<longleftrightarrow> q = g \<or> q = m + 1 \<or> (\<exists>(f, l) \<in> S. l + 1 \<noteq> p \<and> f \<noteq> p + 1 \<and> (q = f \<or> q = l + 1))"
    by (auto simp: join_runs_def)
  have B: "?B \<longleftrightarrow> (g < p \<and> (q = g \<or> q = p)) \<or> (p < m \<and> (q = p + 1 \<or> q = m + 1)) \<or>
      (\<exists>(f, l) \<in> S. l + 1 \<noteq> p \<and> f \<noteq> p + 1 \<and> (q = f \<or> q = l + 1))" (is "_ \<longleftrightarrow> ?L \<or> ?R \<or> ?O")
  proof
    assume ?B
    then obtain f l where fl: "(f, l) \<in> S" "q = f \<or> q = l + 1" by auto
    then show "?L \<or> ?R \<or> ?O"
      using joins_left(1) [OF j fl(1)] joins_right(1) [OF j fl(1)] runs_wfD(1) [OF wf fl(1)] by force
  next
    assume "?L \<or> ?R \<or> ?O"
    moreover have ?B if ?L using that joins_left(2) [OF j] by (intro bexI [of _ "(g, p - 1)"]) auto
    moreover have ?B if ?R using that joins_right(2) [OF j] by (intro bexI [of _ "(p + 1, m)"]) auto
    ultimately show ?B by auto
  qed
  have O: "q < g \<or> m + 1 < q" if "?O" using that joins_other [OF j] runs_wfD(1) [OF wf] by fastforce
  show ?thesis unfolding A B using b O by (cases ?O) auto
qed

text \<open>
  \<open>run_inv tog h a rs\<close>: the list at head \<open>h\<close> holds exactly the runs \<open>rs\<close>, in list
  order; first and last page of a run are partners, and the toggle marks the two
  boundaries of every run and nothing else.
\<close>

definition run_inv :: "(page \<Rightarrow> bool) \<Rightarrow> page_t \<Rightarrow> pages \<Rightarrow> (nat \<times> nat) list \<Rightarrow> bool" where
  "run_inv tog h a rs \<longleftrightarrow>
     dll a h (map fst rs) \<and> runs_wf NPAGES (set rs) \<and>
     (\<forall>(f, l) \<in> set rs. pg_partner (a f) = l \<and> pg_partner (a l) = f) \<and>
     (\<forall>p \<le> NPAGES. tog (a p) \<longleftrightarrow> (\<exists>(f, l) \<in> set rs. p = f \<or> p = l + 1))"

definition covered :: "(nat \<times> nat) list \<Rightarrow> nat set" where
  "covered rs = (\<Union>r \<in> set rs. {fst r..snd r})"

lemma covered_simps [simp]:
  "covered [] = {}" "covered (r # rs) = {fst r..snd r} \<union> covered rs"
  by (auto simp: covered_def)

lemma run_invD:
  assumes "run_inv tog h a rs"
  shows "dll a h (map fst rs)" "runs_wf NPAGES (set rs)"
    and "(f, l) \<in> set rs \<Longrightarrow> pg_partner (a f) = l" "(f, l) \<in> set rs \<Longrightarrow> pg_partner (a l) = f"
    and "p \<le> NPAGES \<Longrightarrow> tog (a p) \<longleftrightarrow> (\<exists>(f, l) \<in> set rs. p = f \<or> p = l + 1)"
  using assms by (auto simp: run_inv_def)

lemma not_coveredD: "p \<notin> covered rs \<Longrightarrow> (f, l) \<in> set rs \<Longrightarrow> p < f \<or> l < p"
  by (force simp: covered_def)

lemma dll_unlink_filter:
  assumes "dll a h xs" "x \<in> set xs"
  shows "dll (unlink_page x a) h (filter (\<lambda>y. y \<noteq> x) xs)"
proof -
  from assms(2) obtain ys zs where xs: "xs = ys @ x # zs" by (auto dest: split_list)
  with assms(1) have "x \<notin> set ys" "x \<notin> set zs" by (auto simp: dll_def)
  then have "filter (\<lambda>y. y \<noteq> x) xs = ys @ zs" by (simp add: xs filter_neq_id)
  with dll_unlink_page [of a h ys x zs] assms(1) xs show ?thesis by simp
qed

lemma link_page_cong:
  assumes "\<And>u. pg_prev (b u) = pg_prev (a u)" "\<And>u. pg_next (b u) = pg_next (a u)"
  shows "pg_prev (link_page h p b u) = pg_prev (link_page h p a u)"
    and "pg_next (link_page h p b u) = pg_next (link_page h p a u)"
  using assms by (simp_all add: link_page_def Let_def)

lemma unlink_page_cong:
  assumes "\<And>u. pg_prev (b u) = pg_prev (a u)" "\<And>u. pg_next (b u) = pg_next (a u)"
  shows "pg_prev (unlink_page p b u) = pg_prev (unlink_page p a u)"
    and "pg_next (unlink_page p b u) = pg_next (unlink_page p a u)"
  using assms by (simp_all add: unlink_page_def Let_def)

text \<open>The links of list members stay in the list, so list surgery leaves the other pages alone.\<close>

lemma dpath_links:
  "dpath a x zs y \<Longrightarrow> u \<in> set (x # zs) \<Longrightarrow> pg_next (a u) \<in> set (zs @ [y])"
  "dpath a x zs y \<Longrightarrow> u \<in> set (zs @ [y]) \<Longrightarrow> pg_prev (a u) \<in> set (x # zs)"
  by (induction zs arbitrary: x) auto

lemma dll_links:
  assumes "dll a h xs" "u \<in> set (h # xs)"
  shows "pg_prev (a u) \<in> set (h # xs)" "pg_next (a u) \<in> set (h # xs)"
  using assms dpath_links [of a h xs h u] by (auto simp: dll_def)

lemma link_page_other:
  assumes "dll a h xs" "u \<notin> set (h # xs)" "u \<noteq> p"
  shows "pg_prev (link_page h p a u) = pg_prev (a u)" "pg_next (link_page h p a u) = pg_next (a u)"
  using assms dll_links(1) [OF assms(1), of h] by (auto simp: link_page_def Let_def)

lemma unlink_page_other:
  assumes "dll a h xs" "x \<in> set xs" "u \<notin> set (h # xs)"
  shows "pg_prev (unlink_page x a u) = pg_prev (a u)" "pg_next (unlink_page x a u) = pg_next (a u)"
  using assms dll_links [OF assms(1), of x] by (auto simp: unlink_page_def Let_def)

lemma run_inv_frame:
  assumes inv: "run_inv tog h a rs"
    and links: "\<And>u. u = h \<or> u \<in> covered rs \<Longrightarrow> pg_prev (b u) = pg_prev (a u) \<and> pg_next (b u) = pg_next (a u)"
    and partner: "\<And>u. u \<in> covered rs \<Longrightarrow> pg_partner (b u) = pg_partner (a u)"
    and togs: "\<And>u. u \<le> NPAGES \<Longrightarrow> tog (b u) = tog (a u)"
  shows "run_inv tog h b rs"
proof -
  note I = run_invD [OF inv]
  have in_cov: "f \<in> covered rs" "l \<in> covered rs" if "(f, l) \<in> set rs" for f l
    using that runs_wfD(1) [OF I(2) that] by (force simp: covered_def)+
  then have "u \<in> covered rs" if "u \<in> set (map fst rs)" for u using that by auto
  then have "dpath b h (map fst rs) h = dpath a h (map fst rs) h"
    using links by (intro dpath_cong) auto
  with inv partner togs in_cov show ?thesis by (fastforce simp: run_inv_def dll_def)
qed

locale page_runs =
  fixes tog :: "page \<Rightarrow> bool" and set_tog :: "bool \<Rightarrow> page \<Rightarrow> page" and head :: page_t
  assumes tog_set [simp]: "tog (set_tog b pg) = b"
    and set_links [simp]: "pg_prev (set_tog b pg) = pg_prev pg" "pg_next (set_tog b pg) = pg_next pg"
          "pg_partner (set_tog b pg) = pg_partner pg"
    and tog_links [simp]: "tog (pg_prev_update f pg) = tog pg" "tog (pg_next_update f pg) = tog pg"
          "tog (pg_partner_update f pg) = tog pg"
    and head_outside: "NPAGES \<le> head"
begin

lemma tog_link [simp]: "tog (link_page h p a u) = tog (a u)"
  by (simp add: link_page_def Let_def)

lemma tog_unlink [simp]: "tog (unlink_page p a u) = tog (a u)"
  by (simp add: unlink_page_def Let_def)

lemma tog_partners [simp]: "tog (set_partners p q a u) = tog (a u)"
  by (simp add: set_partners_def Let_def)

lemma links_partners [simp]:
  "pg_prev (set_partners p q a u) = pg_prev (a u)" "pg_next (set_partners p q a u) = pg_next (a u)"
  by (simp_all add: set_partners_def Let_def)

lemma partner_link [simp]: "pg_partner (link_page h p a u) = pg_partner (a u)"
  by (simp add: link_page_def Let_def)

lemma partner_unlink [simp]: "pg_partner (unlink_page p a u) = pg_partner (a u)"
  by (simp add: unlink_page_def Let_def)

lemma partner_set [simp]:
  "pg_partner (set_partners p q a u) = (if u = q then p else if u = p then q else pg_partner (a u))"
  by (simp add: set_partners_def Let_def)

lemma dll_set_partners [simp]: "dll (set_partners p q a) h xs = dll a h xs"
  by (rule dll_cong) simp_all

lemma dll_set_tog [simp]: "dll (a(p := set_tog b (a p))) h xs = dll a h xs"
  by (rule dll_cong) simp_all

text \<open>What one merge does to each field, without any assumption on the lists.\<close>

lemma tog_merge: "tog (page_merge tog set_tog head p a q) \<longleftrightarrow> tog (a q) \<noteq> (q = p \<or> q = p + 1)"
  by (simp add: page_merge_def Let_def)

lemma partner_merge:
  "pg_partner (page_merge tog set_tog head p a q) =
     (let page1 = (if tog (a p) then pg_partner (a (p - 1)) else p);
          page2 = (if tog (a (p + 1)) then pg_partner (a (p + 1)) else p)
      in if q = page2 then page1 else if q = page1 then page2 else pg_partner (a q))"
  by (simp add: page_merge_def Let_def)

lemma dll_merge:
  "dll (page_merge tog set_tog head p a) h xs =
   dll ((if tog (a (p + 1)) then unlink_page (p + 1) else id)
        ((if tog (a p) then id else link_page head p) a)) h xs"
  by (rule dll_cong) (auto simp: page_merge_def Let_def intro!: unlink_page_cong link_page_cong)

text \<open>The run list after a merge: the run below is extended in place, or a new run goes to the end; the run above leaves.\<close>

lemma page_merge_inv:
  assumes inv: "run_inv tog head a rs" and p: "p < NPAGES" and fresh: "p \<notin> covered rs"
  shows "\<exists>rs'. run_inv tog head (page_merge tog set_tog head p a) rs' \<and> covered rs' = insert p (covered rs)"
proof -
  let ?S = "set rs" and ?b = "page_merge tog set_tog head p a"
  define g where "g = (if tog (a p) then pg_partner (a (p - 1)) else p)"
  define m where "m = (if tog (a (p + 1)) then pg_partner (a (p + 1)) else p)"
  note I = run_invD [OF inv] and F = not_coveredD [OF fresh]
  have left: "tog (a p) \<longleftrightarrow> (\<exists>(f, l) \<in> ?S. l + 1 = p)"
    using I(5) [of p] p F runs_wfD(1) [OF I(2)] by fastforce
  have right: "tog (a (p + 1)) \<longleftrightarrow> (\<exists>(f, l) \<in> ?S. f = p + 1)"
    using I(5) [of "p + 1"] p F runs_wfD(1) [OF I(2)] by fastforce
  have "left_end ?S p g" using left I(4) by (auto simp: left_end_def g_def)
  moreover have "right_end ?S p m" using right I(3) by (auto simp: right_end_def m_def)
  ultimately have j: "joins NPAGES ?S p g m" using I(2) p F by (auto simp: joins_def)
  define rs1 where "rs1 = (if tog (a p) then map (\<lambda>r. if snd r + 1 = p then (g, m) else r) rs else rs @ [(g, m)])"
  define rs' where "rs' = filter (\<lambda>r. fst r \<noteq> p + 1) rs1"
  have fst1: "map fst rs1 = (if tog (a p) then map fst rs else map fst rs @ [p])"
    using joins_left(1) [OF j] by (auto simp: rs1_def g_def)
  have set': "set rs' = join_runs ?S p g m"
    using left joins_bounds [OF j] by (auto simp: rs'_def rs1_def join_runs_def split: if_splits)
  have d1: "dll ((if tog (a p) then id else link_page head p) a) head (map fst rs1)"
    using I(1) fst1 F p head_outside dll_link_page [OF I(1), of p] runs_wfD(1) [OF I(2)] by fastforce
  have "p + 1 \<in> set (map fst rs1) \<longleftrightarrow> tog (a (p + 1))" unfolding fst1 using right by force
  moreover have "map fst rs' = filter (\<lambda>y. y \<noteq> p + 1) (map fst rs1)"
    by (simp add: rs'_def filter_map comp_def)
  ultimately have "dll ?b head (map fst rs')"
    using d1 dll_unlink_filter [OF d1, of "p + 1"] filter_neq_id [of "p + 1" "map fst rs1"]
    by (cases "tog (a (p + 1))") (auto simp: dll_merge)
  moreover have "pg_partner (?b f) = l \<and> pg_partner (?b l) = f" if fl: "(f, l) \<in> set rs'" for f l
  proof -
    have part: "pg_partner (?b q) = (if q = m then g else if q = g then m else pg_partner (a q))" for q
      unfolding partner_merge Let_def g_def m_def by (rule refl)
    show ?thesis
    proof (cases "(f, l) = (g, m)")
      case False
      with fl have S: "(f, l) \<in> ?S" "l + 1 \<noteq> p" "f \<noteq> p + 1" by (auto simp: set' join_runs_def)
      have "f \<notin> {g, m}" "l \<notin> {g, m}"
        using joins_other [OF j S] runs_wfD(1) [OF I(2) S(1)] joins_bounds [OF j] by auto
      with I(3,4) [OF S(1)] show ?thesis by (simp add: part)
    qed (simp add: part)
  qed
  moreover have "tog (?b q) \<longleftrightarrow> (\<exists>(f, l) \<in> set rs'. q = f \<or> q = l + 1)" if "q \<le> NPAGES" for q
    using joins_boundary [OF j, of q] I(5) [OF that] by (simp add: set' tog_merge)
  ultimately have "run_inv tog head ?b rs'"
    using joins_wf [OF j] by (auto simp: run_inv_def set')
  moreover have "covered rs' = insert p (covered rs)"
    using joins_cover [OF j] by (simp add: covered_def set')
  ultimately show ?thesis by blast
qed

text \<open>A merge only touches the page, the list head and the pages on the list.\<close>

lemma merge_outside:
  assumes inv: "run_inv tog head a rs" and p: "p < NPAGES" and fresh: "p \<notin> covered rs"
    and u: "u \<noteq> head" "u \<notin> covered rs" "u \<noteq> p"
  shows "pg_prev (page_merge tog set_tog head p a u) = pg_prev (a u) \<and>
         pg_next (page_merge tog set_tog head p a u) = pg_next (a u) \<and>
         pg_partner (page_merge tog set_tog head p a u) = pg_partner (a u)"
proof -
  note I = run_invD [OF inv] and F = not_coveredD [OF fresh]
  have in_cov: "f \<in> covered rs" "l \<in> covered rs" if "(f, l) \<in> set rs" for f l
    using that runs_wfD(1) [OF I(2) that] by (force simp: covered_def)+
  have left: "pg_partner (a (p - 1)) \<in> covered rs" if "tog (a p)"
  proof -
    from that I(5) [of p] p F runs_wfD(1) [OF I(2)] obtain f l where fl: "(f, l) \<in> set rs" "p = l + 1"
      by fastforce
    with I(4) [OF fl(1)] in_cov(1) [OF fl(1)] show ?thesis by simp
  qed
  have right: "(p + 1, pg_partner (a (p + 1))) \<in> set rs" if "tog (a (p + 1))"
  proof -
    from that I(5) [of "p + 1"] p F runs_wfD(1) [OF I(2)] obtain l where "(p + 1, l) \<in> set rs"
      by fastforce
    with I(3) show ?thesis by simp
  qed
  have fst_cov: "x \<in> covered rs" if "x \<in> set (map fst rs)" for x using that in_cov by auto
  have pout: "p \<notin> set (head # map fst rs)" using fresh fst_cov head_outside p by auto
  define a1 where "a1 = (if tog (a p) then id else link_page head p) a"
  have d1: "dll a1 head (if tog (a p) then map fst rs else map fst rs @ [p])"
    using I(1) dll_link_page [OF I(1) pout] by (simp add: a1_def)
  have l1: "pg_prev (a1 u) = pg_prev (a u) \<and> pg_next (a1 u) = pg_next (a u)"
    using u fst_cov link_page_other [OF I(1), of u p] by (auto simp: a1_def)
  have l2: "pg_prev (unlink_page (p + 1) a1 u) = pg_prev (a1 u) \<and>
        pg_next (unlink_page (p + 1) a1 u) = pg_next (a1 u)" if "tog (a (p + 1))"
  proof -
    have "p + 1 \<in> set (map fst rs)" using right [OF that] by (force simp: image_iff)
    moreover have "u \<notin> set (head # map fst rs)" using u fst_cov by auto
    ultimately show ?thesis
      using unlink_page_other [OF d1, of "p + 1" u] u(3) by (cases "tog (a p)") simp_all
  qed
  have "pg_partner (page_merge tog set_tog head p a u) = pg_partner (a u)"
    using u left right in_cov by (auto simp: partner_merge Let_def)
  moreover have "pg_prev (page_merge tog set_tog head p a u) =
      pg_prev ((if tog (a (p + 1)) then unlink_page (p + 1) else id) a1 u)"
    "pg_next (page_merge tog set_tog head p a u) =
      pg_next ((if tog (a (p + 1)) then unlink_page (p + 1) else id) a1 u)"
    unfolding a1_def
    by (auto simp: page_merge_def Let_def intro!: unlink_page_cong link_page_cong)
  ultimately show ?thesis using l1 l2 by auto
qed

end

text \<open>
  The two lists share the link fields of \<^verbatim>\<open>struct page\<close> (see the warning in \<^verbatim>\<open>Tmk.h\<close>), but a
  merge into one leaves the other intact as long as no page is on both.
\<close>

locale two_page_lists = page_runs +
  fixes tog' :: "page \<Rightarrow> bool" and head' :: page_t
  assumes tog'_set [simp]: "tog' (set_tog b pg) = tog' pg"
    and tog'_links [simp]: "tog' (pg_prev_update f pg) = tog' pg" "tog' (pg_next_update f pg) = tog' pg"
          "tog' (pg_partner_update f pg) = tog' pg"
    and heads: "head' \<noteq> head" "NPAGES \<le> head'"
begin

lemma tog'_list_ops [simp]:
  "tog' (link_page h p a u) = tog' (a u)" "tog' (unlink_page p a u) = tog' (a u)"
  "tog' (set_partners p q a u) = tog' (a u)"
  by (simp_all add: link_page_def unlink_page_def set_partners_def Let_def)

lemma tog'_merge: "tog' (page_merge tog set_tog head p a u) = tog' (a u)"
  by (simp add: page_merge_def Let_def)

lemma merge_other_list:
  assumes inv: "run_inv tog head a rs" and p: "p < NPAGES" "p \<notin> covered rs"
    and other: "run_inv tog' head' a rs'" and disj: "covered rs \<inter> covered rs' = {}" "p \<notin> covered rs'"
  shows "run_inv tog' head' (page_merge tog set_tog head p a) rs'"
proof -
  have "head' \<notin> covered rs"
    using run_invD(2) [OF inv] heads by (force simp: covered_def runs_wf_def)
  moreover have "head \<notin> covered rs'"
    using run_invD(2) [OF other] head_outside by (force simp: covered_def runs_wf_def)
  ultimately have "u \<noteq> head \<and> u \<notin> covered rs \<and> u \<noteq> p" if "u = head' \<or> u \<in> covered rs'" for u
    using that disj heads p(1) by auto
  then have same: "pg_prev (page_merge tog set_tog head p a u) = pg_prev (a u) \<and>
      pg_next (page_merge tog set_tog head p a u) = pg_next (a u) \<and>
      pg_partner (page_merge tog set_tog head p a u) = pg_partner (a u)"
    if "u = head' \<or> u \<in> covered rs'" for u
    using merge_outside [OF inv p] that by metis
  show ?thesis
    by (rule run_inv_frame [OF other]) (simp_all add: same tog'_merge)
qed

end

interpretation inval: page_runs pg_inval_toggle "\<lambda>b. pg_inval_toggle_update (\<lambda>_. b)" inval_head
  by unfold_locales (simp_all add: inval_head_def)

interpretation dirty: page_runs pg_dirty_toggle "\<lambda>b. pg_dirty_toggle_update (\<lambda>_. b)" page_dirty
  by unfold_locales (simp_all add: page_dirty_def)

interpretation inval_dirty:
  two_page_lists pg_inval_toggle "\<lambda>b. pg_inval_toggle_update (\<lambda>_. b)" inval_head pg_dirty_toggle page_dirty
  by unfold_locales (simp_all add: inval_head_def page_dirty_def)

interpretation dirty_inval:
  two_page_lists pg_dirty_toggle "\<lambda>b. pg_dirty_toggle_update (\<lambda>_. b)" page_dirty pg_inval_toggle inval_head
  by unfold_locales (simp_all add: inval_head_def page_dirty_def)

end
