(* ===== verification/Tmk_Page.thy ===== *)
theory Tmk_Page
  imports Tmk_Page_List
begin

text \<open>
  Page management, \<^verbatim>\<open>Tmk/src/page.c\<close>, and the twins of \<^verbatim>\<open>Tmk/src/segv.c\<close>: merging and
  performing invalidations on a process, the page server \<^verbatim>\<open>Tmk_page_sigio_handler\<close>, the
  initial page table, and the LIFO free list of twins threaded through the first word of
  the free buffers.  \<^verbatim>\<open>mprotect\<close> of a range of pages sets their entry in
  \<open>protection\<close> (pages lie one after another from \<^verbatim>\<open>page_array_[0].vadr\<close>).
\<close>

section \<open>Invalidations\<close>

definition Tmk_page_inval_merge :: "page_t \<Rightarrow> 'a node_scheme \<Rightarrow> 'a node_scheme" where
  "Tmk_page_inval_merge p n = n\<lparr>page_array := page_inval_merge p (page_array n)\<rparr>"

definition Tmk_page_dirty_merge :: "page_t \<Rightarrow> 'a node_scheme \<Rightarrow> 'a node_scheme" where
  "Tmk_page_dirty_merge p n = n\<lparr>page_array := page_dirty_merge p (page_array n)\<rparr>"

definition mprotect_range :: "page_t \<Rightarrow> page_t \<Rightarrow> prot \<Rightarrow> (page_t \<Rightarrow> prot) \<Rightarrow> page_t \<Rightarrow> prot" where
  "mprotect_range first last_p1 prot pr q = (if first \<le> q \<and> q < last_p1 then prot else pr q)"

text \<open>The \<^verbatim>\<open>do\<close> loop of \<^verbatim>\<open>Tmk_page_inval_perform\<close>; \<open>None\<close> if it never meets the list head again.\<close>

partial_function (option) inval_walk ::
  "pages \<Rightarrow> (page_t \<Rightarrow> prot) \<Rightarrow> page_t \<Rightarrow> (pages \<times> (page_t \<Rightarrow> prot)) option" where
  "inval_walk a pr page =
     (let partner = pg_partner (a page) + 1;
          a = a(partner := (a partner)\<lparr>pg_inval_toggle := False\<rparr>);
          pr = mprotect_range page partner PROT_NONE pr;
          a = a(page := (a page)\<lparr>pg_inval_toggle := False\<rparr>);
          page = pg_prev (a page)
      in if page = inval_head then Some (a, pr) else inval_walk a pr page)"

definition Tmk_page_inval_perform :: "'a node_scheme \<Rightarrow> 'a node_scheme option" where
  "Tmk_page_inval_perform n =
     (let a = page_array n; page = pg_prev (a inval_head)
      in if page = inval_head then Some n
         else
           (let a = a(inval_head := (a inval_head)\<lparr>pg_prev := inval_head, pg_next := inval_head\<rparr>)
            in map_option (\<lambda>(a, pr). n\<lparr>page_array := a, protection := pr\<rparr>)
                 (inval_walk a (protection n) page)))"

section \<open>Initialisation\<close>

text \<open>
  \<^verbatim>\<open>Tmk_page_initialize\<close>: the shift is the logarithm of the page size; every page starts
  private on process 0 and empty elsewhere (or valid everywhere, with
  \<^verbatim>\<open>Tmk_page_init_to_valid\<close>), managed by process 0, and both lists are empty.
\<close>

function page_shift_loop :: "nat \<Rightarrow> nat \<Rightarrow> nat \<Rightarrow> nat" where
  "page_shift_loop i size_p shift =
     (if 0 < i \<and> i < size_p then page_shift_loop (2 * i) size_p (shift + 1) else shift)"
  by pat_completeness auto
termination
  by (relation "measure (\<lambda>(i, size_p, shift). size_p - i)") auto

definition init_page :: "bool \<Rightarrow> nat \<Rightarrow> page \<Rightarrow> page" where
  "init_page init_to_valid pid pg =
     pg\<lparr>pg_state := (if init_to_valid then Valid else if pid = 0 then Private else Empty),
        pg_manager := 0\<rparr>"

definition Tmk_page_initialize :: "bool \<Rightarrow> 'a node_scheme \<Rightarrow> 'a node_scheme" where
  "Tmk_page_initialize init_to_valid n =
     (let a = (\<lambda>p. if p \<le> npages n then init_page init_to_valid (proc_id n) (page_array n p)
                   else page_array n p);
          a = a(inval_head := (a inval_head)\<lparr>pg_prev := inval_head, pg_next := inval_head\<rparr>);
          a = a(page_dirty := (a page_dirty)\<lparr>pg_prev := page_dirty, pg_next := page_dirty\<rparr>);
          pr = (if init_to_valid
                then if 1 < nprocs n then mprotect_range 0 (npages n) PROT_READ (\<lambda>_. PROT_READ_WRITE)
                     else (\<lambda>_. PROT_READ_WRITE)
                else if proc_id n \<noteq> 0 then mprotect_range 0 (npages n) PROT_NONE (\<lambda>_. PROT_READ_WRITE)
                     else (\<lambda>_. PROT_READ_WRITE))
      in n\<lparr>page_array := a, protection := pr\<rparr>)"

section \<open>The page server\<close>

text \<open>
  \<^verbatim>\<open>Tmk_page_sigio_handler\<close> answers a page request with the twin if there is one and the
  page otherwise; serving a private page makes it valid and read-only.  The reply is the
  sequence number and the page.
\<close>

definition Tmk_page_sigio_handler ::
  "u32 \<Rightarrow> page_t \<Rightarrow> 'a node_scheme \<Rightarrow> 'a node_scheme \<times> u32 \<times> u32 list" where
  "Tmk_page_sigio_handler seqno p n =
     (let pg = page_array n p;
          n1 = (if pg_twin pg = 0 \<and> pg_state pg = Invalid
                then n\<lparr>protection := (protection n)(p := PROT_READ)\<rparr> else n);
          reply = (seqno, if pg_twin pg = 0 then mem n p else twin_mem n (pg_twin pg));
          n2 = (if pg_state pg = Invalid then n1\<lparr>protection := (protection n1)(p := PROT_NONE)\<rparr>
                else if pg_state pg = Private
                then (upd_page p (pg_state_update (\<lambda>_. Valid)) n1)\<lparr>protection := (protection n1)(p := PROT_READ)\<rparr>
                else n1)
      in (n2, reply))"

text \<open>
  The requester's half, after the matching reply has arrived: the contents replace the
  page and the statistics count a cold miss.
\<close>

definition Tmk_page_reply :: "page_t \<Rightarrow> u32 \<Rightarrow> u32 list \<Rightarrow> 'a node_scheme \<Rightarrow> 'a node_scheme" where
  "Tmk_page_reply p sz contents n =
     upd_stat (\<lambda>s. s\<lparr>bytes := bytes s + sz, bytes_of_data := bytes_of_data s + of_nat (page_size n),
                     cold_misses := cold_misses s + 1\<rparr>)
       (n\<lparr>mem := (mem n)(p := contents)\<rparr>)"

section \<open>Twins\<close>

text \<open>
  \<^verbatim>\<open>Tmk_twin_free\<close> pushes the buffer: its first word becomes the old list head.
  \<^verbatim>\<open>Tmk_twin_alloc_and_copy\<close> pops one, or takes \<open>fresh\<close>, what \<^verbatim>\<open>malloc(Tmk_page_size)\<close>
  returns (0 when it fails), and copies the page into it.
\<close>

definition Tmk_twin_free :: "page_t \<Rightarrow> 'a node_scheme \<Rightarrow> 'a node_scheme" where
  "Tmk_twin_free p n =
     (let twin = pg_twin (page_array n p);
          n = upd_page p (pg_twin_update (\<lambda>_. 0)) n
      in n\<lparr>twin_mem := (twin_mem n)(twin := (twin_mem n twin)[0 := twin_free_list n]),
           twin_free_list := twin\<rparr>)"

definition Tmk_twin_alloc_and_copy :: "u32 \<Rightarrow> page_t \<Rightarrow> 'a node_scheme \<Rightarrow> 'a node_scheme tmk_result" where
  "Tmk_twin_alloc_and_copy fresh p n =
     (if twin_free_list n \<noteq> 0
      then Inr (let twin = twin_free_list n;
                    n = n\<lparr>twin_free_list := twin_mem n twin ! 0\<rparr>;
                    n = upd_page p (pg_twin_update (\<lambda>_. twin)) n
                in n\<lparr>twin_mem := (twin_mem n)(twin := mem n p)\<rparr>)
      else if fresh = 0 then Inl (Errexit ''<malloc>twin_alloc: out of memory/swap'')
      else Inr (let n = upd_stat (\<lambda>s. s\<lparr>twins := twins s + 1\<rparr>) n;
                    n = upd_page p (pg_twin_update (\<lambda>_. fresh)) n
                in n\<lparr>twin_mem := (twin_mem n)(fresh := mem n p)\<rparr>))"

section \<open>Performing the merged invalidations\<close>

definition boundaries :: "(nat \<times> nat) list \<Rightarrow> nat set" where
  "boundaries rs = fst ` set rs \<union> (\<lambda>r. snd r + 1) ` set rs"

definition clear_inval :: "nat set \<Rightarrow> pages \<Rightarrow> pages" where
  "clear_inval B a q = (if q \<in> B then (a q)\<lparr>pg_inval_toggle := False\<rparr> else a q)"

lemma clear_inval_links [simp]:
  "pg_prev (clear_inval B a q) = pg_prev (a q)" "pg_next (clear_inval B a q) = pg_next (a q)"
  "pg_partner (clear_inval B a q) = pg_partner (a q)"
  by (simp_all add: clear_inval_def)

lemma clear_inval_upd:
  "(clear_inval B a)(u := (clear_inval B a u)\<lparr>pg_inval_toggle := False\<rparr>) = clear_inval (insert u B) a"
  by (auto simp: clear_inval_def)

text \<open>The walk follows \<^verbatim>\<open>prev\<close> from the last run to the first.\<close>

definition prev_chain :: "page_t \<Rightarrow> pages \<Rightarrow> (nat \<times> nat) list \<Rightarrow> bool" where
  "prev_chain h a rs \<longleftrightarrow> (\<forall>us r vs. rs = us @ r # vs \<longrightarrow> pg_prev (a (fst r)) = last (h # map fst us))"

lemma prev_chain_dll:
  assumes "dll a h (map fst rs)"
  shows "prev_chain h a rs"
proof -
  have "pg_prev (a (fst r)) = last (h # map fst us)" if "rs = us @ r # vs" for us r vs
    using assms that by (auto simp: dll_def dest: dpath_last)
  then show ?thesis by (auto simp: prev_chain_def)
qed

lemma prev_chain_prefix: "prev_chain h a (rs @ ws) \<Longrightarrow> prev_chain h a rs"
  unfolding prev_chain_def by (metis append.assoc append_Cons)

lemma inval_walk_runs:
  assumes "rs \<noteq> []" "prev_chain inval_head a rs" "inval_head \<notin> fst ` set rs"
    and "\<And>f l. (f, l) \<in> set rs \<Longrightarrow> pg_partner (a f) = l"
  shows "inval_walk (clear_inval B a) pr (fst (last rs)) =
         Some (clear_inval (B \<union> boundaries rs) a, \<lambda>q. if q \<in> covered rs then PROT_NONE else pr q)"
  using assms
proof (induction rs arbitrary: B pr rule: rev_induct)
  case (snoc r rs)
  obtain f l where r: "r = (f, l)" by (cases r)
  let ?B = "insert f (insert (l + 1) B)"
  let ?pr = "mprotect_range f (l + 1) PROT_NONE pr"
  have partner: "pg_partner (a f) = l" using snoc.prems(4) r by simp
  have prev: "pg_prev (a f) = last (inval_head # map fst rs)"
    using snoc.prems(2) r by (auto simp: prev_chain_def)
  have upd: "inval_walk (clear_inval B a) pr f =
      (if pg_prev (a f) = inval_head then Some (clear_inval ?B a, ?pr)
       else inval_walk (clear_inval ?B a) ?pr (pg_prev (a f)))"
    by (subst inval_walk.simps) (simp add: Let_def partner clear_inval_upd)
  show ?case
  proof (cases "rs = []")
    case True
    then show ?thesis using upd prev by (auto simp: r boundaries_def mprotect_range_def insert_commute)
  next
    case False
    then have hd: "last (inval_head # map fst rs) = fst (last rs)" "fst (last rs) \<noteq> inval_head"
      using snoc.prems(3) by (auto simp: last_map) (metis image_eqI last_in_set)
    have "prev_chain inval_head a rs" using snoc.prems(2) by (rule prev_chain_prefix)
    with False snoc.prems(3,4)
    have "inval_walk (clear_inval ?B a) ?pr (fst (last rs)) =
        Some (clear_inval (?B \<union> boundaries rs) a, \<lambda>q. if q \<in> covered rs then PROT_NONE else ?pr q)"
      by (intro snoc.IH) auto
    moreover have "?B \<union> boundaries rs = B \<union> boundaries (rs @ [r])" by (auto simp: boundaries_def r)
    moreover have "covered (rs @ [r]) = covered rs \<union> {f..l}" by (auto simp: covered_def r)
    ultimately show ?thesis using upd prev hd by (auto simp: r mprotect_range_def fun_eq_iff)
  qed
qed simp

abbreviation inval_runs :: "'a node_scheme \<Rightarrow> (nat \<times> nat) list \<Rightarrow> bool" where
  "inval_runs n \<equiv> run_inv pg_inval_toggle inval_head (page_array n)"

abbreviation dirty_runs :: "'a node_scheme \<Rightarrow> (nat \<times> nat) list \<Rightarrow> bool" where
  "dirty_runs n \<equiv> run_inv pg_dirty_toggle page_dirty (page_array n)"

lemma run_inv_empty:
  "run_inv tog h a [] \<longleftrightarrow> pg_next (a h) = h \<and> pg_prev (a h) = h \<and> (\<forall>p \<le> NPAGES. \<not> tog (a p))"
  by (auto simp: run_inv_def dll_def runs_wf_def separated_def)

lemma inval_perform_runs:
  assumes inv: "inval_runs n rs"
  obtains a where "Tmk_page_inval_perform n =
      Some (n\<lparr>page_array := a, protection := (\<lambda>q. if q \<in> covered rs then PROT_NONE else protection n q)\<rparr>)"
    and "run_inv pg_inval_toggle inval_head a []"
    and "\<And>q. pg_state (a q) = pg_state (page_array n q)" "\<And>q. pg_twin (a q) = pg_twin (page_array n q)"
    and "\<And>q. pg_write_notice (a q) = pg_write_notice (page_array n q)"
    and "\<And>q. q \<noteq> inval_head \<Longrightarrow> pg_prev (a q) = pg_prev (page_array n q) \<and> pg_next (a q) = pg_next (page_array n q)"
    and "\<And>q. pg_partner (a q) = pg_partner (page_array n q) \<and> pg_dirty_toggle (a q) = pg_dirty_toggle (page_array n q)"
proof (cases "rs = []")
  case True
  with inv have "pg_prev (page_array n inval_head) = inval_head" by (simp add: run_inv_empty)
  then have "Tmk_page_inval_perform n = Some n" by (simp add: Tmk_page_inval_perform_def)
  with True inv show ?thesis by (intro that [of "page_array n"]) auto
next
  case False
  let ?a = "page_array n"
  let ?h = "?a(inval_head := (?a inval_head)\<lparr>pg_prev := inval_head, pg_next := inval_head\<rparr>)"
  note I = run_invD [OF inv]
  have out: "inval_head \<notin> fst ` set rs" using I(1) by (auto simp: dll_def)
  have prev: "pg_prev (?a inval_head) = fst (last rs)" "fst (last rs) \<noteq> inval_head"
    using dpath_last [of ?a inval_head "map fst rs" inval_head] I(1) False out
    by (auto simp: dll_def last_map) (metis image_eqI last_in_set)
  have ch: "prev_chain inval_head ?h rs"
    using prev_chain_dll [OF I(1)] out by (force simp: prev_chain_def)
  have "inval_walk (clear_inval {} ?h) (protection n) (fst (last rs)) =
        Some (clear_inval ({} \<union> boundaries rs) ?h, \<lambda>q. if q \<in> covered rs then PROT_NONE else protection n q)"
    using False ch out I(3) by (intro inval_walk_runs) (auto simp: image_iff)
  moreover have "clear_inval {} ?h = ?h" by (simp add: clear_inval_def fun_eq_iff)
  ultimately have "Tmk_page_inval_perform n = Some (n\<lparr>page_array := clear_inval (boundaries rs) ?h,
      protection := (\<lambda>q. if q \<in> covered rs then PROT_NONE else protection n q)\<rparr>)"
    using prev by (simp add: Tmk_page_inval_perform_def Let_def)
  moreover have "run_inv pg_inval_toggle inval_head (clear_inval (boundaries rs) ?h) []"
    using I(5) by (auto simp: run_inv_empty clear_inval_def boundaries_def image_iff split_beta)
  ultimately show ?thesis by (rule that) (auto simp: clear_inval_def)
qed

section \<open>The free list of twins\<close>

text \<open>\<open>twin_chain m t xs\<close>: following first words from \<open>t\<close> visits the buffers \<open>xs\<close> and ends in \<^verbatim>\<open>NULL\<close>.\<close>

fun twin_chain :: "(u32 \<Rightarrow> u32 list) \<Rightarrow> u32 \<Rightarrow> u32 list \<Rightarrow> bool" where
  "twin_chain m t [] \<longleftrightarrow> t = 0"
| "twin_chain m t (x # xs) \<longleftrightarrow> t = x \<and> x \<noteq> 0 \<and> m x \<noteq> [] \<and> twin_chain m (m x ! 0) xs"

lemma twin_chain_upd: "x \<notin> set xs \<Longrightarrow> twin_chain (m(x := ws)) t xs = twin_chain m t xs"
  by (induction xs arbitrary: t) auto

text \<open>
  The twins of a process: the free buffers \<open>free\<close> form the chain, the twins in use are
  distinct, and no buffer is both.
\<close>

definition twin_inv :: "'a node_scheme \<Rightarrow> u32 list \<Rightarrow> bool" where
  "twin_inv n free \<longleftrightarrow>
     twin_chain (twin_mem n) (twin_free_list n) free \<and> distinct free \<and>
     (\<forall>p < npages n. pg_twin (page_array n p) \<noteq> 0 \<longrightarrow>
        pg_twin (page_array n p) \<notin> set free \<and> twin_mem n (pg_twin (page_array n p)) \<noteq> [] \<and>
        (\<forall>q < npages n. pg_twin (page_array n q) = pg_twin (page_array n p) \<longrightarrow> q = p))"

lemma twin_free_inv [tmk_inv]:
  assumes "twin_inv n free" "p < npages n" "pg_twin (page_array n p) \<noteq> 0"
  shows "twin_inv (Tmk_twin_free p n) (pg_twin (page_array n p) # free)"
  using assms
  by (auto simp: twin_inv_def Tmk_twin_free_def Let_def page_array_upd_page twin_chain_upd)

lemma twin_alloc_inv [tmk_inv]:
  assumes inv: "twin_inv n free" and p: "p < npages n" "pg_twin (page_array n p) = 0" "mem n p \<noteq> []"
    and fresh: "\<And>q. q < npages n \<Longrightarrow> pg_twin (page_array n q) \<noteq> fresh"
    and ok: "Tmk_twin_alloc_and_copy fresh p n = Inr n'"
  shows "twin_inv n' (tl free)"
proof (cases free)
  case Nil
  with inv have "twin_free_list n = 0" by (simp add: twin_inv_def)
  with ok have n': "n' = (upd_page p (pg_twin_update (\<lambda>_. fresh)) (upd_stat (\<lambda>s. s\<lparr>twins := twins s + 1\<rparr>) n))
      \<lparr>twin_mem := (twin_mem n)(fresh := mem n p)\<rparr>"
    by (auto simp: Tmk_twin_alloc_and_copy_def Let_def upd_stat_def upd_page_def split: if_splits)
  show ?thesis
    using inv p fresh Nil unfolding n'
    by (auto simp: twin_inv_def page_array_upd_page upd_stat_def)
next
  case (Cons t ts)
  with inv have t: "twin_free_list n = t" "t \<noteq> 0" "twin_chain (twin_mem n) (twin_mem n t ! 0) ts"
    and d: "t \<notin> set ts" "distinct ts"
    by (auto simp: twin_inv_def)
  from ok t have n': "n' = (upd_page p (pg_twin_update (\<lambda>_. t)) n)
      \<lparr>twin_free_list := twin_mem n t ! 0, twin_mem := (twin_mem n)(t := mem n p)\<rparr>"
    by (auto simp: Tmk_twin_alloc_and_copy_def Let_def upd_page_def)
  show ?thesis
    using inv p t d Cons unfolding n'
    by (auto simp: twin_inv_def page_array_upd_page twin_chain_upd)
qed

lemma twin_alloc_copies:
  assumes "Tmk_twin_alloc_and_copy fresh p n = Inr n'"
  shows "pg_twin (page_array n' p) \<noteq> 0" "twin_mem n' (pg_twin (page_array n' p)) = mem n p" "mem n' = mem n"
  using assms
  by (auto simp: Tmk_twin_alloc_and_copy_def Let_def page_array_upd_page upd_stat_def split: if_splits)

section \<open>Properties\<close>

lemma page_initialize_runs:
  assumes "\<And>p. p \<le> NPAGES \<Longrightarrow> \<not> pg_inval_toggle (page_array n p) \<and> \<not> pg_dirty_toggle (page_array n p)"
  shows "inval_runs (Tmk_page_initialize b n) []" "dirty_runs (Tmk_page_initialize b n) []"
  using assms
  by (auto simp: run_inv_empty Tmk_page_initialize_def Let_def init_page_def inval_head_def page_dirty_def)

lemma boot_runs:
  "inval_runs (Tmk_page_initialize b (zero_node i k sz m)) []"
  "dirty_runs (Tmk_page_initialize b (zero_node i k sz m)) []"
  by (intro page_initialize_runs; simp add: zero_defs)+

lemma inval_merge_list:
  assumes "inval_runs n rs" "distinct ps" "set ps \<inter> covered rs = {}" "set ps \<subseteq> {..<NPAGES}"
  shows "\<exists>rs'. inval_runs (fold Tmk_page_inval_merge ps n) rs' \<and> covered rs' = set ps \<union> covered rs"
  using assms
proof (induction ps arbitrary: n rs)
  case (Cons p ps)
  then obtain rs1 where "inval_runs (Tmk_page_inval_merge p n) rs1" "covered rs1 = insert p (covered rs)"
    using inval.page_merge_inv [of "page_array n" rs p]
    by (auto simp: Tmk_page_inval_merge_def page_inval_merge_def)
  with Cons.IH [of "Tmk_page_inval_merge p n" rs1] Cons.prems show ?case by auto
qed auto

lemma inval_merge_frame [tmk_frame]:
  "protection (Tmk_page_inval_merge p n) = protection n" "mem (Tmk_page_inval_merge p n) = mem n"
  by (simp_all add: Tmk_page_inval_merge_def)

lemma inval_merge_list_protection: "protection (fold Tmk_page_inval_merge ps n) = protection n"
  by (induction ps arbitrary: n) (simp_all add: tmk_frame)

text \<open>
  C6: Invalidating pages by merging them, in any order, into the list of runs and then
  performing the list protects exactly those pages against every access and leaves the list
  empty, ready for the next batch; the walk over the list always ends.
\<close>

theorem inval_merge_perform:
  assumes "inval_runs n []" "distinct ps" "set ps \<subseteq> {..<NPAGES}"
  shows "\<exists>n'. Tmk_page_inval_perform (fold Tmk_page_inval_merge ps n) = Some n' \<and> inval_runs n' [] \<and>
              (\<forall>q. protection n' q = (if q \<in> set ps then PROT_NONE else protection n q))"
proof -
  from assms inval_merge_list [of n "[]" ps] obtain rs where
    "inval_runs (fold Tmk_page_inval_merge ps n) rs" "covered rs = set ps" by auto
  then show ?thesis
    by (elim inval_perform_runs) (auto simp: inval_merge_list_protection)
qed

theorem inval_merge_perform_witness:
  "\<exists>n'. Tmk_page_inval_perform (fold Tmk_page_inval_merge [5, 3, 4, 8] (Tmk_page_initialize True (zero_node 1 2 4096 16))) = Some n' \<and>
        protection n' 4 = PROT_NONE \<and> protection n' 8 = PROT_NONE \<and> protection n' 6 = PROT_READ"
proof -
  let ?n = "Tmk_page_initialize True (zero_node 1 2 4096 16)"
  have "protection ?n 6 = PROT_READ" by (simp add: Tmk_page_initialize_def Let_def mprotect_range_def zero_defs)
  then show ?thesis using inval_merge_perform [OF boot_runs(1), of "[5, 3, 4, 8]" True 1 2 4096 16] by auto
qed

text \<open>
  Allocating a twin from the LIFO free list (or from \<^verbatim>\<open>malloc\<close>) gives the page a copy of its
  contents in a buffer no other page uses as its twin, and keeps the free list well formed.
\<close>

theorem twin_alloc_fresh:
  assumes "twin_inv n free" "p < npages n" "pg_twin (page_array n p) = 0" "mem n p \<noteq> []"
    and "\<And>q. q < npages n \<Longrightarrow> pg_twin (page_array n q) \<noteq> fresh"
    and "Tmk_twin_alloc_and_copy fresh p n = Inr n'"
  shows "twin_inv n' (tl free) \<and> twin_mem n' (pg_twin (page_array n' p)) = mem n p \<and>
         (\<forall>q < npages n'. q \<noteq> p \<longrightarrow> pg_twin (page_array n' q) \<noteq> pg_twin (page_array n' p))"
proof -
  have "twin_inv n' (tl free)" using twin_alloc_inv [OF assms] .
  moreover note twin_alloc_copies [OF assms(6)]
  moreover have "npages n' = npages n"
    using assms(6) by (auto simp: Tmk_twin_alloc_and_copy_def Let_def upd_stat_def split: if_splits)
  ultimately show ?thesis using assms(2) unfolding twin_inv_def by metis
qed

theorem twin_alloc_fresh_witness:
  "\<exists>n'. Tmk_twin_alloc_and_copy 4096 3 (zero_node 1 2 4096 16) = Inr n' \<and>
        twin_inv n' [] \<and> pg_twin (page_array n' 3) = 4096 \<and> pg_twin (page_array n' 4) = 0"
proof -
  let ?n = "zero_node 1 2 4096 16"
  obtain n' where ok: "Tmk_twin_alloc_and_copy 4096 3 ?n = Inr n'"
    by (simp add: Tmk_twin_alloc_and_copy_def zero_defs)
  have "twin_inv ?n []" by (simp add: twin_inv_def zero_defs)
  then have "twin_inv n' (tl [])"
    using twin_alloc_fresh [OF _ _ _ _ _ ok, of "[]"] by (simp add: zero_defs)
  with ok show ?thesis
    by (auto simp: Tmk_twin_alloc_and_copy_def zero_defs upd_stat_def upd_page_def)
qed

end
