(* ===== verification/Tmk_Heap.thy ===== *)
theory Tmk_Heap
  imports Tmk_Node
begin

text \<open>
  The chunked heaps of \<^verbatim>\<open>Tmk/src/interval.c\<close> (intervals, write notices) and
  \<^verbatim>\<open>Tmk/src/diff.c\<close> (diffs created, diffs received).  Memory is handed out by moving
  \<^verbatim>\<open>heap_brk\<close>; a chunk is left when \<^verbatim>\<open>heap_brk\<close> reaches its overflow area, which is
  large enough for one more block.  The locale \<open>chunked_heap\<close> states what a client relies
  on (the overflow area bounds its blocks); it is interpreted for both sizes.
\<close>

section \<open>The code\<close>

definition heap_expand :: "bool \<Rightarrow> heap \<Rightarrow> heap tmk_result" where
  "heap_expand malloc_ok h =
     (if malloc_ok then Inr (h\<lparr>heap_chunks := heap_chunks h + 1\<rparr>)
      else Inl (Errexit ''<malloc>Tmk_heap_expand: out of memory''))"

definition heap_ptr_initialize :: "nat \<Rightarrow> heap \<Rightarrow> heap" where
  "heap_ptr_initialize chunk h = h\<lparr>heap_current := chunk, heap_brk := 0\<rparr>"

text \<open>
  \<^verbatim>\<open>heap_alloc\<close>: the block is at the old \<^verbatim>\<open>heap_brk\<close>.  \<open>limit\<close> is the size of
  \<^verbatim>\<open>heap_\<close>, so that \<^verbatim>\<open>heap_end\<close> is the start of \<^verbatim>\<open>heap_overflow_\<close>.  The next chunk of
  the chain is used again if there is one.
\<close>

definition heap_alloc :: "nat \<Rightarrow> bool \<Rightarrow> nat \<Rightarrow> heap \<Rightarrow> ((nat \<times> nat) \<times> heap) tmk_result" where
  "heap_alloc limit malloc_ok sz h =
     (let ptr = (heap_current h, heap_brk h);
          h = h\<lparr>heap_brk := heap_brk h + sz\<rparr>
      in if limit \<le> heap_brk h then
           (case (if heap_current h + 1 < heap_chunks h then Inr h else heap_expand malloc_ok h) of
              Inl e \<Rightarrow> Inl e
            | Inr h \<Rightarrow> Inr (ptr, heap_ptr_initialize (heap_current h + 1) h))
         else Inr (ptr, h))"

text \<open>The heap after an allocation that does not fail.\<close>

definition heap_bump :: "nat \<Rightarrow> nat \<Rightarrow> heap \<Rightarrow> heap" where
  "heap_bump limit sz h = (case heap_alloc limit True sz h of Inl _ \<Rightarrow> h | Inr (_, h) \<Rightarrow> h)"

definition heap_start :: heap where
  "heap_start = \<lparr>heap_current = 0, heap_brk = 0, heap_chunks = 1\<rparr>"

definition heap_repo :: "heap \<Rightarrow> heap" where
  "heap_repo h = heap_ptr_initialize 0 h"

definition heap_repo_test :: "heap \<Rightarrow> bool" where
  "heap_repo_test h \<longleftrightarrow> heap_current h \<noteq> 0"

text \<open>
  Sizes on the ILP32 target: \<^verbatim>\<open>H_SIZE\<close> less the overflow area and the chain pointer.
  \<^verbatim>\<open>struct interval\<close> has 84 bytes, a write notice 16 and a range 8.
\<close>

definition interval_limit :: nat where "interval_limit = 262144 - 84 - 4"
definition diff_limit :: nat where "diff_limit = 1048576 - 32768 - 4"
definition sizeof_interval :: nat where "sizeof_interval = 84"
definition sizeof_write_notice :: nat where "sizeof_write_notice = 16"
definition sizeof_range :: nat where "sizeof_range = 8"

section \<open>Blocks do not overlap and stay inside their chunk\<close>

definition heap_inv :: "nat \<Rightarrow> heap \<Rightarrow> bool" where
  "heap_inv limit h \<longleftrightarrow> heap_brk h < limit \<and> heap_current h < heap_chunks h"

text \<open>Everything handed out so far lies before this position.\<close>

definition heap_before :: "nat \<times> nat \<Rightarrow> heap \<Rightarrow> bool" where
  "heap_before pos h \<longleftrightarrow>
     fst pos < heap_current h \<or> (fst pos = heap_current h \<and> snd pos \<le> heap_brk h)"

text \<open>Successive allocations, with \<^verbatim>\<open>malloc\<close> succeeding; a block is its chunk, offset and size.\<close>

fun heap_allocs :: "nat \<Rightarrow> nat list \<Rightarrow> heap \<Rightarrow> ((nat \<times> nat \<times> nat) list \<times> heap) tmk_result" where
  "heap_allocs limit [] h = Inr ([], h)"
| "heap_allocs limit (sz # szs) h =
     (case heap_alloc limit True sz h of
        Inl e \<Rightarrow> Inl e
      | Inr ((c, off), h1) \<Rightarrow>
          (case heap_allocs limit szs h1 of Inl e \<Rightarrow> Inl e | Inr (bs, h2) \<Rightarrow> Inr ((c, off, sz) # bs, h2)))"

definition block_before :: "nat \<times> nat \<times> nat \<Rightarrow> nat \<times> nat \<times> nat \<Rightarrow> bool" where
  "block_before b b' \<longleftrightarrow> fst b < fst b' \<or> (fst b = fst b' \<and> fst (snd b) + snd (snd b) \<le> fst (snd b'))"

lemma alloc_chunks: "heap_alloc limit ok sz h = Inr (b, h') \<Longrightarrow> heap_chunks h \<le> heap_chunks h'"
  by (auto simp: heap_alloc_def heap_expand_def heap_ptr_initialize_def Let_def split: if_splits)

lemma allocs_chunks: "heap_allocs limit szs h = Inr (bs, h') \<Longrightarrow> heap_chunks h \<le> heap_chunks h'"
proof (induction szs arbitrary: h bs)
  case (Cons sz szs)
  then show ?case by (auto dest!: alloc_chunks split: sum.splits) (meson le_trans)
qed simp

locale chunked_heap =
  fixes limit overflow :: nat
  assumes limit_pos: "0 < limit"
begin

lemma alloc_bump:
  "heap_alloc limit True sz h = Inr ((heap_current h, heap_brk h), heap_bump limit sz h)"
  by (simp add: heap_alloc_def heap_bump_def heap_expand_def Let_def)

lemma bump_inv [simp]: "heap_inv limit h \<Longrightarrow> heap_inv limit (heap_bump limit sz h)"
  using limit_pos
  by (auto simp: heap_bump_def heap_alloc_def heap_inv_def heap_expand_def heap_ptr_initialize_def Let_def)

lemma bump_before: "heap_before (heap_current h, heap_brk h + sz) (heap_bump limit sz h)"
  by (auto simp: heap_bump_def heap_alloc_def heap_before_def heap_expand_def heap_ptr_initialize_def Let_def)

lemma before_bump:
  "heap_before pos h \<Longrightarrow> heap_before pos (heap_bump limit sz h)"
  by (auto simp: heap_bump_def heap_alloc_def heap_before_def heap_expand_def heap_ptr_initialize_def Let_def)

lemma block_fits:
  assumes "heap_inv limit h" "sz \<le> overflow"
    and "heap_alloc limit ok sz h = Inr ((c, off), h')"
  shows "c < heap_chunks h' \<and> off + sz < limit + overflow"
  using assms
  by (auto simp: heap_alloc_def heap_inv_def heap_expand_def heap_ptr_initialize_def Let_def
      split: if_splits)

lemma blocks_disjoint:
  assumes "heap_inv limit h" "heap_before (c, e) h"
    and "heap_alloc limit ok sz h = Inr ((c', off), h')"
  shows "c < c' \<or> (c = c' \<and> e \<le> off)"
  using assms by (auto simp: heap_alloc_def heap_before_def Let_def split: if_splits sum.splits)

text \<open>A sequence of allocations: every block is inside its chunk and later blocks lie after it.\<close>

lemma allocs_fit:
  assumes "heap_inv limit h" "\<And>sz. sz \<in> set szs \<Longrightarrow> sz \<le> overflow"
    and "heap_allocs limit szs h = Inr (blocks, h')" "b \<in> set blocks"
  shows "fst b < heap_chunks h' \<and> fst (snd b) + snd (snd b) < limit + overflow"
  using assms
proof (induction szs arbitrary: h blocks)
  case (Cons sz szs)
  from Cons.prems(3) obtain c off h1 bs where
    a: "heap_alloc limit True sz h = Inr ((c, off), h1)" and bs: "heap_allocs limit szs h1 = Inr (bs, h')"
    and blocks: "blocks = (c, off, sz) # bs"
    by (auto split: sum.splits)
  have h1: "h1 = heap_bump limit sz h" "c = heap_current h" using a alloc_bump [of sz h] by auto
  have inv1: "heap_inv limit h1" using Cons.prems(1) h1 by simp
  have mono: "heap_chunks h1 \<le> heap_chunks h'" using bs by (rule allocs_chunks)
  show ?case
    using Cons.IH [OF inv1 _ bs] Cons.prems block_fits [OF Cons.prems(1) _ a] mono blocks by fastforce
qed simp

lemma allocs_after:
  assumes "heap_inv limit h" "heap_before (c, e) h"
    and "heap_allocs limit szs h = Inr (blocks, h')" "b \<in> set blocks"
  shows "c < fst b \<or> (c = fst b \<and> e \<le> fst (snd b))"
  using assms
proof (induction szs arbitrary: h blocks)
  case (Cons sz szs)
  from Cons.prems(3) obtain c1 off h1 bs where
    a: "heap_alloc limit True sz h = Inr ((c1, off), h1)" and bs: "heap_allocs limit szs h1 = Inr (bs, h')"
    and blocks: "blocks = (c1, off, sz) # bs"
    by (auto split: sum.splits)
  have h1: "h1 = heap_bump limit sz h" using a alloc_bump [of sz h] by auto
  show ?case
    using Cons.IH [OF _ _ bs] Cons.prems blocks_disjoint [OF Cons.prems(1,2) a] blocks h1
    by (auto simp: before_bump)
qed simp

lemma allocs_disjoint:
  assumes "heap_inv limit h" "heap_allocs limit szs h = Inr (blocks, h')" "i < j" "j < length blocks"
  shows "block_before (blocks ! i) (blocks ! j)"
  using assms
proof (induction szs arbitrary: h blocks i j)
  case (Cons sz szs)
  from Cons.prems(2) obtain c1 off h1 bs where
    a: "heap_alloc limit True sz h = Inr ((c1, off), h1)" and bs: "heap_allocs limit szs h1 = Inr (bs, h')"
    and blocks: "blocks = (c1, off, sz) # bs"
    by (auto split: sum.splits)
  have h1: "h1 = heap_bump limit sz h" "c1 = heap_current h" "off = heap_brk h"
    using a alloc_bump [of sz h] by auto
  have inv1: "heap_inv limit h1" using Cons.prems(1) h1 by simp
  show ?case
  proof (cases i)
    case 0
    have "bs ! (j - 1) \<in> set bs" using Cons.prems(3,4) blocks 0 by (intro nth_mem) auto
    with allocs_after [OF inv1 _ bs, of c1 "off + sz" "bs ! (j - 1)"] bump_before [of h sz] h1 0 Cons.prems(3)
    show ?thesis by (auto simp: blocks block_before_def)
  next
    case (Suc i')
    with Cons.IH [OF inv1 bs, of i' "j - 1"] Cons.prems(3,4) blocks show ?thesis by auto
  qed
qed simp

lemma repo_inv: "heap_inv limit h \<Longrightarrow> heap_inv limit (heap_repo h) \<and> \<not> heap_repo_test (heap_repo h)"
  using limit_pos by (auto simp: heap_inv_def heap_repo_def heap_ptr_initialize_def heap_repo_test_def)

lemma start_inv: "heap_inv limit heap_start"
  using limit_pos by (simp add: heap_inv_def heap_start_def)

end

interpretation interval_heap: chunked_heap interval_limit sizeof_interval
  by unfold_locales (simp add: interval_limit_def)

interpretation diff_heap: chunked_heap diff_limit MTU
  by unfold_locales (simp add: diff_limit_def)

section \<open>Properties\<close>

text \<open>
  Diff heap: any sequence of diff blocks, none larger than a message, is laid out without
  overlap (each block ends before the next one of its chunk starts) and inside the chunks,
  overflow area included.
\<close>

theorem diff_heap_blocks:
  assumes "heap_inv diff_limit h" "\<And>sz. sz \<in> set szs \<Longrightarrow> sz \<le> MTU"
    and "heap_allocs diff_limit szs h = Inr (blocks, h')"
  shows "(\<forall>i j. i < j \<longrightarrow> j < length blocks \<longrightarrow> block_before (blocks ! i) (blocks ! j)) \<and>
         (\<forall>(c, off, sz) \<in> set blocks. c < heap_chunks h' \<and> off + sz < diff_limit + MTU)"
  using diff_heap.allocs_disjoint [OF assms(1,3)] diff_heap.allocs_fit [OF assms] by fastforce

theorem diff_heap_blocks_witness:
  "block_before (0, 1015000, 900) (1, 0, 32768)"
proof -
  have ok: "heap_allocs diff_limit [900, 32768] \<lparr>heap_current = 0, heap_brk = 1015000, heap_chunks = 1\<rparr> =
      Inr ([(0, 1015000, 900), (1, 0, 32768)], \<lparr>heap_current = 1, heap_brk = 32768, heap_chunks = 2\<rparr>)"
    by (simp add: heap_alloc_def heap_expand_def heap_ptr_initialize_def diff_limit_def)
  have "sz \<le> MTU" if "sz \<in> set [900, 32768]" for sz :: nat using that by auto
  with diff_heap_blocks [OF _ _ ok] show ?thesis by (force simp: heap_inv_def diff_limit_def)
qed

end
