(* ===== verification/Tmk_Interval.thy ===== *)
theory Tmk_Interval
  imports Tmk_Page Tmk_Heap
begin

text \<open>
  Consistency data, \<^verbatim>\<open>Tmk/src/interval.c\<close>, and the part of \<^verbatim>\<open>Tmk_diff_create\<close> that stores a
  diff in its write notice.  A process ends its current interval by turning the dirty list
  into an interval record with one write notice per page; interval records travel as 16-bit
  words; a process that receives new ones invalidates the pages they name.  A result \<open>None\<close> is
  a wild access or a walk that never ends.  \<^verbatim>\<open>malloc\<close> succeeds (its failure ends the
  process in \<^const>\<open>heap_expand\<close>).
\<close>

section \<open>Diffs of a process\<close>

text \<open>The low halves of the heap words at and after \<^verbatim>\<open>heap_1_brk\<close>, which the encoder finds there.\<close>

definition heap_1_stale :: "'a node_scheme \<Rightarrow> nat \<Rightarrow> u16" where
  "heap_1_stale n i =
     ucast (heap_1_mem n (heap_current (diff_heap_1 n)) (heap_brk (diff_heap_1 n) div 4 + i))"

text \<open>
  \<^verbatim>\<open>Tmk_diff_create(page, write_notice)\<close>: the write notice is the one at position \<open>k\<close> of the
  list \<^verbatim>\<open>page->write_notice_[pid]\<close>.
\<close>

definition set_notice_diff :: "nat \<Rightarrow> nat \<Rightarrow> u32 list \<Rightarrow> page \<Rightarrow> page" where
  "set_notice_diff pid k d pg =
     pg\<lparr>pg_write_notice := (pg_write_notice pg)(pid :=
          (pg_write_notice pg pid)[k := (pg_write_notice pg pid ! k)
             \<lparr>wn_diff := Some d, wn_diff_size := of_nat (4 * length d)\<rparr>])\<rparr>"

definition Tmk_diff_create :: "page_t \<Rightarrow> nat \<Rightarrow> nat \<Rightarrow> 'a node_scheme \<Rightarrow> 'a node_scheme option" where
  "Tmk_diff_create p pid k n =
     (case diff_encode (heap_1_stale n) (mem n p) (twin_mem n (pg_twin (page_array n p))) of
        None \<Rightarrow> None
      | Some d \<Rightarrow>
          (let h = diff_heap_1 n; c = heap_current h; b = heap_brk h div 4;
               n = upd_page p (set_notice_diff pid k d) n;
               n = n\<lparr>heap_1_mem := (heap_1_mem n)(c := (\<lambda>i. if b \<le> i \<and> i < b + length d then d ! (i - b)
                                                          else heap_1_mem n c i)),
                     diff_heap_1 := heap_bump diff_limit (4 * length d) h\<rparr>
           in Some (upd_stat (\<lambda>s. s\<lparr>diffs := diffs s + 1,
                total_diff_size := total_diff_size s + ucast (of_nat (4 * length d) :: u16)\<rparr>) n)))"

section \<open>Creating an interval\<close>

text \<open>
  The outer loop of \<^verbatim>\<open>Tmk_interval_create\<close>: it follows \<^verbatim>\<open>prev\<close> from the last run of dirty
  pages, clears the toggles and collects the page ranges.
\<close>

partial_function (option) dirty_walk :: "pages \<Rightarrow> page_t \<Rightarrow> (pages \<times> (nat \<times> nat) list) option" where
  "dirty_walk a page =
     (let partner = pg_partner (a page);
          a = a(page := (a page)\<lparr>pg_dirty_toggle := False\<rparr>);
          a = a(partner + 1 := (a (partner + 1))\<lparr>pg_dirty_toggle := False\<rparr>);
          prev = pg_prev (a page)
      in if prev = page_dirty then Some (a, [(page, partner)])
         else Option.bind (dirty_walk a prev) (\<lambda>(a, rs). Some (a, (page, partner) # rs)))"

text \<open>
  A fresh write notice.  \<^verbatim>\<open>diff_size\<close> is not initialised by the code, which reads it only
  once \<^verbatim>\<open>diff\<close> is set; it is zero here.
\<close>

definition new_notice :: "interval \<Rightarrow> write_notice" where
  "new_notice iv = \<lparr>wn_diff = None, wn_diff_size = 0, wn_interval = iv\<rparr>"

definition bump_interval_heap :: "nat \<Rightarrow> 'a node_scheme \<Rightarrow> 'a node_scheme" where
  "bump_interval_heap sz n = n\<lparr>interval_heap := heap_bump interval_limit sz (interval_heap n)\<rparr>"

definition add_notice :: "nat \<Rightarrow> interval \<Rightarrow> page_t \<Rightarrow> 'a node_scheme \<Rightarrow> 'a node_scheme" where
  "add_notice pid iv p n =
     upd_page p (\<lambda>pg. pg\<lparr>pg_write_notice := (pg_write_notice pg)(pid := new_notice iv # pg_write_notice pg pid)\<rparr>)
       (bump_interval_heap sizeof_write_notice n)"

text \<open>The inner loop, from the last page of the range down to the first.\<close>

fun notices_down :: "nat \<Rightarrow> interval \<Rightarrow> page_t \<Rightarrow> page_t \<Rightarrow> 'a node_scheme \<Rightarrow> 'a node_scheme" where
  "notices_down pid iv page partner n =
     (let n = add_notice pid iv partner n
      in if page < partner then notices_down pid iv page (partner - 1) n else n)"

declare notices_down.simps [simp del]

text \<open>The first range is part of the interval record; each further one is allocated.\<close>

fun create_notices :: "nat \<Rightarrow> interval \<Rightarrow> (nat \<times> nat) list \<Rightarrow> 'a node_scheme \<Rightarrow> 'a node_scheme" where
  "create_notices pid iv [] n = n"
| "create_notices pid iv [(f, l)] n = notices_down pid iv f l n"
| "create_notices pid iv ((f, l) # rs) n =
     create_notices pid iv rs (bump_interval_heap sizeof_range (notices_down pid iv f l n))"

definition enqueue_interval :: "nat \<Rightarrow> interval \<Rightarrow> 'a node_scheme \<Rightarrow> 'a node_scheme" where
  "enqueue_interval pid iv n =
     (bump_interval_heap sizeof_interval n)\<lparr>proc_array := (proc_array n)(pid := proc_array n pid @ [iv])\<rparr>"

text \<open>
  \<^verbatim>\<open>Tmk_interval_create(vector_time_)\<close>: the vector is read, its own entry incremented (in
  16 bits) and written back; it is returned.
\<close>

definition Tmk_interval_create ::
  "(nat \<Rightarrow> u16) \<Rightarrow> 'a node_scheme \<Rightarrow> ((nat \<Rightarrow> u16) \<times> 'a node_scheme) option" where
  "Tmk_interval_create vt n =
     (let a = page_array n; page = pg_prev (a page_dirty); me = proc_id n
      in if page = page_dirty then Some (vt, n)
         else
           (case dirty_walk (a(page_dirty := (a page_dirty)\<lparr>pg_prev := page_dirty, pg_next := page_dirty\<rparr>)) page of
              None \<Rightarrow> None
            | Some (a, rs) \<Rightarrow>
                (let vt = vt(me := vt me + 1);
                     iv = \<lparr>iv_id = me, iv_vector_time = vt,
                           iv_ranges = map (\<lambda>(f, l). (of_nat f, of_nat l)) rs\<rparr>
                 in Some (vt, create_notices me iv rs (enqueue_interval me iv (n\<lparr>page_array := a\<rparr>))))))"

text \<open>The argument of the calls: the global \<^verbatim>\<open>proc_vector_time_\<close> itself, another array, or \<^verbatim>\<open>NULL\<close>.\<close>

datatype vt_arg = Vt_null | Vt_proc | Vt_array "nat \<Rightarrow> u16"

definition interval_create_arg :: "vt_arg \<Rightarrow> 'a node_scheme \<Rightarrow> (vt_arg \<times> 'a node_scheme) option" where
  "interval_create_arg arg n =
     (case arg of
        Vt_null \<Rightarrow> None
      | Vt_proc \<Rightarrow> map_option (\<lambda>(vt, n). (Vt_proc, n\<lparr>proc_vector_time := vt\<rparr>))
                   (Tmk_interval_create (proc_vector_time n) n)
      | Vt_array vt \<Rightarrow> map_option (\<lambda>(vt, n). (Vt_array vt, n)) (Tmk_interval_create vt n))"

section \<open>Interval records on the wire\<close>

text \<open>
  \<^verbatim>\<open>~NPROCS\<close> marks a range of three or more pages; process ids are complemented, so words from
  \<^verbatim>\<open>-NPROCS\<close> on start an interval.
\<close>

definition range_mark :: u16 where "range_mark = NOT 32"
definition pid_mark :: u16 where "pid_mark = - 32"

definition encode_range :: "u16 \<times> u16 \<Rightarrow> u16 list" where
  "encode_range r =
     (let j = int (unat (snd r)) - int (unat (fst r))
      in (if j > 0 then (if j > 1 then [range_mark] else []) @ [fst r] else []) @ [snd r])"

definition encode_interval :: "nat \<Rightarrow> interval \<Rightarrow> u16 list" where
  "encode_interval i iv =
     NOT (of_nat i) # map (iv_vector_time iv) [0..<NPROCS] @ concat (map encode_range (iv_ranges iv))"

text \<open>
  The intervals of process \<open>i\<close> later than \<open>time\<close>: the code walks back from the newest one
  (the vector time of the list head stays zero) and then forward.
\<close>

definition intervals_after :: "'a node_scheme \<Rightarrow> nat \<Rightarrow> u16 \<Rightarrow> interval list" where
  "intervals_after n i time =
     rev (takeWhile (\<lambda>iv. time < iv_vector_time iv i) (rev (proc_array n i)))"

definition Tmk_interval_request_proc :: "'a node_scheme \<Rightarrow> nat \<Rightarrow> u16 \<Rightarrow> u16 list" where
  "Tmk_interval_request_proc n i time = concat (map (encode_interval i) (intervals_after n i time))"

definition Tmk_interval_request :: "'a node_scheme \<Rightarrow> (nat \<Rightarrow> u16) \<Rightarrow> u16 list" where
  "Tmk_interval_request n vt =
     concat (map (\<lambda>i. Tmk_interval_request_proc n i (vt i)) [0..<max 1 (nprocs n)])"

text \<open>
  Reading the ranges of an interval: the \<^verbatim>\<open>do\<close> loop around label \<^verbatim>\<open>skip\<close>, without its
  effects on the pages.
\<close>

definition ranges_end :: "u16 list \<Rightarrow> bool" where
  "ranges_end ms \<longleftrightarrow> (case ms of [] \<Rightarrow> True | u # _ \<Rightarrow> pid_mark \<le> u)"

fun parse_ranges :: "u16 list \<Rightarrow> ((u16 \<times> u16) list \<times> u16 list) option" where
  "parse_ranges [] = None"
| "parse_ranges (u # ms) =
     (if u = range_mark then
        (case ms of
           f # l # ms' \<Rightarrow>
             if ranges_end ms' then Some ([(f, l)], ms')
             else map_option (\<lambda>(rs, rest). ((f, l) # rs, rest)) (parse_ranges ms')
         | _ \<Rightarrow> None)
      else if ranges_end ms then Some ([(u, u)], ms)
      else map_option (\<lambda>(rs, rest). ((u, u) # rs, rest)) (parse_ranges ms))"

section \<open>Incorporating intervals\<close>

text \<open>
  The inner \<^verbatim>\<open>while (page->twin)\<close>: the diff of the last interval that wrote the page is
  created, after ending the current interval if the page is dirty in it.
\<close>

definition undiffed :: "write_notice list \<Rightarrow> bool" where
  "undiffed ws = (case ws of w # _ \<Rightarrow> wn_diff w = None | [] \<Rightarrow> False)"

definition copy_own_time :: "vt_arg \<Rightarrow> 'a node_scheme \<Rightarrow> 'a node_scheme" where
  "copy_own_time arg n =
     (case arg of
        Vt_array vt \<Rightarrow> n\<lparr>proc_vector_time := (proc_vector_time n)(proc_id n := vt (proc_id n))\<rparr>
      | _ \<Rightarrow> n)"

partial_function (option) flush_twin ::
  "page_t \<Rightarrow> vt_arg \<Rightarrow> 'a node_scheme \<Rightarrow> (vt_arg \<times> 'a node_scheme) option" where
  "flush_twin p arg n =
     (if pg_twin (page_array n p) = 0 then Some (arg, n)
      else if undiffed (pg_write_notice (page_array n p) (proc_id n))
      then Option.bind (Tmk_diff_create p (proc_id n) 0 n) (\<lambda>n. flush_twin p arg (Tmk_twin_free p n))
      else Option.bind (interval_create_arg arg n) (\<lambda>(arg, n). flush_twin p arg (copy_own_time arg n)))"

text \<open>The body of the loop over the pages of a range.\<close>

definition incorporate_page ::
  "nat \<Rightarrow> interval \<Rightarrow> page_t \<Rightarrow> vt_arg \<times> 'a node_scheme \<Rightarrow> (vt_arg \<times> 'a node_scheme) option" where
  "incorporate_page pid iv p s =
     (case s of (arg, n) \<Rightarrow>
        if NPAGES < p then None
        else
          (let n = add_notice pid iv p n
           in if pg_state (page_array n p) = Valid
              then map_option (\<lambda>(arg, n). (arg, Tmk_page_inval_merge p n))
                     (flush_twin p arg (upd_page p (pg_state_update (\<lambda>_. Invalid)) n))
              else Some (arg, n)))"

text \<open>\<^verbatim>\<open>do ... while ((page += 1) <= page_end)\<close>.\<close>

function incorporate_range ::
  "nat \<Rightarrow> interval \<Rightarrow> page_t \<Rightarrow> page_t \<Rightarrow> vt_arg \<times> 'a node_scheme \<Rightarrow> (vt_arg \<times> 'a node_scheme) option" where
  "incorporate_range pid iv page page_end s =
     Option.bind (incorporate_page pid iv page s) (\<lambda>s.
       if page + 1 \<le> page_end then incorporate_range pid iv (page + 1) page_end s else Some s)"
  by pat_completeness auto
termination
  by (relation "measure (\<lambda>(pid, iv, page, page_end, s). page_end - page)") auto

declare incorporate_range.simps [simp del]

fun incorporate_ranges ::
  "nat \<Rightarrow> interval \<Rightarrow> (u16 \<times> u16) list \<Rightarrow> vt_arg \<times> 'a node_scheme \<Rightarrow> (vt_arg \<times> 'a node_scheme) option" where
  "incorporate_ranges pid iv [] s = Some s"
| "incorporate_ranges pid iv [(f, l)] s = incorporate_range pid iv (unat f) (unat l) s"
| "incorporate_ranges pid iv ((f, l) # rs) s =
     Option.bind (incorporate_range pid iv (unat f) (unat l) s) (\<lambda>(arg, n).
       incorporate_ranges pid iv rs (arg, bump_interval_heap sizeof_range n))"

text \<open>One new interval: enqueue it, then its ranges, then the inverse time.\<close>

definition incorporate_interval ::
  "interval \<Rightarrow> vt_arg \<times> 'a node_scheme \<Rightarrow> (vt_arg \<times> 'a node_scheme) option" where
  "incorporate_interval iv s =
     (case s of (arg, n) \<Rightarrow>
        (let pid = iv_id iv;
             n = n\<lparr>proc_vector_time := (proc_vector_time n)(pid := iv_vector_time iv pid)\<rparr>
         in Option.bind (incorporate_ranges pid iv (iv_ranges iv) (arg, enqueue_interval pid iv n)) (\<lambda>(arg, n).
              let u = iv_vector_time iv (proc_id n)
              in Some (arg, if inverse_time n pid < u
                            then n\<lparr>inverse_time := (inverse_time n)(pid := u)\<rparr> else n))))"

text \<open>
  The header of an interval in a message: the process and its vector time.  \<open>None\<close> is a
  process outside the arrays or a truncated vector.
\<close>

definition parse_header :: "u16 list \<Rightarrow> (nat \<times> (nat \<Rightarrow> u16) \<times> u16 list) option" where
  "parse_header msg =
     (case msg of
        [] \<Rightarrow> None
      | w # ms \<Rightarrow>
          (let pid = NOT (sint w)
           in if 0 \<le> pid \<and> pid < int NPROCS \<and> NPROCS \<le> length ms
              then Some (nat pid, (\<lambda>k. if k < NPROCS then ms ! k else 0), drop NPROCS ms) else None))"

lemma parse_ranges_rest: "parse_ranges ms = Some (rs, rest) \<Longrightarrow> length rest < length ms"
proof (induction ms arbitrary: rs rule: parse_ranges.induct)
  case (2 u ms)
  then show ?case by (fastforce split: list.splits if_splits)
qed simp

lemma parse_header_rest: "parse_header msg = Some (pid, vt, ms) \<Longrightarrow> length ms < length msg"
  by (auto simp: parse_header_def Let_def split: list.splits if_splits)

function incorporate_loop ::
  "u16 list \<Rightarrow> vt_arg \<times> 'a node_scheme \<Rightarrow> (vt_arg \<times> 'a node_scheme) option" where
  "incorporate_loop msg s =
     (if msg = [] then Some s
      else
        (case parse_header msg of
           None \<Rightarrow> None
         | Some (pid, vt, ms) \<Rightarrow>
             if proc_vector_time (snd s) pid < vt pid
             then
               (case parse_ranges ms of
                  None \<Rightarrow> None
                | Some (rs, rest) \<Rightarrow>
                    Option.bind (incorporate_interval \<lparr>iv_id = pid, iv_vector_time = vt, iv_ranges = rs\<rparr> s)
                      (incorporate_loop rest))
             else incorporate_loop (dropWhile (\<lambda>u. u < pid_mark) ms) s))"
  by pat_completeness auto
termination
proof (relation "measure (\<lambda>(msg, s). length msg)", goal_cases)
  case (2 msg s pv pid vm vt ms)
  then show ?case
    by (auto dest!: parse_header_rest parse_ranges_rest simp: less_trans)
next
  case (3 msg s pv pid vm vt ms)
  then show ?case
    by (auto dest!: parse_header_rest intro: le_less_trans [OF length_dropWhile_le])
qed auto

declare incorporate_loop.simps [simp del]

definition Tmk_interval_incorporate ::
  "u16 list \<Rightarrow> vt_arg \<Rightarrow> 'a node_scheme \<Rightarrow> (vt_arg \<times> 'a node_scheme) option" where
  "Tmk_interval_incorporate msg arg n =
     Option.bind (incorporate_loop msg (arg, n)) (\<lambda>(arg, n).
       if arg = Vt_null then Some (arg, n)
       else map_option (Pair arg) (Tmk_page_inval_perform n))"

section \<open>Reclaiming interval storage\<close>

definition Tmk_interval_repo :: "'a node_scheme \<Rightarrow> 'a node_scheme" where
  "Tmk_interval_repo n =
     n\<lparr>proc_array := (\<lambda>i. if i < max 1 (nprocs n) then [] else proc_array n i),
       interval_heap := heap_repo (interval_heap n)\<rparr>"

definition Tmk_interval_repo_test :: "'a node_scheme \<Rightarrow> bool" where
  "Tmk_interval_repo_test n = heap_repo_test (interval_heap n)"

definition Tmk_diff_repo :: "'a node_scheme \<Rightarrow> 'a node_scheme" where
  "Tmk_diff_repo n = n\<lparr>diff_heap_1 := heap_repo (diff_heap_1 n), diff_heap_2 := heap_repo (diff_heap_2 n)\<rparr>"

definition Tmk_diff_repo_test :: "'a node_scheme \<Rightarrow> bool" where
  "Tmk_diff_repo_test n = heap_repo_test (diff_heap_1 n)"

end
