(* ===== verification/Tmk_Wire.thy ===== *)
theory Tmk_Wire
  imports Tmk_Interval
begin

text \<open>
  The 16-bit wire format of interval records (\<^verbatim>\<open>Tmk_interval_request\<close> writes it,
  \<^verbatim>\<open>Tmk_interval_incorporate\<close> reads it): decoding inverts encoding up to the splitting of a
  range of two pages into two ranges of one, and the words of page ids, range marks and
  process ids never collide.
\<close>

section \<open>Ranges\<close>

definition wf_range :: "u16 \<times> u16 \<Rightarrow> bool" where
  "wf_range r \<longleftrightarrow> fst r \<le> snd r \<and> snd r < range_mark"

definition norm_range :: "u16 \<times> u16 \<Rightarrow> (u16 \<times> u16) list" where
  "norm_range r = (if unat (snd r) = unat (fst r) + 1 then [(fst r, fst r), (snd r, snd r)] else [r])"

lemma marks: "unat range_mark = 65503" "unat pid_mark = 65504"
  by (simp_all add: range_mark_def pid_mark_def)

lemma wf_range_unat:
  "wf_range r \<longleftrightarrow> unat (fst r) \<le> unat (snd r) \<and> unat (snd r) < 65503"
  by (simp add: wf_range_def word_le_nat_alt word_less_nat_alt marks)

lemma encode_range_unat:
  "encode_range r =
     (if unat (fst r) < unat (snd r) then (if unat (fst r) + 1 < unat (snd r) then [range_mark] else []) @ [fst r]
      else []) @ [snd r]"
proof -
  have "(0 < int (unat (snd r)) - int (unat (fst r))) = (unat (fst r) < unat (snd r))"
    "(1 < int (unat (snd r)) - int (unat (fst r))) = (unat (fst r) + 1 < unat (snd r))" by linarith+
  then show ?thesis by (simp add: encode_range_def Let_def)
qed

lemma encode_range_cases:
  assumes "wf_range (f, l)"
  obtains "f = l" "encode_range (f, l) = [f]" "norm_range (f, l) = [(f, f)]"
  | "f \<noteq> l" "encode_range (f, l) = [f, l]" "norm_range (f, l) = [(f, f), (l, l)]"
  | "encode_range (f, l) = [range_mark, f, l]" "norm_range (f, l) = [(f, l)]"
proof -
  from assms have le: "unat f \<le> unat l" by (simp add: wf_range_unat)
  consider "unat l = unat f" | "unat l = unat f + 1" | "unat f + 1 < unat l" using le by linarith
  then show ?thesis
  proof cases
    case 1
    then have "f = l" by (simp add: word_unat_eq_iff)
    with that(1) show ?thesis by (simp add: encode_range_unat norm_range_def)
  next
    case 2
    then have "f \<noteq> l" by auto
    with 2 that(2) show ?thesis by (simp add: encode_range_unat norm_range_def)
  next
    case 3
    with that(3) show ?thesis by (simp add: encode_range_unat norm_range_def)
  qed
qed

lemma ranges_end_range: "wf_range r \<Longrightarrow> \<not> ranges_end (encode_range r @ rest)"
  by (cases r) (auto simp: encode_range_unat ranges_end_def word_le_nat_alt marks wf_range_unat)

lemma page_not_mark: "unat u < 65503 \<Longrightarrow> u \<noteq> range_mark"
  using marks(1) by auto

lemma ranges_end_small: "unat u < 65504 \<Longrightarrow> \<not> ranges_end (u # ms)"
  by (simp add: ranges_end_def word_le_nat_alt marks)

lemma parse_encode_range:
  assumes "wf_range r"
  shows "parse_ranges (encode_range r @ ms) =
     (if ranges_end ms then Some (norm_range r, ms)
      else map_option (\<lambda>(rs, rest). (norm_range r @ rs, rest)) (parse_ranges ms))"
proof -
  obtain f l where r: "r = (f, l)" by (cases r)
  with assms have b: "unat f < 65503" "unat l < 65503" and wf: "wf_range (f, l)"
    by (auto simp: wf_range_unat)
  note nm = b [THEN page_not_mark]
  show ?thesis
    unfolding r
    using wf
    by (rule encode_range_cases)
       (use b nm in \<open>auto simp: ranges_end_small option.map_comp comp_def split_beta case_prod_unfold\<close>)
qed

lemma parse_encode_ranges:
  assumes "rs \<noteq> []" "\<And>r. r \<in> set rs \<Longrightarrow> wf_range r" "ranges_end rest"
  shows "parse_ranges (concat (map encode_range rs) @ rest) = Some (concat (map norm_range rs), rest)"
  using assms
proof (induction rs)
  case (Cons r rs)
  show ?case
  proof (cases "rs = []")
    case True
    with Cons show ?thesis by (simp add: parse_encode_range)
  next
    case False
    then have "\<not> ranges_end (concat (map encode_range rs) @ rest)"
      using Cons.prems(2) by (cases rs) (auto simp: ranges_end_range)
    with False Cons show ?thesis by (simp add: parse_encode_range)
  qed
qed simp

lemma encode_range_words:
  assumes "wf_range r" "w \<in> set (encode_range r)"
  shows "w < pid_mark"
proof -
  from assms(1) have "unat (fst r) < 65504" "unat (snd r) < 65504" by (auto simp: wf_range_unat)
  with assms(2) show ?thesis
    by (auto simp: encode_range_def Let_def word_less_nat_alt marks split: if_splits)
qed

lemma skip_ranges:
  assumes "\<And>r. r \<in> set rs \<Longrightarrow> wf_range r" "ranges_end rest"
  shows "dropWhile (\<lambda>u. u < pid_mark) (concat (map encode_range rs) @ rest) = rest"
proof -
  have "dropWhile (\<lambda>u. u < pid_mark) rest = rest"
    using assms(2) by (cases rest) (auto simp: ranges_end_def)
  moreover have "w < pid_mark" if "w \<in> set (concat (map encode_range rs))" for w
  proof -
    from that obtain r where "r \<in> set rs" "w \<in> set (encode_range r)" by auto
    then show ?thesis using encode_range_words assms(1) by blast
  qed
  ultimately show ?thesis by (subst dropWhile_append2) (blast, assumption)
qed

section \<open>Interval records\<close>

definition wf_interval :: "nat \<Rightarrow> interval \<Rightarrow> bool" where
  "wf_interval i iv \<longleftrightarrow>
     i < NPROCS \<and> iv_id iv = i \<and> iv_ranges iv \<noteq> [] \<and> (\<forall>r \<in> set (iv_ranges iv). wf_range r)"

definition norm_interval :: "interval \<Rightarrow> interval" where
  "norm_interval iv =
     \<lparr>iv_id = iv_id iv, iv_vector_time = (\<lambda>k. if k < NPROCS then iv_vector_time iv k else 0),
      iv_ranges = concat (map norm_range (iv_ranges iv))\<rparr>"

lemma pid_words:
  "\<forall>i \<in> set [0..<NPROCS]. NOT (sint (NOT (of_nat i) :: u16)) = int i \<and> pid_mark \<le> NOT (of_nat i :: u16)"
  by code_simp

lemma pid_word: "i < NPROCS \<Longrightarrow> NOT (sint (NOT (of_nat i) :: u16)) = int i"
  and pid_word_mark: "i < NPROCS \<Longrightarrow> pid_mark \<le> NOT (of_nat i :: u16)"
  using pid_words by auto

lemma parse_encode_header:
  assumes "i < NPROCS"
  shows "parse_header (encode_interval i iv @ rest) =
     Some (i, iv_vector_time (norm_interval iv), concat (map encode_range (iv_ranges iv)) @ rest)"
proof -
  have "(\<lambda>k. if k < NPROCS then (map (iv_vector_time iv) [0..<NPROCS] @ xs) ! k else 0) =
        iv_vector_time (norm_interval iv)" for xs
    by (auto simp: norm_interval_def nth_append simp del: upt_rec_numeral)
  with assms pid_word [OF assms] show ?thesis
    by (simp add: parse_header_def encode_interval_def del: upt_rec_numeral)
qed

lemma ranges_end_encode: "i < NPROCS \<Longrightarrow> ranges_end (encode_interval i iv @ rest)"
  by (simp add: encode_interval_def ranges_end_def pid_word_mark)

text \<open>What one record does to a process: it is incorporated if new and skipped otherwise.\<close>

definition receive_interval :: "interval \<Rightarrow> vt_arg \<times> 'a node_scheme \<Rightarrow> (vt_arg \<times> 'a node_scheme) option" where
  "receive_interval iv s =
     (if proc_vector_time (snd s) (iv_id iv) < iv_vector_time iv (iv_id iv)
      then incorporate_interval (norm_interval iv) s else Some s)"

fun receive_intervals :: "interval list \<Rightarrow> vt_arg \<times> 'a node_scheme \<Rightarrow> (vt_arg \<times> 'a node_scheme) option" where
  "receive_intervals [] s = Some s"
| "receive_intervals (iv # ivs) s = Option.bind (receive_interval iv s) (receive_intervals ivs)"

lemma incorporate_loop_encode:
  assumes wf: "wf_interval i iv" and rest: "ranges_end rest"
  shows "incorporate_loop (encode_interval i iv @ rest) s =
         Option.bind (receive_interval iv s) (incorporate_loop rest)"
proof -
  from wf have i: "i < NPROCS" "iv_id iv = i" and ne: "iv_ranges iv \<noteq> []"
    and wr: "\<And>r. r \<in> set (iv_ranges iv) \<Longrightarrow> wf_range r" by (auto simp: wf_interval_def)
  have vt: "iv_vector_time (norm_interval iv) i = iv_vector_time iv i"
    using i by (simp add: norm_interval_def)
  have iv: "\<lparr>iv_id = i, iv_vector_time = iv_vector_time (norm_interval iv),
             iv_ranges = concat (map norm_range (iv_ranges iv))\<rparr> = norm_interval iv"
    using i by (simp add: norm_interval_def)
  have "encode_interval i iv \<noteq> []" by (simp add: encode_interval_def)
  then show ?thesis
    by (subst incorporate_loop.simps)
       (simp add: parse_encode_header [OF i(1)] vt i(2) receive_interval_def
          parse_encode_ranges [OF ne wr rest] skip_ranges [OF wr rest] iv)
qed

lemma incorporate_loop_message:
  assumes "\<And>iv. iv \<in> set ivs \<Longrightarrow> wf_interval (iv_id iv) iv"
  shows "incorporate_loop (concat (map (\<lambda>iv. encode_interval (iv_id iv) iv) ivs)) s = receive_intervals ivs s"
  using assms
proof (induction ivs arbitrary: s)
  case Nil
  then show ?case by (simp add: incorporate_loop.simps)
next
  case (Cons iv ivs)
  have "ranges_end (concat (map (\<lambda>iv. encode_interval (iv_id iv) iv) ivs))"
    using Cons.prems by (cases ivs) (auto simp: ranges_end_encode wf_interval_def, simp add: ranges_end_def)
  with Cons show ?case
    by (simp add: incorporate_loop_encode cong: bind_option_cong)
qed

section \<open>What a request collects\<close>

definition requested :: "'a node_scheme \<Rightarrow> (nat \<Rightarrow> u16) \<Rightarrow> interval list" where
  "requested n vt = concat (map (\<lambda>i. intervals_after n i (vt i)) [0..<max 1 (nprocs n)])"

definition wf_intervals :: "'a node_scheme \<Rightarrow> bool" where
  "wf_intervals n \<longleftrightarrow> (\<forall>i < max 1 (nprocs n). \<forall>iv \<in> set (proc_array n i). wf_interval i iv)"

lemma intervals_after_subset: "set (intervals_after n i time) \<subseteq> set (proc_array n i)"
  using set_takeWhileD by (fastforce simp: intervals_after_def)

lemma concat_map_concat:
  assumes "\<And>i. i \<in> set is \<Longrightarrow> map (e i) (f i) = map g (f i)"
  shows "concat (map (\<lambda>i. concat (map (e i) (f i))) is) = concat (map g (concat (map f is)))"
  using assms by (induction "is") (auto simp del: map_eq_conv)

lemma request_message:
  assumes "wf_intervals n"
  shows "Tmk_interval_request n vt = concat (map (\<lambda>iv. encode_interval (iv_id iv) iv) (requested n vt))"
  unfolding Tmk_interval_request_def Tmk_interval_request_proc_def requested_def
proof (rule concat_map_concat)
  fix i assume "i \<in> set [0..<max 1 (nprocs n)]"
  then have "iv_id iv = i" if "iv \<in> set (intervals_after n i (vt i))" for iv
    using that assms intervals_after_subset [of n i "vt i"]
    by (auto simp: wf_intervals_def wf_interval_def)
  then show "map (encode_interval i) (intervals_after n i (vt i)) =
             map (\<lambda>iv. encode_interval (iv_id iv) iv) (intervals_after n i (vt i))" by simp
qed

lemma request_incorporate_lemma:
  assumes "wf_intervals m"
  shows "incorporate_loop (Tmk_interval_request m vt) s = receive_intervals (requested m vt) s"
proof -
  have "wf_interval (iv_id iv) iv" if "iv \<in> set (requested m vt)" for iv
    using that assms intervals_after_subset [of m]
    by (fastforce simp: requested_def wf_intervals_def wf_interval_def)
  then show ?thesis by (simp add: request_message [OF assms] incorporate_loop_message)
qed



end
