(* ===== verification/Tmk_Coherence.thy ===== *)
theory Tmk_Coherence
  imports Tmk_Wire
begin

text \<open>
  The coherence invariant of one process and its preservation by the operations of
  \<^verbatim>\<open>interval.c\<close>: ending an interval, creating a diff, incorporating the intervals of other
  processes.  It ties together the two page lists, the twins, the write notices, the page
  states and the page protections, and it is what makes the loops of \<^verbatim>\<open>interval.c\<close> end.
\<close>

section \<open>The invariant\<close>

text \<open>
  Twin and write notices of a page: a page has a twin if it is dirty in the current interval
  or if the diff of the last interval that wrote it is still to be made, never both; older
  notices of the process have their diffs.
\<close>

definition notice_ok :: "bool \<Rightarrow> u32 \<Rightarrow> write_notice list \<Rightarrow> bool" where
  "notice_ok is_dirty twin ws \<longleftrightarrow>
     (is_dirty \<longleftrightarrow> twin \<noteq> 0 \<and> \<not> undiffed ws) \<and> (undiffed ws \<longrightarrow> twin \<noteq> 0) \<and>
     (\<forall>w \<in> set (tl ws). wn_diff w \<noteq> None)"

definition page_core :: "'a node_scheme \<Rightarrow> bool \<Rightarrow> page_t \<Rightarrow> bool" where
  "page_core n is_dirty p \<longleftrightarrow>
     (let pg = page_array n p; words = page_size n div 4
      in length (mem n p) = words \<and> (pg_twin pg \<noteq> 0 \<longrightarrow> length (twin_mem n (pg_twin pg)) = words) \<and>
         notice_ok is_dirty (pg_twin pg) (pg_write_notice pg (proc_id n)))"

definition core_inv :: "'a node_scheme \<Rightarrow> (nat \<times> nat) list \<Rightarrow> (nat \<times> nat) list \<Rightarrow> u32 list \<Rightarrow> bool" where
  "core_inv n ds is free \<longleftrightarrow>
     dirty_runs n ds \<and> inval_runs n is \<and> covered ds \<inter> covered is = {} \<and>
     covered ds \<subseteq> {..<npages n} \<and> covered is \<subseteq> {..<npages n} \<and> twin_inv n free \<and>
     npages n \<le> NPAGES \<and> page_words_ok (page_size n div 4) \<and>
     (\<forall>p < npages n. page_core n (p \<in> covered ds) p)"

text \<open>
  Page state and protection.  A page that is waiting in the invalidation list (\<open>pending\<close>) may
  still be accessible; every other page has exactly the access its state allows.
\<close>

definition prot_ok :: "page_state \<Rightarrow> u32 \<Rightarrow> prot \<Rightarrow> bool \<Rightarrow> bool" where
  "prot_ok st twin pr pending \<longleftrightarrow>
     (case st of
        Valid \<Rightarrow> \<not> pending \<and> pr = (if twin = 0 then PROT_READ else PROT_READ_WRITE)
      | Invalid \<Rightarrow> twin = 0 \<and> (pending \<or> pr = PROT_NONE)
      | Private \<Rightarrow> \<not> pending \<and> twin = 0 \<and> pr = PROT_READ_WRITE
      | Empty \<Rightarrow> \<not> pending \<and> twin = 0 \<and> pr = PROT_NONE)"

definition node_inv :: "'a node_scheme \<Rightarrow> (nat \<times> nat) list \<Rightarrow> (nat \<times> nat) list \<Rightarrow> u32 list \<Rightarrow> bool" where
  "node_inv n ds is free \<longleftrightarrow> core_inv n ds is free \<and>
     (\<forall>p < npages n. prot_ok (pg_state (page_array n p)) (pg_twin (page_array n p)) (protection n p) (p \<in> covered is))"

lemmas core_defs = core_inv_def page_core_def Let_def

section \<open>Ending an interval\<close>

definition clear_dirty :: "nat set \<Rightarrow> pages \<Rightarrow> pages" where
  "clear_dirty B a q = (if q \<in> B then (a q)\<lparr>pg_dirty_toggle := False\<rparr> else a q)"

lemma clear_dirty_frame [simp]:
  "pg_prev (clear_dirty B a q) = pg_prev (a q)" "pg_next (clear_dirty B a q) = pg_next (a q)"
  "pg_partner (clear_dirty B a q) = pg_partner (a q)" "pg_twin (clear_dirty B a q) = pg_twin (a q)"
  "pg_state (clear_dirty B a q) = pg_state (a q)" "pg_inval_toggle (clear_dirty B a q) = pg_inval_toggle (a q)"
  "pg_write_notice (clear_dirty B a q) = pg_write_notice (a q)" "pg_manager (clear_dirty B a q) = pg_manager (a q)"
  by (simp_all add: clear_dirty_def)

lemma clear_dirty_upd:
  "(clear_dirty B a)(u := (clear_dirty B a u)\<lparr>pg_dirty_toggle := False\<rparr>) = clear_dirty (insert u B) a"
  by (auto simp: clear_dirty_def)

lemma dirty_walk_runs:
  assumes "rs \<noteq> []" "prev_chain page_dirty a rs" "page_dirty \<notin> fst ` set rs"
    and "\<And>f l. (f, l) \<in> set rs \<Longrightarrow> pg_partner (a f) = l"
  shows "dirty_walk (clear_dirty B a) (fst (last rs)) = Some (clear_dirty (B \<union> boundaries rs) a, rev rs)"
  using assms
proof (induction rs arbitrary: B rule: rev_induct)
  case (snoc r rs)
  obtain f l where r: "r = (f, l)" by (cases r)
  let ?B = "insert (l + 1) (insert f B)"
  have partner: "pg_partner (a f) = l" using snoc.prems(4) r by simp
  have prev: "pg_prev (a f) = last (page_dirty # map fst rs)"
    using snoc.prems(2) r by (auto simp: prev_chain_def)
  have upd: "dirty_walk (clear_dirty B a) f =
      (if pg_prev (a f) = page_dirty then Some (clear_dirty ?B a, [(f, l)])
       else Option.bind (dirty_walk (clear_dirty ?B a) (pg_prev (a f))) (\<lambda>(a, rs). Some (a, (f, l) # rs)))"
    by (subst dirty_walk.simps) (simp add: Let_def partner clear_dirty_upd)
  show ?case
  proof (cases "rs = []")
    case True
    then show ?thesis using upd prev by (auto simp: r boundaries_def insert_commute)
  next
    case False
    then have hd: "last (page_dirty # map fst rs) = fst (last rs)" "fst (last rs) \<noteq> page_dirty"
      using snoc.prems(3) by (auto simp: last_map) (metis image_eqI last_in_set)
    have "prev_chain page_dirty a rs" using snoc.prems(2) by (rule prev_chain_prefix)
    with False snoc.prems(3,4)
    have "dirty_walk (clear_dirty ?B a) (fst (last rs)) = Some (clear_dirty (?B \<union> boundaries rs) a, rev rs)"
      by (intro snoc.IH) auto
    moreover have "?B \<union> boundaries rs = B \<union> boundaries (rs @ [r])" by (auto simp: boundaries_def r)
    ultimately show ?thesis using upd prev hd by (simp add: r)
  qed
qed simp

text \<open>The write notices of an interval, page by page.\<close>

definition push_notice :: "nat \<Rightarrow> interval \<Rightarrow> page \<Rightarrow> page" where
  "push_notice pid iv pg =
     pg\<lparr>pg_write_notice := (pg_write_notice pg)(pid := new_notice iv # pg_write_notice pg pid)\<rparr>"

lemma push_notice_frame [simp]:
  "pg_prev (push_notice pid iv pg) = pg_prev pg" "pg_next (push_notice pid iv pg) = pg_next pg"
  "pg_partner (push_notice pid iv pg) = pg_partner pg" "pg_twin (push_notice pid iv pg) = pg_twin pg"
  "pg_state (push_notice pid iv pg) = pg_state pg" "pg_manager (push_notice pid iv pg) = pg_manager pg"
  "pg_inval_toggle (push_notice pid iv pg) = pg_inval_toggle pg"
  "pg_dirty_toggle (push_notice pid iv pg) = pg_dirty_toggle pg"
  "pg_write_notice (push_notice pid iv pg) i =
     (if i = pid then new_notice iv # pg_write_notice pg pid else pg_write_notice pg i)"
  by (simp_all add: push_notice_def)

definition push_notices :: "nat \<Rightarrow> interval \<Rightarrow> nat set \<Rightarrow> pages \<Rightarrow> pages" where
  "push_notices pid iv Q a q = (if q \<in> Q then push_notice pid iv (a q) else a q)"

lemma add_notice_eq:
  "add_notice pid iv p n = n\<lparr>page_array := push_notices pid iv {p} (page_array n),
     interval_heap := heap_bump interval_limit sizeof_write_notice (interval_heap n)\<rparr>"
  by (auto simp: add_notice_def bump_interval_heap_def upd_page_def push_notices_def push_notice_def fun_eq_iff)

lemma push_notices_Un:
  "P \<inter> Q = {} \<Longrightarrow> push_notices pid iv P (push_notices pid iv Q a) = push_notices pid iv (P \<union> Q) a"
  by (auto simp: push_notices_def fun_eq_iff)

lemma notices_down_eq:
  assumes "f \<le> l"
  shows "\<exists>h. notices_down pid iv f l n =
              n\<lparr>page_array := push_notices pid iv {f..l} (page_array n), interval_heap := h\<rparr>"
  using assms
proof (induction "l - f" arbitrary: l n)
  case 0
  then have "f = l" by simp
  then show ?case
    by (subst notices_down.simps) (simp add: add_notice_eq Let_def, rule exI, rule refl)
next
  case (Suc k)
  then have l: "f < l" "k = (l - 1) - f" "f \<le> l - 1" by auto
  obtain h where h: "notices_down pid iv f (l - 1) (add_notice pid iv l n) =
      (add_notice pid iv l n)\<lparr>page_array := push_notices pid iv {f..l - 1} (page_array (add_notice pid iv l n)),
        interval_heap := h\<rparr>"
    using Suc.hyps(1) [OF l(2,3)] by blast
  have sets: "{f..l - 1} \<union> {l} = {f..l}" "{f..l - 1} \<inter> {l} = {}" using l(1) by auto
  have "notices_down pid iv f l n = notices_down pid iv f (l - 1) (add_notice pid iv l n)"
    using l(1) by (subst notices_down.simps) (simp add: Let_def)
  also have "\<dots> = n\<lparr>page_array := push_notices pid iv {f..l} (page_array n), interval_heap := h\<rparr>"
    unfolding h using push_notices_Un [OF sets(2), unfolded sets(1), of pid iv "page_array n"]
    by (simp add: add_notice_eq)
  finally show ?case by (rule exI)
qed

lemma create_notices_eq:
  assumes "\<And>f l. (f, l) \<in> set rs \<Longrightarrow> f \<le> l"
    and "\<And>us r vs. rs = us @ r # vs \<Longrightarrow> {fst r..snd r} \<inter> covered vs = {}"
  shows "\<exists>h. create_notices pid iv rs n =
              n\<lparr>page_array := push_notices pid iv (covered rs) (page_array n), interval_heap := h\<rparr>"
  using assms
proof (induction pid iv rs n rule: create_notices.induct)
  case (1 pid iv n)
  have "push_notices pid iv {} (page_array n) = page_array n" by (simp add: push_notices_def fun_eq_iff)
  then show ?case by (intro exI [of _ "interval_heap n"]) simp
next
  case (2 pid iv f l n)
  then show ?case using notices_down_eq [of f l pid iv n] by auto
next
  case (3 pid iv f l r rs n)
  let ?n = "bump_interval_heap sizeof_range (notices_down pid iv f l n)"
  obtain h where n: "?n = n\<lparr>page_array := push_notices pid iv {f..l} (page_array n), interval_heap := h\<rparr>"
    using notices_down_eq [of f l pid iv n] "3.prems"(1) by (auto simp: bump_interval_heap_def)
  have "\<exists>h. create_notices pid iv (r # rs) ?n =
            ?n\<lparr>page_array := push_notices pid iv (covered (r # rs)) (page_array ?n), interval_heap := h\<rparr>"
  proof (rule "3.IH")
    show "f' \<le> l'" if "(f', l') \<in> set (r # rs)" for f' l' using that "3.prems"(1) by auto
    show "{fst r'..snd r'} \<inter> covered vs = {}" if "r # rs = us @ r' # vs" for us r' vs
      using "3.prems"(2) [of "(f, l) # us" r' vs] that by simp
  qed
  moreover have "{f..l} \<inter> covered (r # rs) = {}"
    using "3.prems"(2) [of "[]" "(f, l)" "r # rs"] by simp
  then have "covered (r # rs) \<inter> {f..l} = {}" by blast
  note push_notices_Un [OF this, of pid iv "page_array n"]
  ultimately show ?case
    by (simp add: n Un_commute del: covered_simps) (metis covered_simps(2) fst_conv snd_conv)
qed

lemma separated_split:
  assumes "runs_wf N (set rs)" "distinct (map fst rs)" "rs = us @ r # vs"
  shows "{fst r..snd r} \<inter> covered vs = {}"
proof -
  have "snd r + 1 < fst r' \<or> snd r' + 1 < fst r" if "r' \<in> set vs" for r'
    using assms that runs_wfD(3) [OF assms(1), of "fst r" "snd r" "fst r'" "snd r'"] by force
  then show ?thesis unfolding covered_def by force
qed

lemma covered_rev [simp]: "covered (rev rs) = covered rs"
  by (simp add: covered_def)

definition reset_head :: "page_t \<Rightarrow> pages \<Rightarrow> pages" where
  "reset_head h a = a(h := (a h)\<lparr>pg_prev := h, pg_next := h\<rparr>)"

text \<open>What ending an interval does, on a process with dirty pages.\<close>

lemma interval_create_eq:
  fixes n :: "'a node_scheme" and vt :: "nat \<Rightarrow> u16"
  assumes inv: "dirty_runs n ds" and ne: "ds \<noteq> []"
  defines "me \<equiv> proc_id n" and "vt' \<equiv> vt(proc_id n := vt (proc_id n) + 1)"
  obtains iv h where
    "iv = \<lparr>iv_id = me, iv_vector_time = vt', iv_ranges = map (\<lambda>(f, l). (of_nat f, of_nat l)) (rev ds)\<rparr>"
    "Tmk_interval_create vt n = Some (vt',
       n\<lparr>page_array := push_notices me iv (covered ds)
             (clear_dirty (boundaries ds) (reset_head page_dirty (page_array n))),
         interval_heap := h, proc_array := (proc_array n)(me := proc_array n me @ [iv])\<rparr>)"
proof -
  let ?a = "page_array n" and ?h = "reset_head page_dirty (page_array n)"
  define iv where "iv = \<lparr>iv_id = me, iv_vector_time = vt',
      iv_ranges = map (\<lambda>(f, l). (of_nat f :: u16, of_nat l :: u16)) (rev ds)\<rparr>"
  note I = run_invD [OF inv]
  have out: "page_dirty \<notin> fst ` set ds" using I(1) by (auto simp: dll_def)
  have prev: "pg_prev (?a page_dirty) = fst (last ds)" "fst (last ds) \<noteq> page_dirty"
    using dpath_last [of ?a page_dirty "map fst ds" page_dirty] I(1) ne out
    by (auto simp: dll_def last_map) (metis image_eqI last_in_set)
  have ch: "prev_chain page_dirty ?h ds"
    using prev_chain_dll [OF I(1)] out by (force simp: prev_chain_def reset_head_def)
  have "dirty_walk (clear_dirty {} ?h) (fst (last ds)) = Some (clear_dirty ({} \<union> boundaries ds) ?h, rev ds)"
    using ne ch out I(3) by (intro dirty_walk_runs) (auto simp: image_iff reset_head_def)
  moreover have "clear_dirty {} ?h = ?h" by (simp add: clear_dirty_def fun_eq_iff)
  ultimately have walk: "dirty_walk (?a(page_dirty := (?a page_dirty)\<lparr>pg_prev := page_dirty, pg_next := page_dirty\<rparr>))
      (fst (last ds)) = Some (clear_dirty (boundaries ds) ?h, rev ds)"
    by (simp add: reset_head_def)
  have "\<exists>h. create_notices me iv (rev ds) m =
      m\<lparr>page_array := push_notices me iv (covered (rev ds)) (page_array m), interval_heap := h\<rparr>" for m :: "'a node_scheme"
  proof (rule create_notices_eq)
    show "f \<le> l" if "(f, l) \<in> set (rev ds)" for f l using that runs_wfD(1) [OF I(2)] by simp
    show "{fst r..snd r} \<inter> covered vs = {}" if "rev ds = us @ r # vs" for us r vs
      using separated_split [of NPAGES "rev ds", OF _ _ that] I(1,2) by (simp add: dll_def flip: rev_map)
  qed
  note notices = this
  define m where "m = enqueue_interval me iv (n\<lparr>page_array := clear_dirty (boundaries ds) ?h\<rparr>)"
  have pm: "page_array m = clear_dirty (boundaries ds) ?h"
    by (simp add: m_def enqueue_interval_def bump_interval_heap_def)
  obtain h where h: "create_notices me iv (rev ds) m =
      m\<lparr>page_array := push_notices me iv (covered ds) (clear_dirty (boundaries ds) ?h), interval_heap := h\<rparr>"
    using notices [of m] unfolding covered_rev pm by blast
  show ?thesis
  proof (rule that [OF iv_def])
    show "Tmk_interval_create vt n = Some (vt',
       n\<lparr>page_array := push_notices me iv (covered ds) (clear_dirty (boundaries ds) ?h),
         interval_heap := h, proc_array := (proc_array n)(me := proc_array n me @ [iv])\<rparr>)"
      using walk prev h unfolding m_def
      by (simp add: Tmk_interval_create_def Let_def me_def vt'_def iv_def enqueue_interval_def bump_interval_heap_def)
  qed
qed

text \<open>What the operations of this theory leave alone.\<close>

definition keeps :: "'a node_scheme \<Rightarrow> 'a node_scheme \<Rightarrow> bool" where
  "keeps n n' \<longleftrightarrow>
     proc_id n' = proc_id n \<and> nprocs n' = nprocs n \<and> npages n' = npages n \<and> page_size n' = page_size n \<and>
     mem n' = mem n \<and> protection n' = protection n \<and>
     (\<forall>i. i \<noteq> proc_id n \<longrightarrow> proc_array n' i = proc_array n i \<and> proc_vector_time n' i = proc_vector_time n i) \<and>
     (\<forall>q. pg_state (page_array n' q) = pg_state (page_array n q) \<and>
          pg_manager (page_array n' q) = pg_manager (page_array n q))"

lemma keeps_refl [simp]: "keeps n n" by (simp add: keeps_def)

lemma keeps_trans: "keeps n m \<Longrightarrow> keeps m k \<Longrightarrow> keeps n k" by (simp add: keeps_def)

lemma core_inv_time [simp]: "core_inv (n\<lparr>proc_vector_time := v\<rparr>) ds is free = core_inv n ds is free"
  by (simp add: core_defs twin_inv_def)

lemma core_inv_inverse [simp]: "core_inv (n\<lparr>inverse_time := v\<rparr>) ds is free = core_inv n ds is free"
  by (simp add: core_defs twin_inv_def)

lemma notice_ok_push: "notice_ok True t ws \<Longrightarrow> notice_ok False t (new_notice iv # ws)"
  by (cases ws) (auto simp: notice_ok_def undiffed_def new_notice_def)

lemma head_not_covered:
  assumes "run_inv tog h a rs" "NPAGES \<le> u"
  shows "u \<notin> covered rs"
  using run_invD(2) [OF assms(1)] assms(2) by (force simp: covered_def runs_wf_def)

lemma interval_create_inv:
  assumes inv: "core_inv n ds is free"
  shows "\<exists>vt' n'. Tmk_interval_create vt n = Some (vt', n') \<and> core_inv n' [] is free \<and> keeps n n' \<and>
     (\<forall>q. pg_twin (page_array n' q) = pg_twin (page_array n q)) \<and>
     (\<forall>q \<in> covered ds. undiffed (pg_write_notice (page_array n' q) (proc_id n))) \<and>
     (\<forall>i. i \<noteq> proc_id n \<longrightarrow> vt' i = vt i) \<and> proc_vector_time n' = proc_vector_time n"
proof (cases "ds = []")
  case True
  with inv have "pg_prev (page_array n page_dirty) = page_dirty" by (simp add: core_inv_def run_inv_empty)
  with True inv show ?thesis by (auto simp: Tmk_interval_create_def Let_def)
next
  case False
  from inv have dr: "dirty_runs n ds" and ir: "inval_runs n is" and disj: "covered ds \<inter> covered is = {}"
    and np: "npages n \<le> NPAGES" and core: "\<And>p. p < npages n \<Longrightarrow> page_core n (p \<in> covered ds) p"
    by (auto simp: core_inv_def)
  obtain iv h where create: "Tmk_interval_create vt n = Some (vt(proc_id n := vt (proc_id n) + 1),
       n\<lparr>page_array := push_notices (proc_id n) iv (covered ds)
             (clear_dirty (boundaries ds) (reset_head page_dirty (page_array n))),
         interval_heap := h, proc_array := (proc_array n)(proc_id n := proc_array n (proc_id n) @ [iv])\<rparr>)"
    by (rule interval_create_eq [OF dr False])
  define A where "A = push_notices (proc_id n) iv (covered ds)
      (clear_dirty (boundaries ds) (reset_head page_dirty (page_array n)))"
  let ?n' = "n\<lparr>page_array := A, interval_heap := h,
      proc_array := (proc_array n)(proc_id n := proc_array n (proc_id n) @ [iv])\<rparr>"
  have links: "pg_twin (A q) = pg_twin (page_array n q)" "pg_state (A q) = pg_state (page_array n q)"
    "pg_manager (A q) = pg_manager (page_array n q)"
    "pg_inval_toggle (A q) = pg_inval_toggle (page_array n q)"
    "pg_partner (A q) = pg_partner (page_array n q)"
    "pg_prev (A q) = (if q = page_dirty then page_dirty else pg_prev (page_array n q))"
    "pg_next (A q) = (if q = page_dirty then page_dirty else pg_next (page_array n q))" for q
    by (simp_all add: A_def push_notices_def reset_head_def)
  have nl: "pg_write_notice (A q) (proc_id n) =
      (if q \<in> covered ds then new_notice iv # pg_write_notice (page_array n q) (proc_id n)
       else pg_write_notice (page_array n q) (proc_id n))" for q
    by (simp add: A_def push_notices_def reset_head_def)
  have "page_dirty \<notin> covered is" "page_dirty \<noteq> inval_head"
    using head_not_covered [OF ir, of page_dirty] by (auto simp: page_dirty_def inval_head_def)
  then have "inval_runs ?n' is"
    by (intro run_inv_frame [OF ir]) (auto simp: links)
  moreover have "dirty_runs ?n' []"
  proof -
    have "\<not> pg_dirty_toggle (A p)" if "p \<le> NPAGES" for p
    proof -
      have "p \<in> boundaries ds \<or> \<not> pg_dirty_toggle (page_array n p)"
        using run_invD(5) [OF dr that] by (force simp: boundaries_def image_iff)
      then show ?thesis by (auto simp: A_def push_notices_def clear_dirty_def reset_head_def)
    qed
    then show ?thesis by (simp add: run_inv_empty links)
  qed
  moreover have "twin_inv ?n' free"
    using inv by (simp add: core_inv_def twin_inv_def links)
  moreover have "page_core ?n' False p" if "p < npages n" for p
    using core [OF that] notice_ok_push by (auto simp: page_core_def Let_def links nl)
  ultimately have "core_inv ?n' [] is free" using inv by (auto simp: core_inv_def)
  moreover have "keeps n ?n'" by (auto simp: keeps_def links)
  moreover have "undiffed (pg_write_notice (A q) (proc_id n))" if "q \<in> covered ds" for q
    using that by (simp add: nl undiffed_def new_notice_def)
  ultimately show ?thesis
    using create links(1) unfolding A_def [symmetric] by (intro exI conjI) (assumption | simp)+
qed

section \<open>Making the diff of a page\<close>

lemma set_notice_diff_frame [simp]:
  "pg_prev (set_notice_diff pid k d pg) = pg_prev pg" "pg_next (set_notice_diff pid k d pg) = pg_next pg"
  "pg_partner (set_notice_diff pid k d pg) = pg_partner pg" "pg_twin (set_notice_diff pid k d pg) = pg_twin pg"
  "pg_state (set_notice_diff pid k d pg) = pg_state pg" "pg_manager (set_notice_diff pid k d pg) = pg_manager pg"
  "pg_inval_toggle (set_notice_diff pid k d pg) = pg_inval_toggle pg"
  "pg_dirty_toggle (set_notice_diff pid k d pg) = pg_dirty_toggle pg"
  by (simp_all add: set_notice_diff_def)

lemma set_notice_diff_notices:
  "pg_write_notice (set_notice_diff pid k d pg) i =
     (if i = pid then (pg_write_notice pg pid)[k := (pg_write_notice pg pid ! k)
        \<lparr>wn_diff := Some d, wn_diff_size := of_nat (4 * length d)\<rparr>] else pg_write_notice pg i)"
  by (simp add: set_notice_diff_def)

lemma notice_ok_diffed:
  assumes "notice_ok b t ws" "undiffed ws"
  shows "notice_ok False 0 (ws[0 := (ws ! 0)\<lparr>wn_diff := Some d, wn_diff_size := s\<rparr>])"
  using assms by (cases ws) (auto simp: notice_ok_def undiffed_def)

lemma diff_create_eq:
  assumes "diff_encode (heap_1_stale n) (mem n p) (twin_mem n (pg_twin (page_array n p))) = Some d"
  shows "\<exists>hm h st. Tmk_diff_create p pid k n = Some (n\<lparr>page_array := (page_array n)(p := set_notice_diff pid k d (page_array n p)),
           heap_1_mem := hm, diff_heap_1 := h, stat := st\<rparr>)"
  using assms by (simp add: Tmk_diff_create_def Let_def upd_page_def upd_stat_def) blast

lemma diff_free_inv:
  assumes inv: "core_inv n ds is free" and p: "p < npages n"
    and un: "undiffed (pg_write_notice (page_array n p) (proc_id n))"
  shows "\<exists>n1 d. Tmk_diff_create p (proc_id n) 0 n = Some n1 \<and>
     diff_encode (heap_1_stale n) (mem n p) (twin_mem n (pg_twin (page_array n p))) = Some d \<and>
     wn_diff (hd (pg_write_notice (page_array n1 p) (proc_id n))) = Some d \<and>
     core_inv (Tmk_twin_free p n1) ds is (pg_twin (page_array n p) # free) \<and>
     keeps n (Tmk_twin_free p n1) \<and> pg_twin (page_array (Tmk_twin_free p n1) p) = 0 \<and>
     (\<forall>q. q \<noteq> p \<longrightarrow> page_array (Tmk_twin_free p n1) q = page_array n q)"
proof -
  let ?pg = "page_array n p" and ?me = "proc_id n"
  from inv p have dr: "dirty_runs n ds" and ir: "inval_runs n is" and ti: "twin_inv n free"
    and core: "\<And>q. q < npages n \<Longrightarrow> page_core n (q \<in> covered ds) q"
    and pw: "page_words_ok (page_size n div 4)" by (auto simp: core_inv_def)
  have nok: "notice_ok (p \<in> covered ds) (pg_twin ?pg) (pg_write_notice ?pg ?me)"
    and twin: "pg_twin ?pg \<noteq> 0"
    and len: "length (mem n p) = page_size n div 4" "length (twin_mem n (pg_twin ?pg)) = page_size n div 4"
    using core [OF p] un by (auto simp: page_core_def Let_def notice_ok_def)
  obtain d where d: "diff_encode (heap_1_stale n) (mem n p) (twin_mem n (pg_twin ?pg)) = Some d"
    using diff_encode_total [of "mem n p" "twin_mem n (pg_twin ?pg)"] pw len by auto
  obtain hm h st where c: "Tmk_diff_create p ?me 0 n = Some (n\<lparr>page_array := (page_array n)(p := set_notice_diff ?me 0 d ?pg),
           heap_1_mem := hm, diff_heap_1 := h, stat := st\<rparr>)" (is "_ = Some ?n1")
    using diff_create_eq [OF d] by blast
  let ?n2 = "Tmk_twin_free p ?n1"
  have pa: "page_array ?n2 q = (if q = p then (set_notice_diff ?me 0 d ?pg)\<lparr>pg_twin := 0\<rparr> else page_array n q)" for q
    by (simp add: Tmk_twin_free_def Let_def upd_page_def)
  have fr: "npages ?n2 = npages n" "page_size ?n2 = page_size n" "proc_id ?n2 = ?me" "mem ?n2 = mem n"
    "nprocs ?n2 = nprocs n" "protection ?n2 = protection n" "proc_array ?n2 = proc_array n"
    "proc_vector_time ?n2 = proc_vector_time n"
    by (simp_all add: Tmk_twin_free_def Let_def)
  have tm: "length (twin_mem ?n2 t) = length (twin_mem n t)" for t
    by (simp add: Tmk_twin_free_def Let_def)
  have "twin_inv ?n1 free" using ti by (auto simp: twin_inv_def)
  then have "twin_inv ?n2 (pg_twin ?pg # free)"
    using twin_free_inv [of ?n1 free p] p twin by simp
  moreover have "dirty_runs ?n2 ds" by (rule run_inv_frame [OF dr]) (simp_all add: pa)
  moreover have "inval_runs ?n2 is" by (rule run_inv_frame [OF ir]) (simp_all add: pa)
  moreover have "page_core ?n2 (q \<in> covered ds) q" if "q < npages n" for q
  proof (cases "q = p")
    case True
    have "p \<notin> covered ds" using nok un by (simp add: notice_ok_def)
    with True len notice_ok_diffed [OF nok un] show ?thesis
      by (simp add: page_core_def Let_def pa fr set_notice_diff_notices)
  next
    case False
    with core [OF that] show ?thesis by (simp add: page_core_def Let_def pa fr tm)
  qed
  ultimately have "core_inv ?n2 ds is (pg_twin ?pg # free)"
    using inv by (simp add: core_inv_def fr)
  moreover have "keeps n ?n2" by (simp add: keeps_def fr pa)
  moreover have "wn_diff (hd (pg_write_notice (page_array ?n1 p) ?me)) = Some d"
    using un by (cases "pg_write_notice ?pg ?me") (auto simp: set_notice_diff_notices undiffed_def)
  ultimately show ?thesis using c d pa by fastforce
qed

section \<open>Flushing a page before its invalidation\<close>

lemma flush_undiffed:
  assumes inv: "core_inv n ds is free" "p < npages n"
    and un: "undiffed (pg_write_notice (page_array n p) (proc_id n))"
  obtains n' free' where "flush_twin p arg n = Some (arg, n')" "core_inv n' ds is free'" "keeps n n'"
    "pg_twin (page_array n' p) = 0" "\<And>q. q \<noteq> p \<Longrightarrow> pg_twin (page_array n' q) = pg_twin (page_array n q)"
    "p \<notin> covered ds"
proof -
  from assms have t: "pg_twin (page_array n p) \<noteq> 0" "p \<notin> covered ds"
    by (auto simp: core_defs notice_ok_def)
  obtain n1 where n1: "Tmk_diff_create p (proc_id n) 0 n = Some n1"
    "core_inv (Tmk_twin_free p n1) ds is (pg_twin (page_array n p) # free)" "keeps n (Tmk_twin_free p n1)"
    "pg_twin (page_array (Tmk_twin_free p n1) p) = 0"
    "\<And>q. q \<noteq> p \<Longrightarrow> page_array (Tmk_twin_free p n1) q = page_array n q"
    using diff_free_inv [OF assms] by blast
  have stop: "flush_twin p arg (Tmk_twin_free p n1) = Some (arg, Tmk_twin_free p n1)"
    by (subst flush_twin.simps) (simp add: n1(4))
  have "flush_twin p arg n = Some (arg, Tmk_twin_free p n1)"
    by (subst flush_twin.simps) (simp add: un t n1(1) stop)
  with n1 t show ?thesis by (intro that [of "Tmk_twin_free p n1"]) simp_all
qed

lemma interval_create_arg_inv:
  assumes inv: "core_inv n ds is free" and na: "arg \<noteq> Vt_null"
  obtains arg' n' where "interval_create_arg arg n = Some (arg', n')" "arg' \<noteq> Vt_null"
    "core_inv n' [] is free" "keeps n n'" "\<And>q. pg_twin (page_array n' q) = pg_twin (page_array n q)"
    "\<And>q. q \<in> covered ds \<Longrightarrow> undiffed (pg_write_notice (page_array n' q) (proc_id n))"
proof (cases arg)
  case Vt_proc
  obtain vt n' where c: "Tmk_interval_create (proc_vector_time n) n = Some (vt, n')" "core_inv n' [] is free"
    "keeps n n'" "\<And>q. pg_twin (page_array n' q) = pg_twin (page_array n q)"
    "\<And>q. q \<in> covered ds \<Longrightarrow> undiffed (pg_write_notice (page_array n' q) (proc_id n))"
    "\<And>i. i \<noteq> proc_id n \<Longrightarrow> vt i = proc_vector_time n i"
    using interval_create_inv [OF inv] by blast
  show ?thesis
    by (rule that [of Vt_proc "n'\<lparr>proc_vector_time := vt\<rparr>"])
       (use c in \<open>simp_all add: Vt_proc interval_create_arg_def keeps_def\<close>)
next
  case (Vt_array v)
  obtain vt n' where c: "Tmk_interval_create v n = Some (vt, n')" "core_inv n' [] is free"
    "keeps n n'" "\<And>q. pg_twin (page_array n' q) = pg_twin (page_array n q)"
    "\<And>q. q \<in> covered ds \<Longrightarrow> undiffed (pg_write_notice (page_array n' q) (proc_id n))"
    using interval_create_inv [OF inv] by blast
  show ?thesis
    by (rule that [of "Vt_array vt" n']) (use c in \<open>simp_all add: Vt_array interval_create_arg_def\<close>)
qed (use na in simp)

lemma copy_own_time_inv:
  "core_inv (copy_own_time arg n) ds is free = core_inv n ds is free"
  "keeps n (copy_own_time arg n)" "page_array (copy_own_time arg n) = page_array n"
  by (cases arg; simp add: copy_own_time_def keeps_def)+

lemma flush_twin_inv:
  assumes inv: "core_inv n ds is free" and p: "p < npages n"
    and arg: "arg = Vt_null \<Longrightarrow> p \<notin> covered ds"
  obtains arg' n' ds' free' where "flush_twin p arg n = Some (arg', n')" "core_inv n' ds' is free'" "keeps n n'"
    "pg_twin (page_array n' p) = 0" "\<And>q. q \<noteq> p \<Longrightarrow> pg_twin (page_array n' q) = pg_twin (page_array n q)"
    "covered ds' \<subseteq> covered ds - {p}" "arg' = Vt_null \<longleftrightarrow> arg = Vt_null"
proof -
  let ?me = "proc_id n"
  consider (none) "pg_twin (page_array n p) = 0" | (un) "undiffed (pg_write_notice (page_array n p) ?me)"
    | (dirty) "pg_twin (page_array n p) \<noteq> 0" "p \<in> covered ds"
      "\<not> undiffed (pg_write_notice (page_array n p) ?me)"
    using inv p by (auto simp: core_defs notice_ok_def)
  then show ?thesis
  proof cases
    case none
    with inv p have "p \<notin> covered ds" by (auto simp: core_defs notice_ok_def)
    moreover from none have "flush_twin p arg n = Some (arg, n)" by (simp add: flush_twin.simps)
    ultimately show ?thesis using inv none by (intro that [of arg n ds free]) auto
  next
    case un
    obtain n' free' where "flush_twin p arg n = Some (arg, n')" "core_inv n' ds is free'" "keeps n n'"
      "pg_twin (page_array n' p) = 0" "\<And>q. q \<noteq> p \<Longrightarrow> pg_twin (page_array n' q) = pg_twin (page_array n q)"
      "p \<notin> covered ds"
      using flush_undiffed [OF inv p un] by metis
    then show ?thesis by (intro that [of arg n' ds free']) auto
  next
    case dirty
    then have na: "arg \<noteq> Vt_null" using arg by blast
    obtain arg1 n1 where c: "interval_create_arg arg n = Some (arg1, n1)" "arg1 \<noteq> Vt_null"
      "core_inv n1 [] is free" "keeps n n1" "\<And>q. pg_twin (page_array n1 q) = pg_twin (page_array n q)"
      "undiffed (pg_write_notice (page_array n1 p) ?me)"
      using interval_create_arg_inv [OF inv na] dirty(2) by metis
    let ?n2 = "copy_own_time arg1 n1"
    have n2: "core_inv ?n2 [] is free" "keeps n ?n2" "proc_id ?n2 = ?me" "npages ?n2 = npages n"
      using c(3) keeps_trans [OF c(4) copy_own_time_inv(2)] by (auto simp: copy_own_time_inv keeps_def)
    have "flush_twin p arg n = flush_twin p arg1 ?n2"
      by (subst flush_twin.simps) (simp add: c(1) dirty)
    moreover have "undiffed (pg_write_notice (page_array ?n2 p) (proc_id ?n2))"
      using c(6) n2(3) by (simp add: copy_own_time_inv)
    then obtain n' free' where "flush_twin p arg1 ?n2 = Some (arg1, n')" "core_inv n' [] is free'" "keeps ?n2 n'"
      "pg_twin (page_array n' p) = 0" "\<And>q. q \<noteq> p \<Longrightarrow> pg_twin (page_array n' q) = pg_twin (page_array ?n2 q)"
      using flush_undiffed [OF n2(1), of p arg1] n2(4) p by metis
    ultimately show ?thesis
      using c(2,5) keeps_trans [OF n2(2)] na
      by (intro that [of arg1 n' "[]" free']) (auto simp: copy_own_time_inv)
  qed
qed

section \<open>Incorporating an interval\<close>

lemma list_ops_fields [simp]:
  "pg_state (link_page h p a u) = pg_state (a u)" "pg_twin (link_page h p a u) = pg_twin (a u)"
  "pg_write_notice (link_page h p a u) = pg_write_notice (a u)" "pg_manager (link_page h p a u) = pg_manager (a u)"
  "pg_state (unlink_page p a u) = pg_state (a u)" "pg_twin (unlink_page p a u) = pg_twin (a u)"
  "pg_write_notice (unlink_page p a u) = pg_write_notice (a u)" "pg_manager (unlink_page p a u) = pg_manager (a u)"
  "pg_state (set_partners p q a u) = pg_state (a u)" "pg_twin (set_partners p q a u) = pg_twin (a u)"
  "pg_write_notice (set_partners p q a u) = pg_write_notice (a u)" "pg_manager (set_partners p q a u) = pg_manager (a u)"
  by (simp_all add: link_page_def unlink_page_def set_partners_def Let_def)

lemma merge_fields [simp]:
  "pg_state (page_inval_merge p a u) = pg_state (a u)" "pg_twin (page_inval_merge p a u) = pg_twin (a u)"
  "pg_write_notice (page_inval_merge p a u) = pg_write_notice (a u)" "pg_manager (page_inval_merge p a u) = pg_manager (a u)"
  "pg_state (page_dirty_merge p a u) = pg_state (a u)" "pg_twin (page_dirty_merge p a u) = pg_twin (a u)"
  "pg_write_notice (page_dirty_merge p a u) = pg_write_notice (a u)" "pg_manager (page_dirty_merge p a u) = pg_manager (a u)"
  by (simp_all add: page_inval_merge_def page_dirty_merge_def page_merge_def Let_def)

lemma inval_merge_core:
  assumes inv: "core_inv n ds is free" and p: "p < npages n" "p \<notin> covered ds" "p \<notin> covered is"
  obtains is' where "core_inv (Tmk_page_inval_merge p n) ds is' free" "covered is' = insert p (covered is)"
proof -
  from inv p have dr: "dirty_runs n ds" and ir: "inval_runs n is" and disj: "covered is \<inter> covered ds = {}"
    and np: "p < NPAGES" by (auto simp: core_inv_def)
  obtain is' where is': "run_inv pg_inval_toggle inval_head (page_inval_merge p (page_array n)) is'"
    "covered is' = insert p (covered is)"
    using inval.page_merge_inv [OF ir np p(3)] by (auto simp: page_inval_merge_def)
  have "run_inv pg_dirty_toggle page_dirty (page_inval_merge p (page_array n)) ds"
    using inval_dirty.merge_other_list [OF ir np p(3) dr disj p(2)] by (simp add: page_inval_merge_def)
  with is' inv p have "core_inv (Tmk_page_inval_merge p n) ds is' free"
    by (auto simp: core_defs Tmk_page_inval_merge_def twin_inv_def)
  with is'(2) show ?thesis by (rule that [rotated])
qed

text \<open>The core of the invariant depends on these fields only.\<close>

lemma core_inv_frame:
  assumes inv: "core_inv n ds is free"
    and same: "proc_id n' = proc_id n" "npages n' = npages n" "page_size n' = page_size n" "mem n' = mem n"
      "twin_mem n' = twin_mem n" "twin_free_list n' = twin_free_list n"
    and pages: "\<And>q. pg_prev (page_array n' q) = pg_prev (page_array n q)"
      "\<And>q. pg_next (page_array n' q) = pg_next (page_array n q)"
      "\<And>q. pg_partner (page_array n' q) = pg_partner (page_array n q)"
      "\<And>q. pg_inval_toggle (page_array n' q) = pg_inval_toggle (page_array n q)"
      "\<And>q. pg_dirty_toggle (page_array n' q) = pg_dirty_toggle (page_array n q)"
      "\<And>q. pg_twin (page_array n' q) = pg_twin (page_array n q)"
      "\<And>q. pg_write_notice (page_array n' q) (proc_id n) = pg_write_notice (page_array n q) (proc_id n)"
  shows "core_inv n' ds is free"
proof -
  have "dirty_runs n' ds" "inval_runs n' is"
    using inv by (auto simp: core_inv_def intro!: run_inv_frame [where a = "page_array n"] simp: pages)
  with inv show ?thesis by (simp add: core_defs twin_inv_def pages same)
qed

lemma add_notice_core:
  assumes "core_inv n ds is free" "pid \<noteq> proc_id n"
  shows "core_inv (add_notice pid iv p n) ds is free"
  by (rule core_inv_frame [OF assms(1)]) (use assms(2) in \<open>simp_all add: add_notice_eq push_notices_def\<close>)

lemma core_inv_state:
  "core_inv n ds is free \<Longrightarrow> core_inv (upd_page p (pg_state_update f) n) ds is free"
  by (erule core_inv_frame) (simp_all add: page_array_upd_page)

text \<open>One page of a received range.\<close>

definition same_setup :: "'a node_scheme \<Rightarrow> 'a node_scheme \<Rightarrow> bool" where
  "same_setup n n' \<longleftrightarrow> proc_id n' = proc_id n \<and> nprocs n' = nprocs n \<and> npages n' = npages n \<and>
     page_size n' = page_size n \<and> mem n' = mem n \<and> protection n' = protection n \<and>
     (\<forall>i. i \<noteq> proc_id n \<longrightarrow> proc_array n' i = proc_array n i \<and> proc_vector_time n' i = proc_vector_time n i)"

lemma same_setup_refl [simp]: "same_setup n n" by (simp add: same_setup_def)

lemma same_setup_trans: "same_setup n m \<Longrightarrow> same_setup m k \<Longrightarrow> same_setup n k" by (simp add: same_setup_def)

text \<open>The valid pages of \<open>S\<close> became invalid and wait in the invalidation list; no other page changed state.\<close>

definition invalidated ::
  "'a node_scheme \<Rightarrow> (nat \<times> nat) list \<Rightarrow> 'a node_scheme \<Rightarrow> (nat \<times> nat) list \<Rightarrow> nat set \<Rightarrow> bool" where
  "invalidated n is n' is' S \<longleftrightarrow>
     (\<forall>q. pg_state (page_array n' q) =
        (if q \<in> S \<and> pg_state (page_array n q) = Valid then Invalid else pg_state (page_array n q))) \<and>
     covered is' = covered is \<union> {q \<in> S. pg_state (page_array n q) = Valid}"

lemma invalidated_empty [simp]: "invalidated n is n is {}"
  by (simp add: invalidated_def)

lemma invalidated_trans:
  "invalidated n is m is1 S \<Longrightarrow> invalidated m is1 k is2 T \<Longrightarrow> invalidated n is k is2 (S \<union> T)"
  by (auto simp: invalidated_def)

lemma incorporate_page_inv:
  assumes inv: "node_inv n ds is free" and p: "p < npages n" and pid: "pid \<noteq> proc_id n"
    and arg: "arg = Vt_null \<Longrightarrow> ds = []"
  obtains arg' n' ds' is' free' where "incorporate_page pid iv p (arg, n) = Some (arg', n')"
    "node_inv n' ds' is' free'" "same_setup n n'" "arg' = Vt_null \<Longrightarrow> ds' = []"
    "arg' = Vt_null \<longleftrightarrow> arg = Vt_null" "invalidated n is n' is' {p}"
proof -
  let ?n1 = "add_notice pid iv p n"
  from inv p have np: "p \<le> NPAGES" and core: "core_inv n ds is free" by (auto simp: node_inv_def core_inv_def)
  have c1: "core_inv ?n1 ds is free" using add_notice_core [OF core pid] .
  have pa: "pg_state (page_array ?n1 q) = pg_state (page_array n q)" "pg_twin (page_array ?n1 q) = pg_twin (page_array n q)" for q
    by (simp_all add: add_notice_eq push_notices_def)
  have s1: "same_setup n ?n1" by (simp add: same_setup_def add_notice_eq)
  show ?thesis
  proof (cases "pg_state (page_array n p) = Valid")
    case False
    have "node_inv ?n1 ds is free" using inv c1 s1 by (simp add: node_inv_def pa same_setup_def)
    with False np s1 arg show ?thesis
      by (intro that [of arg ?n1 ds "is" free]) (auto simp: incorporate_page_def invalidated_def Let_def pa)
  next
    case True
    let ?n2 = "upd_page p (pg_state_update (\<lambda>_. Invalid)) ?n1"
    have c2: "core_inv ?n2 ds is free" using core_inv_state [OF c1] .
    have s2: "same_setup n ?n2" using s1 by (simp add: same_setup_def)
    have pend: "p \<notin> covered is" using inv p True by (auto simp: node_inv_def prot_ok_def)
    obtain arg3 n3 ds3 free3 where f: "flush_twin p arg ?n2 = Some (arg3, n3)" "core_inv n3 ds3 is free3"
      "keeps ?n2 n3" "pg_twin (page_array n3 p) = 0"
      "\<And>q. q \<noteq> p \<Longrightarrow> pg_twin (page_array n3 q) = pg_twin (page_array ?n2 q)"
      "covered ds3 \<subseteq> covered ds - {p}" "arg3 = Vt_null \<longleftrightarrow> arg = Vt_null"
    proof (rule flush_twin_inv [OF c2, of p arg])
      show "p < npages ?n2" using p s2 by (simp add: same_setup_def)
      show "p \<notin> covered ds" if "arg = Vt_null" using that arg by simp
    qed (rule that)
    have s3: "same_setup n n3" using s2 f(3) by (simp add: same_setup_def keeps_def)
    have st: "pg_state (page_array n3 q) = (if q = p then Invalid else pg_state (page_array n q))" for q
      using f(3) by (simp add: keeps_def page_array_upd_page pa)
    obtain is' where i: "core_inv (Tmk_page_inval_merge p n3) ds3 is' free3" "covered is' = insert p (covered is)"
      using inval_merge_core [OF f(2), of p] f(6) pend p s3 by (auto simp: same_setup_def)
    have "prot_ok (pg_state (page_array (Tmk_page_inval_merge p n3) q)) (pg_twin (page_array (Tmk_page_inval_merge p n3) q))
        (protection (Tmk_page_inval_merge p n3) q) (q \<in> covered is')" if "q < npages n" for q
    proof (cases "q = p")
      case True
      then show ?thesis using f(4) st i(2) by (simp add: Tmk_page_inval_merge_def prot_ok_def)
    next
      case False
      with inv that f(5) s3 st i(2) show ?thesis
        by (simp add: Tmk_page_inval_merge_def node_inv_def same_setup_def page_array_upd_page pa)
    qed
    with i(1) s3 have ni: "node_inv (Tmk_page_inval_merge p n3) ds3 is' free3"
      by (simp add: node_inv_def same_setup_def Tmk_page_inval_merge_def)
    have empty: "ds3 = []" if "ds = []"
      using f(2,6) that run_invD(2) [of pg_dirty_toggle page_dirty "page_array n3" ds3]
      by (cases ds3) (force simp: core_inv_def covered_def runs_wf_def)+
    show ?thesis
      by (rule that [of arg3 "Tmk_page_inval_merge p n3" ds3 is' free3])
         (use ni np f(1,7) s3 st i(2) empty arg True in
           \<open>auto simp: incorporate_page_def invalidated_def Let_def pa same_setup_def Tmk_page_inval_merge_def\<close>)
  qed
qed

text \<open>What incorporating the pages \<open>S\<close> promises.\<close>

definition incorporated ::
  "vt_arg \<Rightarrow> 'a node_scheme \<Rightarrow> (nat \<times> nat) list \<Rightarrow> nat set \<Rightarrow> (vt_arg \<times> 'a node_scheme) option \<Rightarrow> bool" where
  "incorporated arg n is S r \<longleftrightarrow>
     (\<exists>arg' n' ds' is' free'. r = Some (arg', n') \<and> node_inv n' ds' is' free' \<and> same_setup n n' \<and>
        (arg' = Vt_null \<longrightarrow> ds' = []) \<and> (arg' = Vt_null \<longleftrightarrow> arg = Vt_null) \<and> invalidated n is n' is' S)"

lemma incorporatedI:
  assumes "r = Some (arg', n')" "node_inv n' ds' is' free'" "same_setup n n'" "arg' = Vt_null \<Longrightarrow> ds' = []"
    "arg' = Vt_null \<longleftrightarrow> arg = Vt_null" "invalidated n is n' is' S"
  shows "incorporated arg n is S r"
  unfolding incorporated_def using assms by (intro exI conjI impI)

lemma incorporatedE:
  assumes "incorporated arg n is S r"
  obtains arg' n' ds' is' free' where "r = Some (arg', n')" "node_inv n' ds' is' free'" "same_setup n n'"
    "arg' = Vt_null \<longrightarrow> ds' = []" "arg' = Vt_null \<longleftrightarrow> arg = Vt_null" "invalidated n is n' is' S"
  using assms unfolding incorporated_def by blast

lemma incorporated_page:
  assumes "node_inv n ds is free" "p < npages n" "pid \<noteq> proc_id n" "arg = Vt_null \<longrightarrow> ds = []"
  shows "incorporated arg n is {p} (incorporate_page pid iv p (arg, n))"
proof (rule incorporate_page_inv [OF assms(1-3), of arg iv])
  show "ds = []" if "arg = Vt_null" using that assms(4) by simp
qed (rule incorporatedI)

lemma incorporated_bind:
  assumes r: "incorporated arg n is S r"
    and f: "\<And>arg' n' ds' is' free'. node_inv n' ds' is' free' \<Longrightarrow> same_setup n n' \<Longrightarrow>
              arg' = Vt_null \<longrightarrow> ds' = [] \<Longrightarrow> incorporated arg' n' is' T (f (arg', n'))"
  shows "incorporated arg n is (S \<union> T) (Option.bind r f)"
proof -
  from r obtain arg' n' ds' is' free' where 1: "r = Some (arg', n')" "node_inv n' ds' is' free'" "same_setup n n'"
    "arg' = Vt_null \<longrightarrow> ds' = []" "arg' = Vt_null \<longleftrightarrow> arg = Vt_null" "invalidated n is n' is' S"
    by (rule incorporatedE)
  from f [OF 1(2,3,4)] obtain arg2 n2 ds2 is2 free2 where 2: "f (arg', n') = Some (arg2, n2)" "node_inv n2 ds2 is2 free2"
    "same_setup n' n2" "arg2 = Vt_null \<longrightarrow> ds2 = []" "arg2 = Vt_null \<longleftrightarrow> arg' = Vt_null" "invalidated n' is' n2 is2 T"
    by (rule incorporatedE)
  have "same_setup n n2" "invalidated n is n2 is2 (S \<union> T)"
    using same_setup_trans [OF 1(3) 2(3)] invalidated_trans [OF 1(6) 2(6)] by auto
  with 1 2 show ?thesis by (intro incorporatedI [of _ arg2 n2 ds2 is2 free2]) auto
qed

lemma incorporated_refl:
  "node_inv n ds is free \<Longrightarrow> arg = Vt_null \<longrightarrow> ds = [] \<Longrightarrow> incorporated arg n is {} (Some (arg, n))"
  by (rule incorporatedI [of _ arg n ds "is" free]) auto

lemma incorporated_range:
  assumes "node_inv n ds is free" "page \<le> page_end" "page_end < npages n" "pid \<noteq> proc_id n"
    and "arg = Vt_null \<longrightarrow> ds = []"
  shows "incorporated arg n is {page..page_end} (incorporate_range pid iv page page_end (arg, n))"
  using assms
proof (induction "page_end - page" arbitrary: page n ds "is" free arg)
  case 0
  then have "page = page_end" by simp
  with 0 incorporated_page [of n ds "is" free page pid arg iv]
  have "incorporated arg n is {page} (incorporate_page pid iv page (arg, n))" by simp
  moreover have "incorporate_range pid iv page page_end (arg, n) = incorporate_page pid iv page (arg, n)"
    using \<open>page = page_end\<close> by (subst incorporate_range.simps) simp
  ultimately show ?case using \<open>page = page_end\<close> by simp
next
  case (Suc k)
  then have lt: "page < page_end" "k = page_end - (page + 1)" by auto
  have "incorporated arg n is ({page} \<union> {page + 1..page_end})
     (Option.bind (incorporate_page pid iv page (arg, n)) (incorporate_range pid iv (page + 1) page_end))"
  proof (rule incorporated_bind [OF incorporated_page])
    show "incorporated arg' n' is' {page + 1..page_end} (incorporate_range pid iv (page + 1) page_end (arg', n'))"
      if "node_inv n' ds' is' free'" "same_setup n n'" "arg' = Vt_null \<longrightarrow> ds' = []" for arg' n' ds' is' free'
      using that Suc.prems lt by (intro Suc.hyps) (auto simp: same_setup_def)
  qed (use Suc.prems lt in auto)
  moreover have "{page} \<union> {page + 1..page_end} = {page..page_end}" using lt(1) by auto
  moreover have "incorporate_range pid iv page page_end (arg, n) =
      Option.bind (incorporate_page pid iv page (arg, n)) (incorporate_range pid iv (page + 1) page_end)"
    using lt(1) by (subst incorporate_range.simps) simp
  ultimately show ?case by simp
qed

lemma incorporated_start:
  assumes "incorporated arg m is S r" "same_setup n m"
    and "\<And>q. pg_state (page_array m q) = pg_state (page_array n q)"
  shows "incorporated arg n is S r"
  using assms(1)
proof (rule incorporatedE)
  fix arg' n' ds' is' free'
  assume "r = Some (arg', n')" "node_inv n' ds' is' free'" "same_setup m n'" "arg' = Vt_null \<longrightarrow> ds' = []"
    "(arg' = Vt_null) = (arg = Vt_null)" "invalidated m is n' is' S"
  then show ?thesis
    using same_setup_trans [OF assms(2)] assms(3)
    by (intro incorporatedI [of r arg' n' ds' is' free']) (auto simp: invalidated_def)
qed

lemma bump_node_inv:
  "node_inv n ds is free \<Longrightarrow> node_inv (bump_interval_heap sz n) ds is free"
  unfolding node_inv_def
  by (auto simp: bump_interval_heap_def intro!: core_inv_frame [of n ds "is" free])

definition range_pages :: "(u16 \<times> u16) list \<Rightarrow> nat set" where
  "range_pages rs = (\<Union>r \<in> set rs. {unat (fst r)..unat (snd r)})"

lemma range_pages_simps [simp]:
  "range_pages [] = {}" "range_pages (r # rs) = {unat (fst r)..unat (snd r)} \<union> range_pages rs"
  "range_pages (rs @ qs) = range_pages rs \<union> range_pages qs"
  by (auto simp: range_pages_def)

definition ranges_fit :: "nat \<Rightarrow> (u16 \<times> u16) list \<Rightarrow> bool" where
  "ranges_fit k rs \<longleftrightarrow> (\<forall>r \<in> set rs. unat (fst r) \<le> unat (snd r) \<and> unat (snd r) < k)"

lemma incorporated_ranges:
  assumes "node_inv n ds is free" "ranges_fit (npages n) rs" "pid \<noteq> proc_id n" "arg = Vt_null \<longrightarrow> ds = []"
  shows "incorporated arg n is (range_pages rs) (incorporate_ranges pid iv rs (arg, n))"
  using assms
proof (induction rs arbitrary: n ds "is" free arg)
  case Nil
  then show ?case by (simp add: incorporated_refl)
next
  case (Cons r rs)
  obtain f l where r: "r = (f, l)" by (cases r)
  have fit: "unat f \<le> unat l" "unat l < npages n" using Cons.prems(2) r by (auto simp: ranges_fit_def)
  note one = incorporated_range [OF Cons.prems(1) fit Cons.prems(3,4), of iv]
  show ?case
  proof (cases rs)
    case Nil
    then show ?thesis using one by (simp add: r)
  next
    case (Cons r' rs')
    have "incorporated arg n is ({unat f..unat l} \<union> range_pages rs)
       (Option.bind (incorporate_range pid iv (unat f) (unat l) (arg, n)) (\<lambda>(arg, n).
          incorporate_ranges pid iv rs (arg, bump_interval_heap sizeof_range n)))"
    proof (rule incorporated_bind [OF one])
      fix arg' ds' is' free' and n' :: "'a node_scheme"
      assume h: "node_inv n' ds' is' free'" "same_setup n n'" "arg' = Vt_null \<longrightarrow> ds' = []"
      let ?m = "bump_interval_heap sizeof_range n'"
      have "incorporated arg' ?m is' (range_pages rs) (incorporate_ranges pid iv rs (arg', ?m))"
        using Cons.prems h by (intro Cons.IH [OF bump_node_inv [OF h(1)]])
          (auto simp: ranges_fit_def same_setup_def bump_interval_heap_def)
      then have "incorporated arg' n' is' (range_pages rs) (incorporate_ranges pid iv rs (arg', ?m))"
        by (rule incorporated_start) (simp_all add: same_setup_def bump_interval_heap_def)
      then show "incorporated arg' n' is' (range_pages rs)
         (case (arg', n') of (arg, n) \<Rightarrow> incorporate_ranges pid iv rs (arg, bump_interval_heap sizeof_range n))"
        by simp
    qed
    then show ?thesis by (simp add: r Cons)
  qed
qed

section \<open>Receiving intervals\<close>

definition base_setup :: "'a node_scheme \<Rightarrow> 'a node_scheme \<Rightarrow> bool" where
  "base_setup n n' \<longleftrightarrow> proc_id n' = proc_id n \<and> nprocs n' = nprocs n \<and> npages n' = npages n \<and>
     page_size n' = page_size n \<and> mem n' = mem n \<and> protection n' = protection n"

text \<open>What receiving new intervals promises: their pages are invalidated, and their records are
  enqueued in order, per creating process.\<close>

definition received ::
  "vt_arg \<Rightarrow> 'a node_scheme \<Rightarrow> (nat \<times> nat) list \<Rightarrow> interval list \<Rightarrow> (vt_arg \<times> 'a node_scheme) option \<Rightarrow> bool" where
  "received arg n is ivs r \<longleftrightarrow>
     (\<exists>arg' n' ds' is' free'. r = Some (arg', n') \<and> node_inv n' ds' is' free' \<and> base_setup n n' \<and>
        (arg' = Vt_null \<longrightarrow> ds' = []) \<and> (arg' = Vt_null \<longleftrightarrow> arg = Vt_null) \<and>
        invalidated n is n' is' (\<Union>iv \<in> set ivs. range_pages (iv_ranges iv)) \<and>
        (\<forall>i. i \<noteq> proc_id n \<longrightarrow> proc_array n' i = proc_array n i @ filter (\<lambda>iv. iv_id iv = i) ivs) \<and>
        (\<forall>i. i \<noteq> proc_id n \<longrightarrow> proc_vector_time n' i =
           (case filter (\<lambda>iv. iv_id iv = i) ivs of [] \<Rightarrow> proc_vector_time n i | ws \<Rightarrow> iv_vector_time (last ws) i)))"

lemma received_interval:
  assumes inv: "node_inv n ds is free" and fit: "ranges_fit (npages n) (iv_ranges iv)"
    and pid: "iv_id iv \<noteq> proc_id n" and arg: "arg = Vt_null \<longrightarrow> ds = []"
  shows "received arg n is [iv] (incorporate_interval iv (arg, n))"
proof -
  let ?i = "iv_id iv"
  let ?m = "enqueue_interval ?i iv (n\<lparr>proc_vector_time := (proc_vector_time n)(?i := iv_vector_time iv ?i)\<rparr>)"
  have "node_inv ?m ds is free"
    using inv by (auto simp: node_inv_def enqueue_interval_def bump_interval_heap_def intro!: core_inv_frame [of n ds "is" free])
  moreover have "base_setup n ?m" "\<And>q. page_array ?m q = page_array n q"
    by (simp_all add: base_setup_def enqueue_interval_def bump_interval_heap_def)
  moreover have arrays: "proc_array ?m j = (if j = ?i then proc_array n j @ [iv] else proc_array n j)"
    "proc_vector_time ?m j = (if j = ?i then iv_vector_time iv ?i else proc_vector_time n j)" for j
    by (simp_all add: enqueue_interval_def bump_interval_heap_def)
  ultimately have "incorporated arg ?m is (range_pages (iv_ranges iv)) (incorporate_ranges ?i iv (iv_ranges iv) (arg, ?m))"
    using fit pid arg by (intro incorporated_ranges [of ?m ds "is" free]) (auto simp: base_setup_def)
  then obtain arg' n' ds' is' free' where 1: "incorporate_ranges ?i iv (iv_ranges iv) (arg, ?m) = Some (arg', n')"
    "node_inv n' ds' is' free'" "same_setup ?m n'" "arg' = Vt_null \<longrightarrow> ds' = []" "arg' = Vt_null \<longleftrightarrow> arg = Vt_null"
    "invalidated ?m is n' is' (range_pages (iv_ranges iv))"
    by (rule incorporatedE)
  define n2 where "n2 = (if inverse_time n' ?i < iv_vector_time iv (proc_id n')
      then n'\<lparr>inverse_time := (inverse_time n')(?i := iv_vector_time iv (proc_id n'))\<rparr> else n')"
  have r: "incorporate_interval iv (arg, n) = Some (arg', n2)"
    by (simp add: incorporate_interval_def Let_def 1(1) n2_def)
  have "node_inv n2 ds' is' free'" using 1(2) by (simp add: n2_def node_inv_def)
  moreover have "page_array n2 = page_array n'" "proc_array n2 = proc_array n'" "proc_vector_time n2 = proc_vector_time n'"
    by (simp_all add: n2_def)
  moreover have "base_setup n n2"
    using 1(3) by (simp add: base_setup_def n2_def same_setup_def enqueue_interval_def bump_interval_heap_def)
  moreover have "invalidated n is n' is' (range_pages (iv_ranges iv))"
    using 1(6) by (simp add: invalidated_def enqueue_interval_def bump_interval_heap_def)
  moreover have "proc_array n' j = proc_array ?m j \<and> proc_vector_time n' j = proc_vector_time ?m j" if "j \<noteq> proc_id n" for j
    using 1(3) that by (simp add: same_setup_def enqueue_interval_def bump_interval_heap_def)
  ultimately show ?thesis
    unfolding received_def using r 1(4,5) arrays
    by (intro exI [of _ arg'] exI [of _ n2] exI [of _ ds'] exI [of _ is'] exI [of _ free'])
       (simp add: invalidated_def)
qed

lemma norm_range_pages [simp]: "range_pages (norm_range r) = {unat (fst r)..unat (snd r)}"
  by (auto simp: norm_range_def range_pages_def)

lemma norm_interval_pages [simp]: "range_pages (iv_ranges (norm_interval iv)) = range_pages (iv_ranges iv)"
proof -
  have "range_pages (concat (map norm_range rs)) = range_pages rs" for rs
    by (induction rs) simp_all
  then show ?thesis by (simp add: norm_interval_def)
qed

lemma norm_interval_id [simp]: "iv_id (norm_interval iv) = iv_id iv"
  by (simp add: norm_interval_def)

lemma norm_interval_fit:
  assumes "ranges_fit k (iv_ranges iv)"
  shows "ranges_fit k (iv_ranges (norm_interval iv))"
proof -
  have "unat (fst r) \<le> unat (snd r) \<and> unat (snd r) < k" if "r \<in> set (norm_range r')" "unat (fst r') \<le> unat (snd r')"
    "unat (snd r') < k" for r r'
    using that by (auto simp: norm_range_def split: if_splits)
  moreover have "\<exists>r' \<in> set (iv_ranges iv). r \<in> set (norm_range r')" if "r \<in> set (iv_ranges (norm_interval iv))" for r
    using that by (simp add: norm_interval_def)
  ultimately show ?thesis using assms unfolding ranges_fit_def by meson
qed

text \<open>Intervals that can be received one after the other: new, from other processes, in order.\<close>

definition receivable :: "'a node_scheme \<Rightarrow> interval list \<Rightarrow> bool" where
  "receivable n ivs \<longleftrightarrow>
     (\<forall>iv \<in> set ivs. wf_interval (iv_id iv) iv \<and> iv_id iv \<noteq> proc_id n \<and> ranges_fit (npages n) (iv_ranges iv) \<and>
        proc_vector_time n (iv_id iv) < iv_vector_time iv (iv_id iv)) \<and>
     sorted_wrt (\<lambda>a b. iv_id a = iv_id b \<longrightarrow> iv_vector_time a (iv_id a) < iv_vector_time b (iv_id b)) ivs"

lemma receivable_tl:
  assumes "receivable n (iv # ivs)" "base_setup n m"
    and "\<And>i. i \<noteq> proc_id n \<Longrightarrow> proc_vector_time m i = (if i = iv_id iv then iv_vector_time iv i else proc_vector_time n i)"
  shows "receivable m ivs"
  using assms by (auto simp: receivable_def base_setup_def)

lemma received_intervals:
  assumes "node_inv n ds is free" "arg = Vt_null \<longrightarrow> ds = []" "receivable n ivs"
  shows "received arg n is (map norm_interval ivs) (receive_intervals ivs (arg, n))"
  using assms
proof (induction ivs arbitrary: arg n ds "is" free)
  case Nil
  then show ?case
    unfolding received_def
    by (intro exI [of _ arg] exI [of _ n] exI [of _ ds] exI [of _ "is"] exI [of _ free]) (simp add: base_setup_def)
next
  case (Cons iv ivs)
  let ?i = "iv_id iv" and ?iv = "norm_interval iv"
  from Cons.prems(3) have iv: "wf_interval ?i iv" "?i \<noteq> proc_id n" "ranges_fit (npages n) (iv_ranges iv)"
    "proc_vector_time n ?i < iv_vector_time iv ?i" by (auto simp: receivable_def)
  have nt: "iv_vector_time ?iv ?i = iv_vector_time iv ?i"
    using iv(1) by (simp add: norm_interval_def wf_interval_def)
  have "received arg n is [?iv] (incorporate_interval ?iv (arg, n))"
    using iv(2) norm_interval_fit [OF iv(3)] Cons.prems(1,2) by (intro received_interval) auto
  then obtain arg1 n1 ds1 is1 free1 where 1: "incorporate_interval ?iv (arg, n) = Some (arg1, n1)"
    "node_inv n1 ds1 is1 free1" "base_setup n n1" "arg1 = Vt_null \<longrightarrow> ds1 = []" "arg1 = Vt_null \<longleftrightarrow> arg = Vt_null"
    "invalidated n is n1 is1 (\<Union>iv \<in> set [?iv]. range_pages (iv_ranges iv))"
    "\<And>i. i \<noteq> proc_id n \<Longrightarrow> proc_array n1 i = proc_array n i @ filter (\<lambda>iv. iv_id iv = i) [?iv]"
    "\<And>i. i \<noteq> proc_id n \<Longrightarrow> proc_vector_time n1 i = (case filter (\<lambda>iv. iv_id iv = i) [?iv] of
        [] \<Rightarrow> proc_vector_time n i | ws \<Rightarrow> iv_vector_time (last ws) i)"
    unfolding received_def by blast
  have t1: "proc_vector_time n1 i = (if i = ?i then iv_vector_time iv i else proc_vector_time n i)"
    if "i \<noteq> proc_id n" for i
    using 1(8) [OF that] nt by auto
  have "receivable n1 ivs" using receivable_tl [OF Cons.prems(3) 1(3) t1] .
  then have "received arg1 n1 is1 (map norm_interval ivs) (receive_intervals ivs (arg1, n1))"
    using Cons.IH [OF 1(2,4)] by simp
  then obtain arg2 n2 ds2 is2 free2 where 2: "receive_intervals ivs (arg1, n1) = Some (arg2, n2)"
    "node_inv n2 ds2 is2 free2" "base_setup n1 n2" "arg2 = Vt_null \<longrightarrow> ds2 = []" "arg2 = Vt_null \<longleftrightarrow> arg1 = Vt_null"
    "invalidated n1 is1 n2 is2 (\<Union>iv \<in> set (map norm_interval ivs). range_pages (iv_ranges iv))"
    "\<And>i. i \<noteq> proc_id n1 \<Longrightarrow> proc_array n2 i = proc_array n1 i @ filter (\<lambda>iv. iv_id iv = i) (map norm_interval ivs)"
    "\<And>i. i \<noteq> proc_id n1 \<Longrightarrow> proc_vector_time n2 i = (case filter (\<lambda>iv. iv_id iv = i) (map norm_interval ivs) of
        [] \<Rightarrow> proc_vector_time n1 i | ws \<Rightarrow> iv_vector_time (last ws) i)"
    unfolding received_def by blast
  have "invalidated n is n2 is2 (\<Union>iv \<in> set (map norm_interval (iv # ivs)). range_pages (iv_ranges iv))"
    using invalidated_trans [OF 1(6) 2(6)] by (simp add: Un_commute)
  moreover have "base_setup n n2" using 1(3) 2(3) by (simp add: base_setup_def)
  moreover have "receive_intervals (iv # ivs) (arg, n) = Some (arg2, n2)"
    using iv(4) 1(1) 2(1) by (simp add: receive_interval_def)
  moreover have "proc_id n1 = proc_id n" using 1(3) by (simp add: base_setup_def)
  ultimately show ?case
    unfolding received_def using 1(5,7) t1 2(2,4,5,7,8) nt
    by (intro exI [of _ arg2] exI [of _ n2] exI [of _ ds2] exI [of _ is2] exI [of _ free2])
       (auto split: list.splits)
qed

lemma inval_perform_inv:
  assumes inv: "node_inv n ds is free"
  obtains n' where "Tmk_page_inval_perform n = Some n'" "node_inv n' ds [] free"
    "\<And>q. pg_state (page_array n' q) = pg_state (page_array n q)"
    "\<And>q. protection n' q = (if q \<in> covered is then PROT_NONE else protection n q)"
    "mem n' = mem n" "proc_array n' = proc_array n" "proc_vector_time n' = proc_vector_time n" "proc_id n' = proc_id n"
    "npages n' = npages n"
proof -
  from inv have ir: "inval_runs n is" and dr: "dirty_runs n ds" by (auto simp: node_inv_def core_inv_def)
  let ?pr = "\<lambda>q. if q \<in> covered is then PROT_NONE else protection n q"
  obtain a where a: "Tmk_page_inval_perform n = Some (n\<lparr>page_array := a, protection := ?pr\<rparr>)"
    "run_inv pg_inval_toggle inval_head a []"
    "\<And>q. pg_state (a q) = pg_state (page_array n q)" "\<And>q. pg_twin (a q) = pg_twin (page_array n q)"
    "\<And>q. pg_write_notice (a q) = pg_write_notice (page_array n q)"
    "\<And>q. q \<noteq> inval_head \<Longrightarrow> pg_prev (a q) = pg_prev (page_array n q) \<and> pg_next (a q) = pg_next (page_array n q)"
    "\<And>q. pg_partner (a q) = pg_partner (page_array n q) \<and> pg_dirty_toggle (a q) = pg_dirty_toggle (page_array n q)"
    by (rule inval_perform_runs [OF ir]) (rule that)
  have "inval_head \<notin> covered ds" "inval_head \<noteq> page_dirty"
    using head_not_covered [OF dr, of inval_head] by (auto simp: page_dirty_def inval_head_def)
  then have "u \<noteq> inval_head" if "u = page_dirty \<or> u \<in> covered ds" for u using that by auto
  then have "run_inv pg_dirty_toggle page_dirty a ds"
    by (intro run_inv_frame [OF dr]) (simp_all add: a(6,7))
  with inv a(2-5) have "core_inv (n\<lparr>page_array := a, protection := ?pr\<rparr>) ds [] free"
    by (auto simp: node_inv_def core_defs twin_inv_def)
  moreover have "prot_ok (pg_state (a q)) (pg_twin (a q)) (?pr q) False" if "q < npages n" for q
    using inv that a(3,4) by (auto simp: node_inv_def prot_ok_def split: page_state.splits)
  ultimately show ?thesis
    by (intro that [OF a(1)]) (simp_all add: node_inv_def a(3))
qed

lemma requested_sorted:
  assumes "wf_intervals m"
    and "\<And>i. i < max 1 (nprocs m) \<Longrightarrow> sorted_wrt (\<lambda>a b. iv_vector_time a i < iv_vector_time b i) (proc_array m i)"
  shows "sorted_wrt (\<lambda>a b. iv_id a = iv_id b \<longrightarrow> iv_vector_time a (iv_id a) < iv_vector_time b (iv_id b)) (requested m vt)"
proof -
  have id: "iv_id iv = i" if "iv \<in> set (intervals_after m i t)" "i < max 1 (nprocs m)" for iv i t
    using that assms(1) intervals_after_subset [of m i t] by (auto simp: wf_intervals_def wf_interval_def)
  have suffix: "sorted_wrt R (intervals_after m i t)" if "sorted_wrt R (proc_array m i)" for R i t
  proof -
    have "proc_array m i = rev (dropWhile (\<lambda>iv. t < iv_vector_time iv i) (rev (proc_array m i))) @ intervals_after m i t"
      unfolding intervals_after_def by (metis rev_append rev_rev_ident takeWhile_dropWhile_id)
    with that show ?thesis by (metis sorted_wrt_append)
  qed
  have "sorted_wrt (\<lambda>a b. iv_id a = iv_id b \<longrightarrow> iv_vector_time a (iv_id a) < iv_vector_time b (iv_id b))
      (concat (map (\<lambda>i. intervals_after m i (vt i)) [0..<k]))" if "k \<le> max 1 (nprocs m)" for k
    using that
  proof (induction k)
    case (Suc k)
    have "sorted_wrt (\<lambda>a b. iv_vector_time a k < iv_vector_time b k) (intervals_after m k (vt k))"
      using assms(2) [of k] Suc.prems by (intro suffix) simp
    then have "sorted_wrt (\<lambda>a b. iv_id a = iv_id b \<longrightarrow> iv_vector_time a (iv_id a) < iv_vector_time b (iv_id b))
        (intervals_after m k (vt k))"
      by (rule sorted_wrt_mono_rel [rotated]) (use id Suc.prems in fastforce)
    moreover have "iv_id a \<noteq> iv_id b"
      if "a \<in> set (intervals_after m i (vt i))" "i < k" "b \<in> set (intervals_after m k (vt k))" for a b i
      using id [OF that(1)] id [OF that(3)] that(2) Suc.prems by simp
    ultimately show ?case using Suc by (auto simp: sorted_wrt_append)
  qed simp
  then show ?thesis by (simp add: requested_def)
qed

section \<open>The initial state\<close>

lemma boot_node_inv:
  assumes "page_words_ok (sz div 4)" "m \<le> NPAGES" "1 < k"
  shows "node_inv (Tmk_page_initialize b (zero_node i k sz m)) [] [] []"
proof -
  let ?n = "Tmk_page_initialize b (zero_node i k sz m)"
  have pg: "pg_twin (page_array ?n p) = 0" "pg_write_notice (page_array ?n p) j = []" for p j
    by (simp_all add: Tmk_page_initialize_def Let_def init_page_def zero_defs)
  have fr: "npages ?n = m" "mem ?n = (\<lambda>_. replicate (sz div 4) 0)" "page_size ?n = sz" "twin_free_list ?n = 0"
    "proc_id ?n = i"
    by (simp_all add: Tmk_page_initialize_def Let_def zero_defs)
  have st: "pg_state (page_array ?n p) = (if b then Valid else if i = 0 then Private else Empty)" if "p < m" for p
    using that assms(2)
    by (simp add: Tmk_page_initialize_def Let_def init_page_def zero_defs inval_head_def page_dirty_def)
  have pr: "protection ?n p = (if b then PROT_READ else if i = 0 then PROT_READ_WRITE else PROT_NONE)" if "p < m" for p
    using that assms(3) by (simp add: Tmk_page_initialize_def Let_def zero_defs mprotect_range_def)
  have "core_inv ?n [] [] []"
    using boot_runs assms(1,2)
    by (simp add: core_defs twin_inv_def pg fr notice_ok_def undiffed_def)
  then show ?thesis by (simp add: node_inv_def fr st pr pg prot_ok_def)
qed

text \<open>A process that has written pages 3 to 5 in its first interval, used by the witnesses below.\<close>

definition writer_interval :: interval where
  "writer_interval = \<lparr>iv_id = 0, iv_vector_time = (\<lambda>_. 0)(0 := 1), iv_ranges = [(3, 5)]\<rparr>"

definition writer_node :: node where
  "writer_node = (zero_node 0 2 4096 16)\<lparr>proc_array := (\<lambda>_. [])(0 := [writer_interval])\<rparr>"

definition reader_node :: node where
  "reader_node = Tmk_page_initialize True (zero_node 1 2 4096 16)"

lemma reader_node_inv: "node_inv reader_node [] [] []"
  unfolding reader_node_def by (rule boot_node_inv) (simp_all add: page_words_ok_def)

lemma reader_node_simps:
  "proc_id reader_node = 1" "npages reader_node = 16" "proc_vector_time reader_node = (\<lambda>_. 0)"
  "pg_state (page_array reader_node 4) = Valid"
  by (simp_all add: reader_node_def Tmk_page_initialize_def Let_def init_page_def zero_defs inval_head_def page_dirty_def)

lemma writer_node_wf:
  "wf_intervals writer_node" "nprocs writer_node = 2"
  "proc_array writer_node i = (if i = 0 then [writer_interval] else [])"
  by (auto simp: wf_intervals_def writer_node_def writer_interval_def wf_interval_def wf_range_unat zero_defs)

lemma writer_requested: "requested writer_node (\<lambda>_. 0) = [writer_interval]"
  by (simp add: requested_def intervals_after_def writer_node_wf numeral_2_eq_2 writer_interval_def)

section \<open>Properties\<close>

lemma interval_create_notices:
  assumes inv: "core_inv n ds is free" and ne: "ds \<noteq> []"
  obtains iv n' where "Tmk_interval_create vt n = Some (vt(proc_id n := vt (proc_id n) + 1), n')"
    "core_inv n' [] is free" "iv_id iv = proc_id n" "iv_vector_time iv = vt(proc_id n := vt (proc_id n) + 1)"
    "range_pages (iv_ranges iv) = covered ds" "proc_array n' (proc_id n) = proc_array n (proc_id n) @ [iv]"
    "\<And>q. pg_write_notice (page_array n' q) (proc_id n) =
       (if q \<in> covered ds then [new_notice iv] else []) @ pg_write_notice (page_array n q) (proc_id n)"
proof -
  from inv have dr: "dirty_runs n ds" by (simp add: core_inv_def)
  obtain iv h where iv: "iv = \<lparr>iv_id = proc_id n, iv_vector_time = vt(proc_id n := vt (proc_id n) + 1),
      iv_ranges = map (\<lambda>(f, l). (of_nat f, of_nat l)) (rev ds)\<rparr>"
    and create: "Tmk_interval_create vt n = Some (vt(proc_id n := vt (proc_id n) + 1),
       n\<lparr>page_array := push_notices (proc_id n) iv (covered ds)
             (clear_dirty (boundaries ds) (reset_head page_dirty (page_array n))),
         interval_heap := h, proc_array := (proc_array n)(proc_id n := proc_array n (proc_id n) @ [iv])\<rparr>)"
    (is "_ = Some (_, ?n')")
    by (rule interval_create_eq [OF dr ne])
  have small: "unat (of_nat f :: u16) = f \<and> unat (of_nat l :: u16) = l" if "(f, l) \<in> set ds" for f l
    using runs_wfD [OF run_invD(2) [OF dr]] that by fastforce
  then have "range_pages (iv_ranges iv) = covered ds"
    by (force simp: iv range_pages_def covered_def)
  moreover have "iv_id iv = proc_id n" "iv_vector_time iv = vt(proc_id n := vt (proc_id n) + 1)"
    by (simp_all add: iv)
  moreover have "core_inv ?n' [] is free"
    using interval_create_inv [OF inv, of vt] create by auto
  ultimately show ?thesis
    by (intro that [OF create, of iv]) (simp_all add: push_notices_def reset_head_def)
qed

lemma interval_create_lemma:
  assumes "node_inv n ds is free"
  shows "\<exists>vt' n'. Tmk_interval_create vt n = Some (vt', n') \<and> node_inv n' [] is free \<and>
     (if covered ds = {} then vt' = vt \<and> n' = n
      else vt' = vt(proc_id n := vt (proc_id n) + 1) \<and>
        (\<exists>iv. proc_array n' (proc_id n) = proc_array n (proc_id n) @ [iv] \<and> iv_id iv = proc_id n \<and>
           iv_vector_time iv = vt' \<and> range_pages (iv_ranges iv) = covered ds \<and>
           (\<forall>q. pg_write_notice (page_array n' q) (proc_id n) =
              (if q \<in> covered ds then [new_notice iv] else []) @ pg_write_notice (page_array n q) (proc_id n))))"
proof -
  from assms have core: "core_inv n ds is free" by (simp add: node_inv_def)
  obtain vt' n' where c: "Tmk_interval_create vt n = Some (vt', n')" "core_inv n' [] is free" "keeps n n'"
    "\<And>q. pg_twin (page_array n' q) = pg_twin (page_array n q)"
    using interval_create_inv [OF core, of vt] by blast
  have inv': "node_inv n' [] is free" using assms c(2-4) by (simp add: node_inv_def keeps_def)
  have cov: "covered ds = {} \<longleftrightarrow> ds = []"
    using core run_invD(2) [of pg_dirty_toggle page_dirty "page_array n" ds]
    by (cases ds) (force simp: core_inv_def runs_wf_def)+
  have none: "vt' = vt \<and> n' = n" if "ds = []"
    using that c(1) core by (auto simp: Tmk_interval_create_def core_inv_def run_inv_empty)
  have some: "vt' = vt(proc_id n := vt (proc_id n) + 1) \<and>
        (\<exists>iv. proc_array n' (proc_id n) = proc_array n (proc_id n) @ [iv] \<and> iv_id iv = proc_id n \<and>
           iv_vector_time iv = vt' \<and> range_pages (iv_ranges iv) = covered ds \<and>
           (\<forall>q. pg_write_notice (page_array n' q) (proc_id n) =
              (if q \<in> covered ds then [new_notice iv] else []) @ pg_write_notice (page_array n q) (proc_id n)))"
    if "ds \<noteq> []"
  proof (rule interval_create_notices [OF core that, of vt], goal_cases)
    case (1 iv m)
    with c(1) have "vt' = vt(proc_id n := vt (proc_id n) + 1)" "m = n'" by simp_all
    with 1 show ?case by (intro conjI exI [of _ iv]) simp_all
  qed
  show ?thesis
  proof (cases "ds = []")
    case True
    with none c(1) inv' cov show ?thesis by simp
  next
    case False
    then have ne: "covered ds \<noteq> {}" using cov by simp
    show ?thesis
      by (intro exI [of _ vt'] exI [of _ n'] conjI, rule c(1), rule inv', subst if_not_P, rule ne, rule some [OF False])
  qed
qed

text \<open>
  C3: Ending an interval turns the dirty pages, and only those, into the write notices of a new
  interval: it is stamped with the vector time whose own entry was incremented, its ranges
  name exactly the dirty pages, each of them gets one write notice for it, and the dirty list
  is empty afterwards.  Without dirty pages nothing happens.  The walk over the list ends.
\<close>

theorem interval_create_covers:
  assumes "node_inv n ds is free"
  shows "\<exists>vt' n'. Tmk_interval_create vt n = Some (vt', n') \<and> node_inv n' [] is free \<and>
     (if covered ds = {} then vt' = vt \<and> n' = n
      else vt' = vt(proc_id n := vt (proc_id n) + 1) \<and>
        (\<exists>iv. proc_array n' (proc_id n) = proc_array n (proc_id n) @ [iv] \<and> iv_id iv = proc_id n \<and>
           iv_vector_time iv = vt' \<and> range_pages (iv_ranges iv) = covered ds \<and>
           (\<forall>q. pg_write_notice (page_array n' q) (proc_id n) =
              (if q \<in> covered ds then [new_notice iv] else []) @ pg_write_notice (page_array n q) (proc_id n))))"
  by (rule interval_create_lemma [OF assms])

text \<open>
  What a receiver expects of the process it asks: well-formed records in order of creation,
  pages inside the table, and no record of the receiver that the receiver does not have.
\<close>

definition peer_ok :: "'a node_scheme \<Rightarrow> 'b node_scheme \<Rightarrow> bool" where
  "peer_ok n m \<longleftrightarrow> wf_intervals m \<and>
     (\<forall>i < max 1 (nprocs m). sorted_wrt (\<lambda>a b. iv_vector_time a i < iv_vector_time b i) (proc_array m i) \<and>
        (\<forall>iv \<in> set (proc_array m i). ranges_fit (npages n) (iv_ranges iv))) \<and>
     (\<forall>iv \<in> set (proc_array m (proc_id n)). iv_vector_time iv (proc_id n) \<le> proc_vector_time n (proc_id n))"

lemma peer_receivable:
  assumes "peer_ok n m"
  shows "receivable n (requested m (proc_vector_time n))"
proof -
  from assms have wf: "wf_intervals m" by (simp add: peer_ok_def)
  have new: "iv_id iv < max 1 (nprocs m) \<and> iv \<in> set (proc_array m (iv_id iv)) \<and>
      proc_vector_time n (iv_id iv) < iv_vector_time iv (iv_id iv)"
    if "iv \<in> set (requested m (proc_vector_time n))" for iv
    using that wf intervals_after_subset [of m]
    by (fastforce simp: requested_def wf_intervals_def wf_interval_def intervals_after_def dest: set_takeWhileD)
  show ?thesis
    unfolding receivable_def
  proof (intro conjI ballI)
    fix iv assume "iv \<in> set (requested m (proc_vector_time n))"
    note iv = new [OF this]
    from iv show "proc_vector_time n (iv_id iv) < iv_vector_time iv (iv_id iv)" by simp
    from iv assms show "ranges_fit (npages n) (iv_ranges iv)" by (auto simp: peer_ok_def)
    from iv wf show "wf_interval (iv_id iv) iv" by (auto simp: wf_intervals_def)
    from iv assms show "iv_id iv \<noteq> proc_id n" by (auto simp: peer_ok_def leD)
  qed (use requested_sorted [OF wf] assms in \<open>auto simp: peer_ok_def\<close>)
qed

lemma acquire_lemma:
  assumes inv: "node_inv n ds [] free" and arg: "arg \<noteq> Vt_null"
    and peer: "peer_ok n m"
  defines "new \<equiv> requested m (proc_vector_time n)"
  shows "\<exists>arg' n' ds' free'.
     Tmk_interval_incorporate (Tmk_interval_request m (proc_vector_time n)) arg n = Some (arg', n') \<and>
     node_inv n' ds' [] free' \<and> mem n' = mem n \<and>
     (\<forall>iv \<in> set new. \<forall>p \<in> range_pages (iv_ranges iv). pg_state (page_array n' p) \<noteq> Valid) \<and>
     (\<forall>iv \<in> set new. \<forall>p \<in> range_pages (iv_ranges iv). pg_state (page_array n p) = Valid \<longrightarrow> protection n' p = PROT_NONE) \<and>
     (\<forall>p. (\<forall>iv \<in> set new. p \<notin> range_pages (iv_ranges iv)) \<longrightarrow>
        pg_state (page_array n' p) = pg_state (page_array n p) \<and> protection n' p = protection n p) \<and>
     (\<forall>i. i \<noteq> proc_id n \<longrightarrow> proc_array n' i = proc_array n i @ map norm_interval (filter (\<lambda>iv. iv_id iv = i) new))"
proof -
  let ?S = "\<Union>iv \<in> set new. range_pages (iv_ranges iv)"
  from peer have wf: "wf_intervals m" by (simp add: peer_ok_def)
  have "receivable n new" using peer_receivable [OF peer] by (simp add: new_def)
  then have "received arg n [] (map norm_interval new) (receive_intervals new (arg, n))"
    using received_intervals [OF inv] arg by simp
  then obtain arg1 n1 ds1 is1 free1 where 1: "receive_intervals new (arg, n) = Some (arg1, n1)"
    "node_inv n1 ds1 is1 free1" "base_setup n n1" "arg1 \<noteq> Vt_null"
    "invalidated n [] n1 is1 (\<Union>iv \<in> set (map norm_interval new). range_pages (iv_ranges iv))"
    "\<And>i. i \<noteq> proc_id n \<Longrightarrow> proc_array n1 i = proc_array n i @ filter (\<lambda>iv. iv_id iv = i) (map norm_interval new)"
    unfolding received_def using arg by blast
  have st: "invalidated n [] n1 is1 ?S" using 1(5) by simp
  obtain n' where 2: "Tmk_page_inval_perform n1 = Some n'" "node_inv n' ds1 [] free1"
    "\<And>q. pg_state (page_array n' q) = pg_state (page_array n1 q)"
    "\<And>q. protection n' q = (if q \<in> covered is1 then PROT_NONE else protection n1 q)"
    "mem n' = mem n1" "proc_array n' = proc_array n1"
    using inval_perform_inv [OF 1(2)] by metis
  have "Tmk_interval_incorporate (Tmk_interval_request m (proc_vector_time n)) arg n = Some (arg1, n')"
    using 1(1,4) 2(1) request_incorporate_lemma [OF wf, of "proc_vector_time n" "(arg, n)"]
    by (simp add: Tmk_interval_incorporate_def new_def)
  moreover have "filter (\<lambda>iv. iv_id iv = i) (map norm_interval new) = map norm_interval (filter (\<lambda>iv. iv_id iv = i) new)" for i
    by (simp add: filter_map comp_def)
  ultimately show ?thesis
    using 1(3,6) 2 st
    by (intro exI [of _ arg1] exI [of _ n'] exI [of _ ds1] exI [of _ free1])
       (auto simp: base_setup_def invalidated_def)
qed



end
