(* ===== verification/Tmk_Diff_Request.thy ===== *)
theory Tmk_Diff_Request
  imports Tmk_Interval
begin

text \<open>
  Asking other processes for the diffs of a page, \<^verbatim>\<open>Tmk_diff_request\<close> of
  \<^verbatim>\<open>Tmk/src/diff.c\<close>: the write notices without a diff are sorted by an insertion sort that
  respects the order of the intervals, cut into requests, each for a process that knows all the
  intervals of the request, and the diffs are applied as they arrive.  A write notice of the
  page is named by its process and its position in that process's list.
\<close>

type_synonym wref = "nat \<times> nat"

section \<open>Sorting the write notices\<close>

definition ref_interval :: "page \<Rightarrow> wref \<Rightarrow> interval" where
  "ref_interval pg r = wn_interval (pg_write_notice pg (fst r) ! snd r)"

text \<open>
  The test of the sort: \<open>interval->vector_time_[k] < write_[j]->interval->vector_time_[k]\<close> with
  \<open>k\<close> the creator of the second interval: the first interval has not seen the second.
\<close>

definition unseen :: "interval \<Rightarrow> interval \<Rightarrow> bool" where
  "unseen iv iv' \<longleftrightarrow> iv_vector_time iv (iv_id iv') < iv_vector_time iv' (iv_id iv')"

text \<open>The loop at label \<^verbatim>\<open>next_j\<close>; the zero interval at the end of \<^verbatim>\<open>write_\<close> always stops it.\<close>

function next_j :: "(wref \<Rightarrow> interval) \<Rightarrow> interval \<Rightarrow> wref list \<Rightarrow> nat \<Rightarrow> nat" where
  "next_j iv w ws j = (if j < length ws \<and> unseen w (iv (ws ! j)) then next_j iv w ws (j + 1) else j)"
  by pat_completeness auto
termination
  by (relation "measure (\<lambda>(iv, w, ws, j). length ws - j)") auto

declare next_j.simps [simp del]

lemma next_j_eval:
  "length ws \<le> j \<Longrightarrow> next_j iv w ws j = j"
  "j < length ws \<Longrightarrow> \<not> unseen w (iv (ws ! j)) \<Longrightarrow> next_j iv w ws j = j"
  "j < length ws \<Longrightarrow> unseen w (iv (ws ! j)) \<Longrightarrow> next_j iv w ws j = next_j iv w ws (Suc j)"
  by (subst next_j.simps; simp)+

text \<open>The write notices of one process, newest first; \<open>j\<close> moves past the one just inserted.\<close>

fun insert_notices :: "(wref \<Rightarrow> interval) \<Rightarrow> wref list \<Rightarrow> nat \<Rightarrow> wref list \<Rightarrow> wref list" where
  "insert_notices iv ws j [] = ws"
| "insert_notices iv ws j (r # rs) =
     (let j = next_j iv (iv r) ws j
      in insert_notices iv (take j ws @ r # drop j ws) (j + 1) rs)"

text \<open>The notices the inner loop visits: those without a diff at the front of the list.\<close>

definition pending :: "page \<Rightarrow> nat \<Rightarrow> wref list" where
  "pending pg i = map (Pair i) [0..<length (takeWhile (\<lambda>w. wn_diff w = None) (pg_write_notice pg i))]"

definition sort_notices :: "nat \<Rightarrow> page \<Rightarrow> wref list" where
  "sort_notices np pg = fold (\<lambda>i ws. insert_notices (ref_interval pg) ws 0 (pending pg i)) [0..<max 1 np] []"

section \<open>Cutting the list into requests\<close>

text \<open>
  The loop at label \<^verbatim>\<open>redo\<close>: the next interval to emit (\<^verbatim>\<open>dom\<close>) that has seen all intervals
  between it and the last one emitted, or \<open>None\<close> (\<^verbatim>\<open>goto xmit\<close>).
\<close>

definition dominates :: "(wref \<Rightarrow> interval) \<Rightarrow> wref list \<Rightarrow> nat \<Rightarrow> nat \<Rightarrow> bool" where
  "dominates iv ws n dm = list_all (\<lambda>i. \<not> unseen (iv (ws ! dm)) (iv (ws ! i))) [dm + 1..<n + 2]"

fun redo :: "(wref \<Rightarrow> interval) \<Rightarrow> wref list \<Rightarrow> nat \<Rightarrow> nat \<Rightarrow> nat option" where
  "redo iv ws n dm =
     (if dominates iv ws n dm then Some dm
      else case dm of 0 \<Rightarrow> None | Suc d \<Rightarrow> redo iv ws n d)"

declare redo.simps [simp del]

text \<open>
  One request.  The counters \<^verbatim>\<open>n\<close> and \<^verbatim>\<open>dom\<close> of the code, which may reach -1, are shifted by one:
  \<open>n\<close> and \<open>dm\<close> here are the numbers of notices not yet emitted.  The inner loop emits
  \<^verbatim>\<open>write_[n]\<close> down to \<^verbatim>\<open>write_[dom + 1]\<close>.
\<close>

definition emit :: "wref list \<Rightarrow> nat \<Rightarrow> nat \<Rightarrow> wref list" where
  "emit ws n dm = rev (drop dm (take n ws))"

function diff_group :: "(wref \<Rightarrow> interval) \<Rightarrow> wref list \<Rightarrow> nat \<Rightarrow> nat \<Rightarrow> wref list \<Rightarrow> wref list \<times> nat" where
  "diff_group iv ws n dm data =
     (if n \<le> dm then (data, n)
      else
        (let data = data @ emit ws n dm
         in if dm = 0 then (data, 0)
            else case redo iv ws (dm - 1) (dm - 1) of
                   None \<Rightarrow> (data, dm)
                 | Some d \<Rightarrow> diff_group iv ws dm (min (d + 1) (dm - 1)) data))"
  by pat_completeness auto
termination
  by (relation "measure (\<lambda>(iv, ws, n, dm, data). n)") auto

declare diff_group.simps [simp del]

lemma diff_group_less: "n > dm \<Longrightarrow> snd (diff_group iv ws n dm data) < n"
proof (induction iv ws n dm data rule: diff_group.induct)
  case (1 iv ws n dm data)
  show ?case
  proof (cases "dm = 0 \<or> redo iv ws (dm - 1) (dm - 1) = None")
    case True
    with "1.prems" show ?thesis by (subst diff_group.simps) (auto simp: Let_def)
  next
    case False
    then obtain d where d: "dm \<noteq> 0" "redo iv ws (dm - 1) (dm - 1) = Some d" by auto
    have "snd (diff_group iv ws dm (min (d + 1) (dm - 1)) (data @ emit ws n dm)) < dm"
      using "1.IH" "1.prems" d by simp
    with d "1.prems" show ?thesis by (subst diff_group.simps) (simp add: Let_def)
  qed
qed

text \<open>All requests for the first \<open>n\<close> notices: each goes to the creator of the last interval it names.\<close>

function diff_groups :: "(wref \<Rightarrow> interval) \<Rightarrow> wref list \<Rightarrow> nat \<Rightarrow> wref list list" where
  "diff_groups iv ws n =
     (if n = 0 then []
      else let (data, n') = diff_group iv ws n (n - 1) [] in data # diff_groups iv ws n')"
  by pat_completeness auto
termination
proof (relation "measure (\<lambda>(iv, ws, n). n)", goal_cases)
  case (2 iv ws n x data n')
  then show ?case using diff_group_less [of "n - 1" n iv ws "[]"] by (metis diff_less in_measure case_prod_conv
      neq0_conv snd_conv zero_less_one)
qed simp

declare diff_groups.simps [simp del]

definition request_to :: "(wref \<Rightarrow> interval) \<Rightarrow> wref list \<Rightarrow> nat" where
  "request_to iv data = iv_id (iv (last data))"

section \<open>Receiving the diffs\<close>

text \<open>
  The replies to one request, as the payloads of its messages: the next diff is applied; the
  request is finished with its last notice, otherwise an exhausted message is followed by the
  next one.  The diff of each notice is the part of the message that \<^const>\<open>diff_apply\<close> consumed.
\<close>

fun receive_diffs ::
  "wref list \<Rightarrow> u32 list list \<Rightarrow> u32 list \<Rightarrow> ((wref \<times> u32 list) list \<times> u32 list \<times> u32 list list) option" where
  "receive_diffs [] msgs page = Some ([], page, msgs)"
| "receive_diffs (r # rs) [] page = None"
| "receive_diffs (r # rs) (m # msgs) page =
     (case diff_apply page m of
        None \<Rightarrow> None
      | Some (page', rest) \<Rightarrow>
          (let d = take (length m - length rest) m
           in if rs = [] then Some ([(r, d)], page', msgs)
              else map_option (\<lambda>(ds, p). ((r, d) # ds, p))
                     (receive_diffs rs (if rest = [] then msgs else rest # msgs) page')))"

fun receive_groups ::
  "wref list list \<Rightarrow> u32 list list \<Rightarrow> u32 list \<Rightarrow> ((wref \<times> u32 list) list \<times> u32 list \<times> u32 list list) option" where
  "receive_groups [] msgs page = Some ([], page, msgs)"
| "receive_groups (g # gs) msgs page =
     Option.bind (receive_diffs g msgs page) (\<lambda>(ds, page, msgs).
       map_option (\<lambda>(ds', p). (ds @ ds', p)) (receive_groups gs msgs page))"

text \<open>The statistics and the heap of received diffs, per message.\<close>

definition count_reply :: "u32 list \<Rightarrow> 'a node_scheme \<Rightarrow> 'a node_scheme" where
  "count_reply m n =
     (upd_stat (\<lambda>s. s\<lparr>messages := messages s + 1, bytes := bytes s + of_nat (4 * length m + 4),
                      bytes_of_data := bytes_of_data s + of_nat (4 * length m)\<rparr>) n)
       \<lparr>diff_heap_2 := heap_bump diff_limit (4 * length m) (diff_heap_2 n)\<rparr>"

definition Tmk_diff_request :: "page_t \<Rightarrow> u32 list list \<Rightarrow> 'a node_scheme \<Rightarrow> 'a node_scheme option" where
  "Tmk_diff_request p msgs n =
     (let pg = page_array n p; iv = ref_interval pg; ws = sort_notices (nprocs n) pg
      in case receive_groups (diff_groups iv ws (length ws)) msgs (mem n p) of
           None \<Rightarrow> None
         | Some (ds, page, rest) \<Rightarrow>
             (let n = fold count_reply (take (length msgs - length rest) msgs) n;
                  n = fold (\<lambda>(r, d). upd_page p (set_notice_diff (fst r) (snd r) d)) ds n
              in Some (n\<lparr>mem := (mem n)(p := page)\<rparr>)))"

section \<open>The sort respects causality\<close>

text \<open>
  Consistent vector times on a set of write notices: having seen an interval is transitive, of
  two notices at most one has seen the other, and a notice has seen the older ones of its own
  process (which have higher positions).
\<close>

definition causal :: "(wref \<Rightarrow> interval) \<Rightarrow> wref set \<Rightarrow> bool" where
  "causal iv R \<longleftrightarrow>
     (\<forall>a \<in> R. \<forall>b \<in> R. \<forall>c \<in> R. \<not> unseen (iv a) (iv b) \<longrightarrow> \<not> unseen (iv b) (iv c) \<longrightarrow> \<not> unseen (iv a) (iv c)) \<and>
     (\<forall>a \<in> R. \<forall>b \<in> R. a \<noteq> b \<longrightarrow> unseen (iv a) (iv b) \<or> unseen (iv b) (iv a)) \<and>
     (\<forall>i k l. (i, k) \<in> R \<longrightarrow> (i, l) \<in> R \<longrightarrow> k < l \<longrightarrow> \<not> unseen (iv (i, k)) (iv (i, l)))"

lemma causalD:
  assumes "causal iv R"
  shows "a \<in> R \<Longrightarrow> b \<in> R \<Longrightarrow> c \<in> R \<Longrightarrow> \<not> unseen (iv a) (iv b) \<Longrightarrow> \<not> unseen (iv b) (iv c) \<Longrightarrow> \<not> unseen (iv a) (iv c)"
    and "a \<in> R \<Longrightarrow> b \<in> R \<Longrightarrow> a \<noteq> b \<Longrightarrow> unseen (iv a) (iv b) \<or> unseen (iv b) (iv a)"
    and "(i, k) \<in> R \<Longrightarrow> (i, l) \<in> R \<Longrightarrow> k < l \<Longrightarrow> \<not> unseen (iv (i, k)) (iv (i, l))"
  using assms unfolding causal_def by blast+

lemma seen_refl [simp]: "\<not> unseen a a"
  by (simp add: unseen_def)

text \<open>Newest first: no notice has seen one that stands before it.\<close>

abbreviation newest_first :: "(wref \<Rightarrow> interval) \<Rightarrow> wref list \<Rightarrow> bool" where
  "newest_first iv \<equiv> sorted_wrt (\<lambda>a b. unseen (iv b) (iv a))"

lemma next_j_spec:
  assumes "j \<le> length ws" "\<And>k. k < j \<Longrightarrow> unseen w (iv (ws ! k))"
  shows "j \<le> next_j iv w ws j \<and> next_j iv w ws j \<le> length ws \<and>
     (\<forall>k < next_j iv w ws j. unseen w (iv (ws ! k))) \<and>
     (next_j iv w ws j < length ws \<longrightarrow> \<not> unseen w (iv (ws ! next_j iv w ws j)))"
  using assms
proof (induction iv w ws j rule: next_j.induct)
  case (1 iv w ws j)
  show ?case
  proof (cases "j < length ws \<and> unseen w (iv (ws ! j))")
    case True
    then have "unseen w (iv (ws ! k))" if "k < j + 1" for k
      using "1.prems"(2) that by (cases "k = j") auto
    moreover have "next_j iv w ws j = next_j iv w ws (j + 1)"
      using True by (subst next_j.simps) simp
    ultimately show ?thesis using "1.IH" True by auto
  next
    case False
    then have "next_j iv w ws j = j" by (subst next_j.simps) auto
    with False "1.prems" show ?thesis by auto
  qed
qed

lemma insert_newest_first:
  assumes c: "causal iv R" and sorted: "newest_first iv ws" and R: "set ws \<subseteq> R" "r \<in> R" "r \<notin> set ws"
    and j: "j \<le> length ws" "\<And>k. k < j \<Longrightarrow> unseen (iv r) (iv (ws ! k))"
    and stop: "j < length ws \<Longrightarrow> \<not> unseen (iv r) (iv (ws ! j))"
  shows "newest_first iv (take j ws @ r # drop j ws)"
proof -
  have parts: "newest_first iv (take j ws)" "newest_first iv (drop j ws)"
    "\<And>a b. a \<in> set (take j ws) \<Longrightarrow> b \<in> set (drop j ws) \<Longrightarrow> unseen (iv b) (iv a)"
    using sorted sorted_wrt_append [of "\<lambda>a b. unseen (iv b) (iv a)" "take j ws" "drop j ws"] by simp_all
  have before: "unseen (iv r) (iv a)" if "a \<in> set (take j ws)" for a
    using that j by (auto simp: in_set_conv_nth)
  have after: "unseen (iv z) (iv r)" if z: "z \<in> set (drop j ws)" for z
  proof (rule ccontr)
    assume zr: "\<not> unseen (iv z) (iv r)"
    from z have len: "j < length ws" by (cases "j < length ws") auto
    define y ys where "y = ws ! j" and "ys = drop (Suc j) ws"
    have d: "drop j ws = y # ys" using len by (simp add: y_def ys_def Cons_nth_drop_Suc)
    have ry: "\<not> unseen (iv r) (iv y)" using stop len by (simp add: y_def)
    have in_R: "z \<in> R" "y \<in> R" using in_set_dropD [OF z] R(1) len by (auto simp: y_def)
    have "\<not> unseen (iv z) (iv y)" using causalD(1) [OF c in_R(1) R(2) in_R(2) zr ry] .
    moreover have "unseen (iv z) (iv y) \<or> z = y" using parts(2) z by (auto simp: d)
    ultimately have zy: "z = y" by blast
    have "z \<noteq> r" using z R(3) by (auto dest: in_set_dropD)
    from causalD(2) [OF c in_R(1) R(2) this] zr ry zy show False by simp
  qed
  have "\<forall>x \<in> set (take j ws). \<forall>y \<in> set (r # drop j ws). unseen (iv y) (iv x)"
    using parts(3) before by (metis set_ConsD)
  then show ?thesis using parts(1,2) after by (simp add: sorted_wrt_append)
qed

lemma insert_notices_newest_first:
  assumes c: "causal iv R" and "newest_first iv ws" "distinct ws" "set ws \<subseteq> R" "(\<lambda>k. (i, k)) ` set ks \<subseteq> R"
    and "sorted_wrt (<) ks" "set ws \<inter> (\<lambda>k. (i, k)) ` set ks = {}"
    and "j \<le> length ws" "\<And>m k. k \<in> set ks \<Longrightarrow> m < j \<Longrightarrow> unseen (iv (i, k)) (iv (ws ! m))"
  shows "newest_first iv (insert_notices iv ws j (map (Pair i) ks)) \<and>
     distinct (insert_notices iv ws j (map (Pair i) ks)) \<and>
     set (insert_notices iv ws j (map (Pair i) ks)) = set ws \<union> (\<lambda>k. (i, k)) ` set ks"
  using assms(2-)
proof (induction ks arbitrary: ws j)
  case (Cons k ks)
  let ?r = "(i, k)"
  define j' where "j' = next_j iv (iv ?r) ws j"
  define ws' where "ws' = take j' ws @ ?r # drop j' ws"
  have j': "j' \<le> length ws" "\<And>m. m < j' \<Longrightarrow> unseen (iv ?r) (iv (ws ! m))"
    "j' < length ws \<Longrightarrow> \<not> unseen (iv ?r) (iv (ws ! j'))"
    using next_j_spec [of j ws "iv ?r" iv] Cons.prems(7,8) by (auto simp: j'_def)
  have r: "?r \<in> R" "?r \<notin> set ws" using Cons.prems(4,6) by auto
  have sorted: "newest_first iv ws'"
    unfolding ws'_def using insert_newest_first [OF c Cons.prems(1,3) r j'(1,2,3)] by blast
  have set': "set ws' = insert ?r (set ws)"
    unfolding ws'_def by (metis Un_insert_right append_take_drop_id list.simps(15) set_append)
  have dist: "distinct ws'"
    using Cons.prems(2) r(2) distinct_append [of "take j' ws" "drop j' ws"]
    by (auto simp: ws'_def dest: in_set_takeD in_set_dropD)
  have older: "unseen (iv (i, l)) (iv (ws' ! m))" if l: "l \<in> set ks" and m: "m < j' + 1" for l m
  proof -
    have kl: "k < l" "(i, l) \<in> R" using Cons.prems(4,5) l by auto
    have newer: "\<not> unseen (iv ?r) (iv (i, l))" using causalD(3) [OF c r(1) kl(2,1)] .
    show ?thesis
    proof (cases "m = j'")
      case True
      then have "ws' ! m = ?r" using j'(1) by (simp add: ws'_def nth_append)
      with causalD(2) [OF c r(1) kl(2)] newer kl(1) show ?thesis by auto
    next
      case False
      with m have m': "m < j'" by simp
      then have w: "ws' ! m = ws ! m" "ws ! m \<in> R" using j'(1) Cons.prems(3) by (auto simp: ws'_def nth_append)
      have "unseen (iv ?r) (iv (ws ! m))" using j'(2) [OF m'] .
      with causalD(1) [OF c r(1) kl(2) w(2) newer] w(1) show ?thesis by auto
    qed
  qed
  have "newest_first iv (insert_notices iv ws' (j' + 1) (map (Pair i) ks)) \<and>
     distinct (insert_notices iv ws' (j' + 1) (map (Pair i) ks)) \<and>
     set (insert_notices iv ws' (j' + 1) (map (Pair i) ks)) = set ws' \<union> (\<lambda>k. (i, k)) ` set ks"
    using Cons.prems j'(1) set'
    by (intro Cons.IH sorted dist older) (auto simp: ws'_def)
  moreover have "insert_notices iv ws j (map (Pair i) (k # ks)) = insert_notices iv ws' (j' + 1) (map (Pair i) ks)"
    by (simp add: Let_def j'_def ws'_def)
  ultimately show ?case using set' by auto
qed simp

definition all_pending :: "nat \<Rightarrow> page \<Rightarrow> wref set" where
  "all_pending np pg = (\<Union>i < max 1 np. set (pending pg i))"

lemma sort_notices_spec:
  assumes c: "causal (ref_interval pg) (all_pending np pg)"
  shows "newest_first (ref_interval pg) (sort_notices np pg) \<and> distinct (sort_notices np pg) \<and>
     set (sort_notices np pg) = all_pending np pg"
proof -
  let ?iv = "ref_interval pg"
  let ?ins = "\<lambda>i ws. insert_notices ?iv ws 0 (pending pg i)"
  have "newest_first ?iv (fold ?ins [0..<m] []) \<and> distinct (fold ?ins [0..<m] []) \<and>
      set (fold ?ins [0..<m] []) = (\<Union>i < m. set (pending pg i))" if "m \<le> max 1 np" for m
    using that
  proof (induction m)
    case (Suc m)
    let ?ws = "fold ?ins [0..<m] []"
    let ?ks = "[0..<length (takeWhile (\<lambda>w. wn_diff w = None) (pg_write_notice pg m))]"
    from Suc have IH: "newest_first ?iv ?ws" "distinct ?ws" "set ?ws = (\<Union>i < m. set (pending pg i))" by auto
    have fsts: "fst r = i" if "r \<in> set (pending pg i)" for r i using that by (auto simp: pending_def)
    have "newest_first ?iv (insert_notices ?iv ?ws 0 (map (Pair m) ?ks)) \<and>
       distinct (insert_notices ?iv ?ws 0 (map (Pair m) ?ks)) \<and>
       set (insert_notices ?iv ?ws 0 (map (Pair m) ?ks)) = set ?ws \<union> (\<lambda>k. (m, k)) ` set ?ks"
    proof (rule insert_notices_newest_first [OF c IH(1,2)])
      show "set ?ws \<subseteq> all_pending np pg" using IH(3) Suc.prems by (force simp: all_pending_def)
      show "(\<lambda>k. (m, k)) ` set ?ks \<subseteq> all_pending np pg"
        using Suc.prems by (force simp: all_pending_def pending_def)
      show "set ?ws \<inter> (\<lambda>k. (m, k)) ` set ?ks = {}" unfolding IH(3) using fsts by fastforce
    qed simp_all
    moreover have "set (pending pg m) = (\<lambda>k. (m, k)) ` set ?ks" by (simp add: pending_def)
    ultimately show ?case by (simp add: lessThan_Suc IH(3) Un_commute flip: pending_def)
  qed simp
  from this [of "max 1 np"] show ?thesis by (simp add: sort_notices_def all_pending_def)
qed

section \<open>Every request can be answered by its addressee\<close>

definition seen_by :: "(wref \<Rightarrow> interval) \<Rightarrow> wref \<Rightarrow> wref set \<Rightarrow> bool" where
  "seen_by iv r S \<longleftrightarrow> (\<forall>s \<in> S. \<not> unseen (iv r) (iv s))"

definition seen_trans :: "(wref \<Rightarrow> interval) \<Rightarrow> wref set \<Rightarrow> bool" where
  "seen_trans iv R \<longleftrightarrow>
     (\<forall>a \<in> R. \<forall>b \<in> R. \<forall>c \<in> R. \<not> unseen (iv a) (iv b) \<longrightarrow> \<not> unseen (iv b) (iv c) \<longrightarrow> \<not> unseen (iv a) (iv c))"

lemma seen_by_trans:
  assumes "seen_trans iv R" "insert r (insert s S) \<subseteq> R" "\<not> unseen (iv r) (iv s)" "seen_by iv s S"
  shows "seen_by iv r S"
  using assms unfolding seen_by_def seen_trans_def by blast

lemma redo_spec:
  "redo iv ws n dm = Some d \<Longrightarrow> d \<le> dm \<and> dominates iv ws n d"
proof (induction iv ws n dm rule: redo.induct)
  case (1 iv ws n dm)
  show ?case
  proof (cases "dominates iv ws n dm")
    case True
    with "1.prems" show ?thesis by (simp add: redo.simps)
  next
    case False
    with "1.prems" obtain e where e: "dm = Suc e" by (cases dm) (auto simp: redo.simps)
    with "1.prems" False have "redo iv ws n e = Some d" by (simp add: redo.simps [of iv ws n "Suc e"])
    with "1.IH" [OF False e] e show ?thesis by simp
  qed
qed

lemma emit_map: "n \<le> length ws \<Longrightarrow> emit ws n dm = rev (map ((!) ws) [dm..<n])"
  unfolding emit_def by (intro arg_cong [where f = rev] nth_equalityI) auto

lemma emit_last: "dm < n \<Longrightarrow> n \<le> length ws \<Longrightarrow> emit ws n dm \<noteq> [] \<and> last (emit ws n dm) = ws ! dm"
  by (simp add: emit_map last_rev hd_map)

lemma emit_append:
  assumes "d \<le> dm" "dm \<le> n" "n \<le> length ws"
  shows "emit ws n dm @ emit ws dm d = emit ws n d"
proof -
  have "[d..<n] = [d..<dm] @ [dm..<n]" using assms by (metis le_Suc_ex upt_add_eq_append)
  then show ?thesis using assms by (simp add: emit_map)
qed

text \<open>
  While a request is being assembled, either the last notice emitted has seen all of the
  request, or the next one to be emitted has and will be emitted.
\<close>

definition group_inv :: "(wref \<Rightarrow> interval) \<Rightarrow> wref list \<Rightarrow> nat \<Rightarrow> nat \<Rightarrow> wref list \<Rightarrow> bool" where
  "group_inv iv ws n dm data \<longleftrightarrow> dm < n \<and> n \<le> length ws \<and> set data \<subseteq> set ws \<and>
     (dm = n - 1 \<and> seen_by iv (ws ! dm) (set data) \<or>
      0 < dm \<and> seen_by iv (ws ! (dm - 1)) (set data \<union> (!) ws ` {dm..<n}))"

lemma group_inv_step:
  assumes tr: "seen_trans iv (set ws)" and inv: "group_inv iv ws n dm data" and dm: "0 < dm"
  defines "data' \<equiv> data @ emit ws n dm"
  shows "case redo iv ws (dm - 1) (dm - 1) of
           None \<Rightarrow> seen_by iv (ws ! dm) (set data')
         | Some d \<Rightarrow> group_inv iv ws dm (min (d + 1) (dm - 1)) data'"
proof -
  from inv have b: "dm < n" "n \<le> length ws" "set data \<subseteq> set ws" by (auto simp: group_inv_def)
  have set': "set data' = set data \<union> (!) ws ` {dm..<n}" using b by (simp add: data'_def emit_map)
  have sub: "set data' \<subseteq> set ws" using b by (auto simp: set')
  have dom: "dominates iv ws (dm - 1) d \<longleftrightarrow> seen_by iv (ws ! d) ((!) ws ` {d + 1..dm})" for d
    using dm by (auto simp: dominates_def seen_by_def list_all_iff)
  from inv consider (A) "dm = n - 1" "seen_by iv (ws ! dm) (set data)"
    | (B) "seen_by iv (ws ! (dm - 1)) (set data')" by (auto simp: group_inv_def set')
  then show ?thesis
  proof cases
    case A
    have "{dm..<n} = {dm}" using A(1) b(1) by auto
    then have all: "seen_by iv (ws ! dm) (set data')" using A(2) by (simp add: set' seen_by_def)
    show ?thesis
    proof (cases "redo iv ws (dm - 1) (dm - 1)")
      case None
      with all show ?thesis by simp
    next
      case (Some d)
      from redo_spec [OF Some] dom have d: "d \<le> dm - 1" "seen_by iv (ws ! d) ((!) ws ` {d + 1..dm})" by auto
      have "\<not> unseen (iv (ws ! d)) (iv (ws ! dm))" using d dm by (auto simp: seen_by_def)
      moreover have "insert (ws ! d) (insert (ws ! dm) (set data')) \<subseteq> set ws"
        using sub b d(1) by simp
      ultimately have sd: "seen_by iv (ws ! d) (set data')"
        using all by (metis seen_by_trans [OF tr])
      with d have *: "seen_by iv (ws ! d) (set data' \<union> (!) ws ` {d + 1..<dm})" by (auto simp: seen_by_def)
      show ?thesis
      proof (cases "d = dm - 1")
        case True
        then have "min (d + 1) (dm - 1) = dm - 1" by simp
        with True sd Some sub b dm show ?thesis by (simp add: group_inv_def)
      next
        case False
        with d(1) have "min (d + 1) (dm - 1) = d + 1" "d + 1 < dm" by auto
        with * Some sub b show ?thesis by (simp add: group_inv_def)
      qed
    qed
  next
    case B
    have "\<not> unseen (iv (ws ! (dm - 1))) (iv (ws ! dm))" using B b by (auto simp: seen_by_def set')
    then have "seen_by iv (ws ! (dm - 1)) ((!) ws ` {dm - 1 + 1..dm})" using dm by (simp add: seen_by_def)
    then have "dominates iv ws (dm - 1) (dm - 1)" using dom by blast
    then have "redo iv ws (dm - 1) (dm - 1) = Some (dm - 1)" by (subst redo.simps) (rule if_P)
    moreover have "min (dm - 1 + 1) (dm - 1) = dm - 1" by simp
    ultimately show ?thesis using B sub b dm by (simp add: group_inv_def)
  qed
qed

lemma diff_group_spec:
  assumes "seen_trans iv (set ws)" "group_inv iv ws n dm data" "diff_group iv ws n dm data = (g, n')"
  shows "n' < n \<and> g = data @ emit ws n n' \<and> seen_by iv (last g) (set g)"
  using assms
proof (induction iv ws n dm data rule: diff_group.induct)
  case (1 iv ws n dm data)
  let ?data = "data @ emit ws n dm"
  from "1.prems"(2) have b: "dm < n" "n \<le> length ws" by (auto simp: group_inv_def)
  have last': "last ?data = ws ! dm" using emit_last [OF b] by simp
  note step = group_inv_step [OF "1.prems"(1,2)]
  show ?case
  proof (cases "dm = 0")
    case True
    with "1.prems"(3) b have "g = ?data" "n' = 0" by (subst (asm) diff_group.simps; simp add: Let_def)+
    moreover have "n = 1" "seen_by iv (ws ! 0) (set data)"
      using "1.prems"(2) True b by (auto simp: group_inv_def)
    then have "seen_by iv (ws ! dm) (set ?data)"
      using True b by (auto simp: seen_by_def emit_map)
    ultimately show ?thesis using True b last' by simp
  next
    case dm: False
    show ?thesis
    proof (cases "redo iv ws (dm - 1) (dm - 1)")
      case None
      with "1.prems"(3) b dm have "g = ?data" "n' = dm" by (subst (asm) diff_group.simps; simp add: Let_def)+
      with step None dm last' b show ?thesis by simp
    next
      case (Some d)
      let ?d = "min (d + 1) (dm - 1)"
      from "1.prems"(3) b dm Some have call: "diff_group iv ws dm ?d ?data = (g, n')"
        by (subst (asm) diff_group.simps) (simp add: Let_def)
      have gi: "group_inv iv ws dm ?d ?data" using step Some dm by simp
      have nle: "\<not> n \<le> dm" using b by simp
      have r: "n' < dm" "g = ?data @ emit ws dm n'" "seen_by iv (last g) (set g)"
        using "1.IH" [OF nle refl dm Some "1.prems"(1) gi call] by blast+
      have "g = data @ emit ws n n'"
        using r(1,2) emit_append [of n' dm n ws] b by simp
      with r(1,3) b show ?thesis by simp
    qed
  qed
qed

lemma diff_groups_spec:
  assumes tr: "seen_trans iv (set ws)" and "n \<le> length ws"
  shows "concat (diff_groups iv ws n) = rev (take n ws) \<and>
     (\<forall>g \<in> set (diff_groups iv ws n). g \<noteq> [] \<and> seen_by iv (last g) (set g))"
  using assms(2)
proof (induction n rule: less_induct)
  case (less n)
  show ?case
  proof (cases "n = 0")
    case True
    then show ?thesis by (simp add: diff_groups.simps)
  next
    case False
    obtain g n' where g: "diff_group iv ws n (n - 1) [] = (g, n')" by fastforce
    have "group_inv iv ws n (n - 1) []" using False less.prems by (simp add: group_inv_def seen_by_def)
    then have n': "n' < n" "g = emit ws n n'" "seen_by iv (last g) (set g)"
      using diff_group_spec [OF tr _ g] by auto
    have eq: "diff_groups iv ws n = g # diff_groups iv ws n'"
      using False g by (subst diff_groups.simps) simp
    have "emit ws n n' @ rev (take n' ws) = rev (take n ws)"
      using emit_append [of 0 n' n ws] n'(1) less.prems by (simp add: emit_def)
    with less.IH [OF n'(1)] n' less.prems emit_last [of n' n ws] show ?thesis by (auto simp: eq)
  qed
qed

text \<open>Whatever the vector times, the requests name the notices of the list once each.\<close>

lemma diff_group_emit:
  assumes "diff_group iv ws n dm data = (g, n')" "dm < n" "n \<le> length ws"
  shows "n' < n \<and> g = data @ emit ws n n'"
  using assms
proof (induction iv ws n dm data rule: diff_group.induct)
  case (1 iv ws n dm data)
  show ?case
  proof (cases "dm = 0 \<or> redo iv ws (dm - 1) (dm - 1) = None")
    case True
    with "1.prems" show ?thesis by (subst (asm) diff_group.simps) (auto simp: Let_def split: if_splits)
  next
    case False
    then obtain d where d: "dm \<noteq> 0" "redo iv ws (dm - 1) (dm - 1) = Some d" by auto
    with "1.prems" have call: "diff_group iv ws dm (min (d + 1) (dm - 1)) (data @ emit ws n dm) = (g, n')"
      by (subst (asm) diff_group.simps) (simp add: Let_def)
    have "n' < dm \<and> g = (data @ emit ws n dm) @ emit ws dm n'"
      by (rule "1.IH" [OF _ refl d call]) (use "1.prems" d in auto)
    with emit_append [of n' dm n ws] "1.prems" show ?thesis by simp
  qed
qed

lemma diff_groups_concat:
  assumes "n \<le> length ws"
  shows "concat (diff_groups iv ws n) = rev (take n ws) \<and> [] \<notin> set (diff_groups iv ws n)"
  using assms
proof (induction n rule: less_induct)
  case (less n)
  show ?case
  proof (cases "n = 0")
    case False
    obtain g n' where g: "diff_group iv ws n (n - 1) [] = (g, n')" by fastforce
    have n': "n' < n" "g = emit ws n n'"
      using diff_group_emit [OF g] False less.prems by auto
    have eq: "diff_groups iv ws n = g # diff_groups iv ws n'"
      using False g by (subst diff_groups.simps) simp
    have "emit ws n n' @ rev (take n' ws) = rev (take n ws)"
      using emit_append [of 0 n' n ws] n'(1) less.prems by (simp add: emit_def)
    with less.IH [OF n'(1)] n' less.prems emit_last [of n' n ws] show ?thesis by (auto simp: eq)
  qed (simp add: diff_groups.simps)
qed

lemma insert_notices_set: "set (insert_notices iv ws j rs) = set ws \<union> set rs"
proof (induction rs arbitrary: ws j)
  case (Cons r rs)
  have "set (take k ws) \<union> set (drop k ws) = set ws" for k by (metis append_take_drop_id set_append)
  then show ?case by (auto simp: Cons.IH Let_def)
qed simp

lemma sort_notices_set: "set (sort_notices np pg) = all_pending np pg"
proof -
  have "set (fold (\<lambda>i ws. insert_notices iv ws 0 (pending pg i)) is ws) = set ws \<union> (\<Union>i \<in> set is. set (pending pg i))"
    for iv "is" ws by (induction "is" arbitrary: ws) (auto simp: insert_notices_set)
  then show ?thesis by (simp add: sort_notices_def all_pending_def atLeast0LessThan)
qed

section \<open>The order of the requests\<close>

lemma causal_seen_trans: "causal iv R \<Longrightarrow> seen_trans iv R"
  unfolding causal_def seen_trans_def by blast


text \<open>A page that three processes wrote: process 1 after process 0, process 2 on its own.\<close>

definition three_writers :: page where
  "three_writers = zero_page\<lparr>pg_write_notice := (\<lambda>i.
     if i = 0 then [new_notice \<lparr>iv_id = 0, iv_vector_time = (\<lambda>k. if k = 0 then 1 else 0), iv_ranges = []\<rparr>]
     else if i = 1 then [new_notice \<lparr>iv_id = 1, iv_vector_time = (\<lambda>k. if k = 2 then 0 else 1), iv_ranges = []\<rparr>]
     else if i = 2 then [new_notice \<lparr>iv_id = 2, iv_vector_time = (\<lambda>k. if k = 2 then 1 else 0), iv_ranges = []\<rparr>]
     else [])\<rparr>"

lemma three_writers_pending: "all_pending 3 three_writers = {(0, 0), (1, 0), (2, 0)}"
proof -
  have "{..<max 1 3} = {0, 1, 2 :: nat}" by auto
  then show ?thesis by (auto simp: all_pending_def pending_def three_writers_def new_notice_def)
qed

lemma three_writers_unseen:
  assumes "r \<in> {(0, 0), (1, 0), (2, 0)}" "s \<in> {(0, 0), (1, 0), (2, 0)}"
  shows "unseen (ref_interval three_writers r) (ref_interval three_writers s) \<longleftrightarrow> r \<noteq> s \<and> \<not> (r = (1, 0) \<and> s = (0, 0))"
  using assms by (auto simp: ref_interval_def unseen_def three_writers_def new_notice_def)

lemma three_writers_causal: "causal (ref_interval three_writers) (all_pending 3 three_writers)"
  unfolding causal_def three_writers_pending by (simp add: three_writers_unseen)


text \<open>
  C10: Every request goes to a process that can answer it: it is not empty, and the interval
  whose creator receives it has seen all intervals it asks for.
\<close>

theorem diff_request_addressee:
  assumes "seen_trans (ref_interval pg) (set ws)" "g \<in> set (diff_groups (ref_interval pg) ws (length ws))" "r \<in> set g"
  shows "\<exists>s \<in> set g. request_to (ref_interval pg) g = iv_id (ref_interval pg s) \<and>
     iv_vector_time (ref_interval pg r) (iv_id (ref_interval pg r))
       \<le> iv_vector_time (ref_interval pg s) (iv_id (ref_interval pg r))"
proof -
  from diff_groups_spec [OF assms(1)] assms(2) have "g \<noteq> []" "seen_by (ref_interval pg) (last g) (set g)" by auto
  with assms(3) have "last g \<in> set g" "\<not> unseen (ref_interval pg (last g)) (ref_interval pg r)"
    by (auto simp: seen_by_def)
  then show ?thesis by (intro bexI [of _ "last g"]) (simp_all add: request_to_def unseen_def)
qed

lemma three_writers_groups:
  "diff_groups (ref_interval three_writers) [(1, 0), (0, 0), (2, 0)] 3 = [[(2, 0)], [(0, 0), (1, 0)]]"
proof -
  let ?iv = "ref_interval three_writers" and ?ws = "[(1, 0), (0, 0), (2, 0 :: nat)] :: wref list"
  note eval = redo.simps dominates_def emit_def three_writers_unseen upt_rec numeral_2_eq_2
  have 1: "redo ?iv ?ws 1 1 = None" by (simp add: eval)
  have 2: "redo ?iv ?ws 0 0 = Some 0" by (simp add: eval)
  have a: "diff_group ?iv ?ws 3 2 [] = ([(2, 0)], 2)" using 1 by (subst diff_group.simps) (simp add: emit_def numeral_2_eq_2)
  have b: "diff_group ?iv ?ws 2 1 [] = ([(0, 0), (1, 0)], 0)"
    using 2 by (subst diff_group.simps, subst diff_group.simps) (simp add: emit_def numeral_2_eq_2)
  show ?thesis using a b by (subst diff_groups.simps, subst diff_groups.simps, subst diff_groups.simps) simp
qed

theorem diff_request_addressee_witness:
  "diff_groups (ref_interval three_writers) [(1, 0), (0, 0), (2, 0)] 3 = [[(2, 0)], [(0, 0), (1, 0)]] \<and>
   (\<exists>s \<in> {(0, 0), (1, 0)}. request_to (ref_interval three_writers) [(0, 0), (1, 0)] = iv_id (ref_interval three_writers s) \<and>
     iv_vector_time (ref_interval three_writers (0, 0)) (iv_id (ref_interval three_writers (0, 0)))
       \<le> iv_vector_time (ref_interval three_writers s) (iv_id (ref_interval three_writers (0, 0))))"
proof -
  note g = three_writers_groups
  have "seen_trans (ref_interval three_writers) (set [(1, 0), (0, 0), (2, 0)])"
    using causal_seen_trans [OF three_writers_causal] three_writers_pending by (simp add: insert_commute)
  moreover have "[(0, 0), (1, 0)] \<in> set (diff_groups (ref_interval three_writers) [(1, 0), (0, 0), (2, 0)]
      (length [(1, 0), (0, 0), (2, 0 :: nat)]))" using g by (simp add: numeral_3_eq_3)
  ultimately show ?thesis using diff_request_addressee [of three_writers _ "[(0, 0), (1, 0)]" "(0, 0)"] g by fastforce
qed

end
