(* ===== verification/Tmk_Diff_Server.thy ===== *)
theory Tmk_Diff_Server
  imports Tmk_Diff_Request
begin

text \<open>
  Serving diffs, \<^verbatim>\<open>Tmk_diff_sigio_handler\<close> of \<^verbatim>\<open>Tmk/src/diff.c\<close>: diffs that do not exist
  yet are made from page and twin, and the requested diffs are packed into messages of at most
  \<^verbatim>\<open>MTU\<close> bytes and \<^verbatim>\<open>MSG_MAXIOVLEN\<close> pieces.  Together with
  \<^const>\<open>receive_diffs\<close> this is the transport of diffs between two processes.
\<close>

section \<open>Packing\<close>

abbreviation (input) MSG_MAXIOVLEN :: nat where "MSG_MAXIOVLEN \<equiv> 1024"

text \<open>
  The locals \<^verbatim>\<open>size\<close> and \<^verbatim>\<open>j\<close>, the payload gathered in \<^verbatim>\<open>iov[1 ..]\<close>, and the payloads sent
  (each behind its sequence number, which grows by \<^verbatim>\<open>SEQNO_INCR\<close> from one to the next).
\<close>

record pack =
  pk_size :: nat
  pk_j :: nat
  pk_cur :: "u32 list"
  pk_out :: "u32 list list"

definition pack_start :: pack where
  "pack_start = \<lparr>pk_size = 4, pk_j = 1, pk_cur = [], pk_out = []\<rparr>"

definition pack_flush :: "pack \<Rightarrow> pack" where
  "pack_flush s = s\<lparr>pk_out := pk_out s @ [pk_cur s], pk_cur := [], pk_j := 1\<rparr>"

text \<open>
  One diff; \<open>adj\<close> says that it starts in memory where the last piece ends, in which case it
  extends that piece.
\<close>

definition pack_diff :: "bool \<Rightarrow> u32 list \<Rightarrow> pack \<Rightarrow> pack" where
  "pack_diff adj d s =
     (let size = pk_size s + 4 * length d;
          s = (if MTU < size then (pack_flush s)\<lparr>pk_size := 4 + 4 * length d\<rparr> else s\<lparr>pk_size := size\<rparr>)
      in if 2 < pk_j s \<and> adj then s\<lparr>pk_cur := pk_cur s @ d\<rparr>
         else
           (let s = s\<lparr>pk_cur := pk_cur s @ d, pk_j := pk_j s + 1\<rparr>
            in if pk_j s = MSG_MAXIOVLEN then (pack_flush s)\<lparr>pk_size := 4\<rparr> else s))"

definition pack_end :: "pack \<Rightarrow> u32 list list" where
  "pack_end s = pk_out (if 1 < pk_j s then pack_flush s else s)"

section \<open>The handler\<close>

text \<open>The notice of process \<open>pid\<close> created at \<open>time\<close>; running off the list is a null dereference.\<close>

fun find_notice :: "nat \<Rightarrow> u16 \<Rightarrow> write_notice list \<Rightarrow> nat option" where
  "find_notice pid time [] = None"
| "find_notice pid time (w # ws) =
     (if iv_vector_time (wn_interval w) pid = time then Some 0
      else map_option Suc (find_notice pid time ws))"

text \<open>
  The \<^verbatim>\<open>do\<close> loop over the requested pairs of process and time; the flag is
  \<^verbatim>\<open>perform_mprotect_and_free\<close>.
\<close>

fun serve_diffs ::
  "page_t \<Rightarrow> (nat \<times> u16) list \<Rightarrow> bool list \<Rightarrow> bool \<times> pack \<times> 'a node_scheme \<Rightarrow> (bool \<times> pack \<times> 'a node_scheme) option" where
  "serve_diffs p [] adjs s = Some s"
| "serve_diffs p ((pid, time) # reqs) adjs (flag, pk, n) =
     (case find_notice pid time (pg_write_notice (page_array n p) pid) of
        None \<Rightarrow> None
      | Some k \<Rightarrow>
          (case wn_diff (pg_write_notice (page_array n p) pid ! k) of
             Some d \<Rightarrow> serve_diffs p reqs (tl adjs) (flag, pack_diff (adjs \<noteq> [] \<and> hd adjs) d pk, n)
           | None \<Rightarrow>
               Option.bind (Tmk_diff_create p pid k n) (\<lambda>n.
                 case wn_diff (pg_write_notice (page_array n p) pid ! k) of
                   None \<Rightarrow> None
                 | Some d \<Rightarrow> serve_diffs p reqs (tl adjs) (True, pack_diff (adjs \<noteq> [] \<and> hd adjs) d pk, n))))"

definition Tmk_diff_sigio_handler ::
  "page_t \<Rightarrow> (nat \<times> u16) list \<Rightarrow> bool list \<Rightarrow> 'a node_scheme \<Rightarrow> (u32 list list \<times> 'a node_scheme) option" where
  "Tmk_diff_sigio_handler p reqs adjs n =
     map_option (\<lambda>(flag, pk, n).
         (pack_end pk,
          if flag then Tmk_twin_free p (n\<lparr>protection := (protection n)(p := PROT_READ)\<rparr>) else n))
       (serve_diffs p reqs adjs (False, pack_start, n))"

section \<open>Messages respect the size limit and diff boundaries\<close>

text \<open>The payloads sent and gathered so far are the diffs, cut between diffs only.\<close>

definition pack_inv :: "u32 list list \<Rightarrow> pack \<Rightarrow> bool" where
  "pack_inv ds s \<longleftrightarrow> [] \<notin> set ds \<and>
     pk_size s = 4 + 4 * length (pk_cur s) \<and> pk_size s \<le> MTU \<and> (1 < pk_j s \<longleftrightarrow> pk_cur s \<noteq> []) \<and> 1 \<le> pk_j s \<and>
     (\<exists>dss cs. concat dss @ cs = ds \<and> pk_out s = map concat dss \<and> pk_cur s = concat cs \<and>
        (\<forall>g \<in> set dss. g \<noteq> [] \<and> 4 + 4 * length (concat g) \<le> MTU))"

lemma pack_start_inv: "pack_inv [] pack_start"
  by (simp add: pack_inv_def pack_start_def)

lemma pack_flush_inv:
  assumes "pack_inv ds s" "pk_cur s \<noteq> []"
  shows "pack_inv ds ((pack_flush s)\<lparr>pk_size := 4\<rparr>)"
proof -
  from assms obtain dss cs where d: "concat dss @ cs = ds" "pk_out s = map concat dss" "pk_cur s = concat cs"
    "\<forall>g \<in> set dss. g \<noteq> [] \<and> 4 + 4 * length (concat g) \<le> MTU" by (auto simp: pack_inv_def)
  have "cs \<noteq> []" "4 + 4 * length (concat cs) \<le> MTU" using assms d(3) by (auto simp: pack_inv_def)
  with d have "concat (dss @ [cs]) @ [] = ds \<and> pk_out s @ [pk_cur s] = map concat (dss @ [cs]) \<and>
      (\<forall>g \<in> set (dss @ [cs]). g \<noteq> [] \<and> 4 + 4 * length (concat g) \<le> MTU)" by simp
  moreover have "[] \<notin> set ds" using assms by (simp add: pack_inv_def)
  ultimately show ?thesis unfolding pack_inv_def pack_flush_def
    by (intro conjI exI [of _ "dss @ [cs]"] exI [of _ "[]"]) simp_all
qed

lemma pack_add_inv:
  assumes "pack_inv ds s" "d \<noteq> []" "pk_size s + 4 * length d \<le> MTU" "1 < j"
  shows "pack_inv (ds @ [d]) (s\<lparr>pk_size := pk_size s + 4 * length d, pk_cur := pk_cur s @ d, pk_j := j\<rparr>)"
proof -
  from assms obtain dss cs where d: "concat dss @ cs = ds" "pk_out s = map concat dss" "pk_cur s = concat cs"
    "\<forall>g \<in> set dss. g \<noteq> [] \<and> 4 + 4 * length (concat g) \<le> MTU" by (auto simp: pack_inv_def)
  with assms show ?thesis
    unfolding pack_inv_def by (intro conjI exI [of _ dss] exI [of _ "cs @ [d]"]) auto
qed

lemma pack_diff_inv:
  assumes inv: "pack_inv ds s" and d: "d \<noteq> []" "4 + 4 * length d \<le> MTU"
  shows "pack_inv (ds @ [d]) (pack_diff adj d s)"
proof -
  define s1 where "s1 = (if MTU < pk_size s + 4 * length d then (pack_flush s)\<lparr>pk_size := 4\<rparr> else s)"
  have "pk_cur s \<noteq> []" if "MTU < pk_size s + 4 * length d"
  proof -
    from inv have "pk_size s = 4 + 4 * length (pk_cur s)" by (simp add: pack_inv_def)
    with that d show ?thesis by auto
  qed
  then have s1: "pack_inv ds s1" using inv pack_flush_inv by (auto simp: s1_def)
  have fit: "pk_size s1 + 4 * length d \<le> MTU" using d by (auto simp: s1_def)
  have j: "1 \<le> pk_j s1" using s1 by (simp add: pack_inv_def)
  let ?add = "\<lambda>j. s1\<lparr>pk_size := pk_size s1 + 4 * length d, pk_cur := pk_cur s1 @ d, pk_j := j\<rparr>"
  have eq: "pack_diff adj d s =
      (if 2 < pk_j s1 \<and> adj then ?add (pk_j s1)
       else if pk_j s1 + 1 = MSG_MAXIOVLEN then (pack_flush (?add (pk_j s1 + 1)))\<lparr>pk_size := 4\<rparr> else ?add (pk_j s1 + 1))"
    by (simp add: pack_diff_def s1_def Let_def pack_flush_def)
  have add: "pack_inv (ds @ [d]) (?add k)" if "1 < k" for k using pack_add_inv [OF s1 d(1) fit that] .
  show ?thesis
  proof (cases "2 < pk_j s1 \<and> adj")
    case True
    show ?thesis unfolding eq if_P [OF True] by (rule add) (use True in simp)
  next
    case False
    have "pack_inv (ds @ [d]) (?add (pk_j s1 + 1))" by (rule add) (use j in simp)
    moreover from this have "pack_inv (ds @ [d]) ((pack_flush (?add (pk_j s1 + 1)))\<lparr>pk_size := 4\<rparr>)"
      by (rule pack_flush_inv) (use d(1) in simp)
    ultimately show ?thesis unfolding eq if_not_P [OF False] by (rule if_split [THEN iffD2, OF conjI, OF impI impI, rotated])
  qed
qed

lemma pack_end_inv:
  assumes inv: "pack_inv ds s"
  obtains dss where "concat dss = ds" "pack_end s = map concat dss"
    "\<And>g. g \<in> set dss \<Longrightarrow> g \<noteq> [] \<and> 4 + 4 * length (concat g) \<le> MTU"
proof -
  define s' where "s' = (if 1 < pk_j s then (pack_flush s)\<lparr>pk_size := 4\<rparr> else s)"
  have j: "1 < pk_j s \<longleftrightarrow> pk_cur s \<noteq> []" using inv by (simp add: pack_inv_def)
  have "pk_cur s' = []" "pack_end s = pk_out s'"
    using j by (auto simp: s'_def pack_flush_def pack_end_def)
  moreover have "pack_inv ds s'"
    using inv pack_flush_inv [OF inv] j by (simp add: s'_def)
  then obtain dss cs where d: "concat dss @ cs = ds" "pk_out s' = map concat dss" "pk_cur s' = concat cs"
    "\<forall>g \<in> set dss. g \<noteq> [] \<and> 4 + 4 * length (concat g) \<le> MTU" "[] \<notin> set ds"
    unfolding pack_inv_def by blast
  ultimately have "cs = []" by (cases cs) auto
  with d \<open>pack_end s = pk_out s'\<close> show ?thesis by (intro that [of dss]) auto
qed

section \<open>Receiving what was packed\<close>

text \<open>A diff with its effect on pages of a given length.\<close>

definition applies :: "nat \<Rightarrow> u32 list \<Rightarrow> (u32 list \<Rightarrow> u32 list) \<Rightarrow> bool" where
  "applies len d f \<longleftrightarrow>
     d \<noteq> [] \<and> (\<forall>q rest. length q = len \<longrightarrow> diff_apply q (d @ rest) = Some (f q, rest) \<and> length (f q) = len)"

lemma encoded_applies:
  assumes "page_words_ok (length v)" "length t = length v" "diff_encode stale v t = Some d"
  shows "applies (length v) d (diff_merge v t)"
  using assms diff_encode_apply [OF assms(1,2) _ assms(3)] diff_encode_runs [of v t stale]
  by (auto simp: applies_def page_words_ok_def)

lemma receive_diffs_groups:
  assumes "length rs = length ds" "length ds = length fs" "\<And>i. i < length ds \<Longrightarrow> applies (length q) (ds ! i) (fs ! i)"
    and "concat dss = ds" "[] \<notin> set dss" "rs \<noteq> []"
  shows "receive_diffs rs (map concat dss @ ms) q = Some (zip rs ds, fold (\<lambda>f. f) fs q, ms)"
  using assms
proof (induction rs arbitrary: ds fs dss q)
  case (Cons r rs)
  then obtain d ds' f fs' where ds: "ds = d # ds'" "fs = f # fs'" by (metis length_Suc_conv)
  from Cons.prems(4,5) ds obtain g dss' where dss: "dss = (d # g) # dss'" "g @ concat dss' = ds'"
    by (cases dss; cases "hd dss") auto
  have ap: "applies (length q) d f" using Cons.prems(3) [of 0] ds by simp
  then have q: "diff_apply q (d @ concat g) = Some (f q, concat g)" "length (f q) = length q"
    by (auto simp: applies_def)
  have tail: "applies (length (f q)) (ds' ! i) (fs' ! i)" if "i < length ds'" for i
    using Cons.prems(3) [of "Suc i"] that ds q(2) by simp
  have len: "length rs = length ds'" "length ds' = length fs'" using Cons.prems(1,2) ds by auto
  show ?case
  proof (cases "rs = []")
    case True
    then have "ds' = []" "fs' = []" using len by auto
    with dss have "g = []" "concat dss' = []" by auto
    with Cons.prems(5) dss have "dss' = []" by (cases dss') auto
    with True \<open>g = []\<close> \<open>fs' = []\<close> q dss ds show ?thesis by simp
  next
    case False
    have cg: "concat g = [] \<longleftrightarrow> g = []"
    proof -
      have "x \<noteq> []" if "x \<in> set g" for x
      proof -
        from that dss(2) have "x \<in> set ds'" by auto
        then obtain i where "i < length ds'" "x = ds' ! i" by (auto simp: in_set_conv_nth)
        with tail show ?thesis by (auto simp: applies_def)
      qed
      then show ?thesis by (cases g) auto
    qed
    define dss2 where "dss2 = (if g = [] then dss' else g # dss')"
    have "receive_diffs rs (map concat dss2 @ ms) (f q) = Some (zip rs ds', fold (\<lambda>f. f) fs' (f q), ms)"
      using Cons.prems(5) dss by (intro Cons.IH len tail False) (auto simp: dss2_def)
    moreover have "map concat dss2 @ ms = (if concat g = [] then map concat dss' @ ms else concat g # map concat dss' @ ms)"
      using cg by (simp add: dss2_def)
    ultimately show ?thesis using q False by (simp add: dss ds Let_def)
  qed
qed simp

section \<open>What the handler sends\<close>

text \<open>The diff that the handler finds for a requested pair of process and time.\<close>

definition notice_diff :: "'a node_scheme \<Rightarrow> page_t \<Rightarrow> nat \<times> u16 \<Rightarrow> u32 list option" where
  "notice_diff n p r =
     (let ws = pg_write_notice (page_array n p) (fst r)
      in Option.bind (find_notice (fst r) (snd r) ws) (\<lambda>k. wn_diff (ws ! k)))"

lemma find_notice_Some:
  "find_notice pid time ws = Some k \<Longrightarrow> k < length ws \<and> iv_vector_time (wn_interval (ws ! k)) pid = time"
  by (induction ws arbitrary: k) (auto split: if_splits)

lemma find_notice_cong:
  "map wn_interval ws = map wn_interval ws' \<Longrightarrow> find_notice pid time ws = find_notice pid time ws'"
proof (induction ws arbitrary: ws')
  case (Cons w ws)
  then show ?case by (cases ws') auto
qed auto

lemma map_interval_update [simp]:
  "map wn_interval (ws[k := (ws ! k)\<lparr>wn_diff := d, wn_diff_size := sz\<rparr>]) = map wn_interval ws"
proof (rule nth_equalityI, simp)
  fix i assume "i < length (map wn_interval (ws[k := (ws ! k)\<lparr>wn_diff := d, wn_diff_size := sz\<rparr>]))"
  then show "map wn_interval (ws[k := (ws ! k)\<lparr>wn_diff := d, wn_diff_size := sz\<rparr>]) ! i = map wn_interval ws ! i"
    by (cases "i = k") simp_all
qed

lemma diff_create_notices:
  assumes "Tmk_diff_create p pid k n = Some n'" "k < length (pg_write_notice (page_array n p) pid)"
  obtains d where
    "pg_write_notice (page_array n' p) =
       (pg_write_notice (page_array n p))(pid := (pg_write_notice (page_array n p) pid)
          [k := (pg_write_notice (page_array n p) pid ! k)\<lparr>wn_diff := Some d, wn_diff_size := of_nat (4 * length d)\<rparr>])"
  using assms
  by (auto simp: Tmk_diff_create_def Let_def upd_stat_def upd_page_def set_notice_diff_def split: option.splits)

lemma diff_create_notice_diff:
  assumes c: "Tmk_diff_create p pid k n = Some n'" and k: "k < length (pg_write_notice (page_array n p) pid)"
    and None: "wn_diff (pg_write_notice (page_array n p) pid ! k) = None" and r: "notice_diff n p r = Some e"
  shows "notice_diff n' p r = Some e"
proof -
  from diff_create_notices [OF c k] obtain d where d: "pg_write_notice (page_array n' p) =
      (pg_write_notice (page_array n p))(pid := (pg_write_notice (page_array n p) pid)
        [k := (pg_write_notice (page_array n p) pid ! k)\<lparr>wn_diff := Some d, wn_diff_size := of_nat (4 * length d)\<rparr>])" .
  let ?ws = "\<lambda>i. pg_write_notice (page_array n p) i" and ?ws' = "\<lambda>i. pg_write_notice (page_array n' p) i"
  have "map wn_interval (?ws' i) = map wn_interval (?ws i)" for i
    by (simp add: d)
  then have find: "find_notice i t (?ws' i) = find_notice i t (?ws i)" for i t by (metis find_notice_cong)
  from r obtain l where l: "find_notice (fst r) (snd r) (?ws (fst r)) = Some l" "wn_diff (?ws (fst r) ! l) = Some e"
    by (auto simp: notice_diff_def Let_def bind_eq_Some_conv)
  then have "fst r = pid \<Longrightarrow> l \<noteq> k" using None by auto
  then have "wn_diff (?ws' (fst r) ! l) = Some e" using l(2) by (auto simp: d)
  with l(1) find show ?thesis by (simp add: notice_diff_def Let_def)
qed

text \<open>
  The diffs gathered so far and those of the remaining requests: what the handler adds to its
  messages are the diffs of the requested write notices in the order of the request.
\<close>

lemma serve_diffs_spec:
  assumes "serve_diffs p reqs adjs (flag, pk, n) = Some (flag', pk', n')"
  obtains ds where "map (notice_diff n' p) reqs = map Some ds"
    "\<And>r e. notice_diff n p r = Some e \<Longrightarrow> notice_diff n' p r = Some e"
    "\<And>ds0. pack_inv ds0 pk \<Longrightarrow> \<forall>d \<in> set ds. d \<noteq> [] \<and> 4 + 4 * length d \<le> MTU \<Longrightarrow> pack_inv (ds0 @ ds) pk'"
  using assms
proof (induction reqs arbitrary: adjs flag pk n thesis)
  case Nil
  then show ?case by auto
next
  case (Cons r reqs)
  obtain pid time where r: "r = (pid, time)" by (cases r)
  let ?ws = "\<lambda>n. pg_write_notice (page_array n p) pid"
  from Cons.prems(2) r obtain k where k: "find_notice pid time (?ws n) = Some k" by (auto split: option.splits)
  have "\<exists>d n1 flag1 adj. serve_diffs p reqs (tl adjs) (flag1, pack_diff adj d pk, n1) = Some (flag', pk', n') \<and>
      notice_diff n1 p r = Some d \<and> (\<forall>r e. notice_diff n p r = Some e \<longrightarrow> notice_diff n1 p r = Some e)"
  proof (cases "wn_diff (?ws n ! k)")
    case (Some d)
    with Cons.prems(2) k have "serve_diffs p reqs (tl adjs) (flag, pack_diff (adjs \<noteq> [] \<and> hd adjs) d pk, n) = Some (flag', pk', n')"
      by (simp add: r)
    with Some k show ?thesis by (intro exI conjI) (auto simp: r notice_diff_def)
  next
    case None
    with Cons.prems(2) k obtain n1 d where n1: "Tmk_diff_create p pid k n = Some n1" "wn_diff (?ws n1 ! k) = Some d"
      "serve_diffs p reqs (tl adjs) (True, pack_diff (adjs \<noteq> [] \<and> hd adjs) d pk, n1) = Some (flag', pk', n')"
      by (auto simp: r bind_eq_Some_conv split: option.splits)
    have len: "k < length (?ws n)" using find_notice_Some [OF k] by simp
    from diff_create_notices [OF n1(1) len] obtain e where e: "?ws n1 = (?ws n)[k := (?ws n ! k)
        \<lparr>wn_diff := Some e, wn_diff_size := of_nat (4 * length e)\<rparr>]" by (metis fun_upd_same)
    have "map wn_interval (?ws n1) = map wn_interval (?ws n)"
      by (simp add: e)
    with k have "find_notice pid time (?ws n1) = Some k" by (metis find_notice_cong)
    with n1(2) have "notice_diff n1 p r = Some d" by (simp add: r notice_diff_def)
    with n1(3) diff_create_notice_diff [OF n1(1) len None] show ?thesis by blast
  qed
  then obtain d n1 flag1 adj where s: "serve_diffs p reqs (tl adjs) (flag1, pack_diff adj d pk, n1) = Some (flag', pk', n')"
    "notice_diff n1 p r = Some d" "\<And>r e. notice_diff n p r = Some e \<Longrightarrow> notice_diff n1 p r = Some e" by blast
  obtain ds where ds: "map (notice_diff n' p) reqs = map Some ds"
    "\<And>r e. notice_diff n1 p r = Some e \<Longrightarrow> notice_diff n' p r = Some e"
    "\<And>ds0. pack_inv ds0 (pack_diff adj d pk) \<Longrightarrow> \<forall>d \<in> set ds. d \<noteq> [] \<and> 4 + 4 * length d \<le> MTU \<Longrightarrow> pack_inv (ds0 @ ds) pk'"
    by (rule Cons.IH [OF _ s(1)]) (rule that)
  show ?case
  proof (rule Cons.prems(1) [of "d # ds"])
    show "map (notice_diff n' p) (r # reqs) = map Some (d # ds)" using ds(1,2) s(2) by simp
    show "notice_diff n' p r = Some e" if "notice_diff n p r = Some e" for r e using ds(2) s(3) that by blast
    show "pack_inv (ds0 @ d # ds) pk'" if "pack_inv ds0 pk" "\<forall>e \<in> set (d # ds). e \<noteq> [] \<and> 4 + 4 * length e \<le> MTU" for ds0
      using ds(3) [of "ds0 @ [d]"] pack_diff_inv [OF that(1)] that(2) by simp
  qed
qed

lemma handler_messages:
  assumes h: "Tmk_diff_sigio_handler p reqs adjs n = Some (msgs, n')"
    and ds: "map (notice_diff n' p) reqs = map Some ds" "\<And>d. d \<in> set ds \<Longrightarrow> d \<noteq> [] \<and> 4 + 4 * length d \<le> MTU"
  obtains dss where "concat dss = ds" "msgs = map concat dss" "\<And>g. g \<in> set dss \<Longrightarrow> g \<noteq> [] \<and> 4 + 4 * length (concat g) \<le> MTU"
proof -
  from h obtain fl pk n1 where s: "serve_diffs p reqs adjs (False, pack_start, n) = Some (fl, pk, n1)" "msgs = pack_end pk"
    "n' = (if fl then Tmk_twin_free p (n1\<lparr>protection := (protection n1)(p := PROT_READ)\<rparr>) else n1)"
    by (auto simp: Tmk_diff_sigio_handler_def)
  have "notice_diff n' p = notice_diff n1 p"
    by (intro ext) (simp add: s(3) notice_diff_def Tmk_twin_free_def upd_page_def Let_def)
  moreover from serve_diffs_spec [OF s(1)] obtain ds' where ds': "map (notice_diff n1 p) reqs = map Some ds'"
    "\<And>ds0. pack_inv ds0 pack_start \<Longrightarrow> \<forall>d \<in> set ds'. d \<noteq> [] \<and> 4 + 4 * length d \<le> MTU \<Longrightarrow> pack_inv (ds0 @ ds') pk"
    by metis
  ultimately have "ds' = ds" using ds(1) by (metis inj_Some map_injective)
  with ds'(2) [OF pack_start_inv] ds(2) have "pack_inv ds pk" by simp
  from pack_end_inv [OF this] show ?thesis using that s(2) by metis
qed

text \<open>
  C8: The messages that carry the diffs of a page are at most \<^verbatim>\<open>MTU\<close> bytes long and are cut
  between diffs, so that the requester, which applies what it finds and goes to the next message
  when one is used up, applies exactly the requested diffs in the order of the request and
  consumes all messages.
\<close>

theorem diff_transfer:
  assumes h: "Tmk_diff_sigio_handler p reqs adjs n = Some (msgs, n')" and "reqs \<noteq> []"
    and ds: "map (notice_diff n' p) reqs = map Some ds" "length rs = length reqs" "length fs = length reqs"
    and ok: "list_all2 (applies (length q)) ds fs" "list_all (\<lambda>d. 4 + 4 * length d \<le> MTU) ds"
  shows "list_all (\<lambda>m. m \<noteq> [] \<and> 4 + 4 * length m \<le> MTU) msgs \<and> concat msgs = concat ds \<and>
     receive_diffs rs msgs q = Some (zip rs ds, fold (\<lambda>f. f) fs q, [])"
proof -
  have len: "length ds = length reqs" using ds(1) by (metis length_map)
  have ne: "d \<noteq> []" if "d \<in> set ds" for d
    using ok(1) that by (auto simp: list_all2_conv_all_nth in_set_conv_nth applies_def)
  obtain dss where dss: "concat dss = ds" "msgs = map concat dss"
    "\<And>g. g \<in> set dss \<Longrightarrow> g \<noteq> [] \<and> 4 + 4 * length (concat g) \<le> MTU"
    by (rule handler_messages [OF h ds(1)]) (use ok(2) ne in \<open>auto simp: list_all_iff\<close>)
  have "concat g \<noteq> []" if "g \<in> set dss" for g
  proof -
    from dss(3) that obtain d g' where "g = d # g'" by (cases g) auto
    moreover from this that dss(1) have "d \<in> set ds" by (auto intro!: bexI [of _ g])
    ultimately show ?thesis using ne by auto
  qed
  with dss(3) have msgs: "list_all (\<lambda>m. m \<noteq> [] \<and> 4 + 4 * length m \<le> MTU) msgs"
    by (auto simp: list_all_iff dss(2))
  have "receive_diffs rs (map concat dss @ []) q = Some (zip rs ds, fold (\<lambda>f. f) fs q, [])"
    by (rule receive_diffs_groups)
      (use assms len ok(1) dss in \<open>auto simp: list_all2_conv_all_nth\<close>)
  moreover have "concat msgs = concat ds" unfolding dss(2) dss(1) [symmetric] by (induction dss) simp_all
  ultimately show ?thesis using msgs dss(2) by simp
qed

definition server_node :: node where
  "server_node = upd_page 3 (\<lambda>pg. pg\<lparr>pg_write_notice := (\<lambda>i. if i = 0
        then [new_notice \<lparr>iv_id = 0, iv_vector_time = (\<lambda>_. 2), iv_ranges = [(3, 3)]\<rparr>,
              (new_notice \<lparr>iv_id = 0, iv_vector_time = (\<lambda>_. 1), iv_ranges = [(3, 3)]\<rparr>)
                \<lparr>wn_diff := Some [run_hdr 4 0, 7, 0]\<rparr>] else [])\<rparr>)
     ((zero_node 0 2 16 16)\<lparr>mem := (\<lambda>_. [7, 8, 0, 0]), twin_mem := (\<lambda>_. [7, 0, 0, 0])\<rparr>)"

theorem diff_transfer_witness:
  "\<exists>msgs n'. Tmk_diff_sigio_handler 3 [(0, 1), (0, 2)] [] server_node = Some (msgs, n') \<and>
     receive_diffs [(0, 1), (0, 0)] msgs [0, 0, 0, 5] =
       Some ([((0, 1), [run_hdr 4 0, 7, 0]), ((0, 0), [run_hdr 4 4, 8, 0])], [7, 8, 0, 5], [])"
proof -
  have enc: "diff_encode (\<lambda>_. 0) [7, 0, 0, 0] [0, 0, 0, 0] = Some [run_hdr 4 0, 7, 0]"
    "diff_encode (\<lambda>_. 0) [7, 8, 0, 0] [7, 0, 0, 0] = Some [run_hdr 4 4, 8, 0]" by code_simp+
  have ap: "applies (length [0, 0, 0, 5 :: u32]) [run_hdr 4 0, 7, 0] (diff_merge [7, 0, 0, 0] [0, 0, 0, 0])"
    "applies (length [0, 0, 0, 5 :: u32]) [run_hdr 4 4, 8, 0] (diff_merge [7, 8, 0, 0] [7, 0, 0, 0])"
    using encoded_applies [of "[7, 0, 0, 0]" "[0, 0, 0, 0]" "\<lambda>_. 0" "[run_hdr 4 0, 7, 0]", OF _ _ enc(1)]
      encoded_applies [of "[7, 8, 0, 0]" "[7, 0, 0, 0]" "\<lambda>_. 0" "[run_hdr 4 4, 8, 0]", OF _ _ enc(2)]
    by (simp_all add: page_words_ok_def eval_nat_numeral)
  have enc': "diff_encode (heap_1_stale server_node) [7, 8, 0, 0] [7, 0, 0, 0] = Some [run_hdr 4 4, 8, 0]"
  proof -
    have "heap_1_stale server_node = (\<lambda>_. 0)" by (auto simp: heap_1_stale_def server_node_def zero_node_def)
    with enc(2) show ?thesis by simp
  qed
  define a where "a = new_notice \<lparr>iv_id = 0, iv_vector_time = (\<lambda>_. 2), iv_ranges = [(3, 3)]\<rparr>"
  define b where "b = (new_notice \<lparr>iv_id = 0, iv_vector_time = (\<lambda>_. 1), iv_ranges = [(3, 3)]\<rparr>)
      \<lparr>wn_diff := Some [run_hdr 4 0, 7, 0]\<rparr>"
  have ws: "pg_write_notice (page_array server_node 3) 0 = [a, b]"
    "mem server_node 3 = [7, 8, 0, 0]" "twin_mem server_node (pg_twin (page_array server_node 3)) = [7, 0, 0, 0]"
    by (simp_all add: server_node_def upd_page_def a_def b_def zero_node_def)
  have ab: "wn_diff a = None" "wn_diff b = Some [run_hdr 4 0, 7, 0]" "iv_vector_time (wn_interval a) 0 = 2"
    "iv_vector_time (wn_interval b) 0 = 1" by (simp_all add: a_def b_def new_notice_def)
  obtain n1 where c: "Tmk_diff_create 3 0 0 server_node = Some n1"
    "pg_write_notice (page_array n1 3) 0 = [a\<lparr>wn_diff := Some [run_hdr 4 4, 8, 0], wn_diff_size := 12\<rparr>, b]"
    using enc' by (simp add: Tmk_diff_create_def ws Let_def upd_stat_def upd_page_def set_notice_diff_def)
  obtain msgs n' where h: "Tmk_diff_sigio_handler 3 [(0, 1), (0, 2)] [] server_node = Some (msgs, n')"
    "pg_write_notice (page_array n' 3) 0 = [a\<lparr>wn_diff := Some [run_hdr 4 4, 8, 0], wn_diff_size := 12\<rparr>, b]"
    using c by (simp add: Tmk_diff_sigio_handler_def ws ab Tmk_twin_free_def upd_page_def Let_def)
  then have nd: "map (notice_diff n' 3) [(0, 1), (0, 2)] = map Some [[run_hdr 4 0, 7, 0], [run_hdr 4 4, 8, 0]]"
    by (simp add: notice_diff_def ab)
  have "diff_merge [7, 8, 0, 0] [7, 0, 0, 0] (diff_merge [7, 0, 0, 0] [0, 0, 0, 0] [0, 0, 0, 5]) = [7, 8, 0, 5]"
    by code_simp
  with diff_transfer [OF h(1) _ nd, of "[(0, 1), (0, 0)]"
      "[diff_merge [7, 0, 0, 0] [0, 0, 0, 0], diff_merge [7, 8, 0, 0] [7, 0, 0, 0]]" "[0, 0, 0, 5]"] ap h(1)
  show ?thesis by simp
qed

end
