(* ===== verification/Tmk_Fault.thy ===== *)
theory Tmk_Fault
  imports Tmk_Coherence Tmk_Diff_Server
begin

text \<open>
  Page faults, \<^verbatim>\<open>segv_handler\<close> of \<^verbatim>\<open>Tmk/src/segv.c\<close>: a write to a read-only page gives it a
  twin and makes it dirty, an access to an invalid page fetches the missing diffs first, and an
  access to an empty page fetches the page before that.  The messages that arrive during the
  fault are an argument of the handler.
\<close>

section \<open>The faulting page\<close>

text \<open>
  \<^verbatim>\<open>(caddr_t) cr2 - page_array_[0].vadr >> page_shift\<close>: the difference of two pointers is a
  signed 32-bit number, shifted arithmetically and stored in an \<^verbatim>\<open>unsigned\<close>.
\<close>

definition fault_page :: "u32 \<Rightarrow> u32 \<Rightarrow> nat \<Rightarrow> u32" where
  "fault_page base cr2 shift = word_of_int (drop_bit shift (sint (cr2 - base)))"

section \<open>The handler\<close>

text \<open>
  What happens around a fault: whether the access is a write (\<^verbatim>\<open>scs.err & 2\<close>), the buffer
  \<^verbatim>\<open>malloc\<close> would return for a twin, the reply of the page's manager and the accepted replies to
  the diff requests.
\<close>

record fault =
  is_write :: bool
  fresh_twin :: u32
  reply_size :: u32
  reply_page :: "u32 list"
  diff_msgs :: "u32 list list"

text \<open>
  The outcomes: the access is retried, the default action of the signal takes over, the process
  exits, or a wild access occurs inside the handler.
\<close>

datatype 'n fault_result = Retry 'n | Default_action 'n | Exits tmk_exit | Wild

definition set_protection :: "page_t \<Rightarrow> prot \<Rightarrow> 'a node_scheme \<Rightarrow> 'a node_scheme" where
  "set_protection p pr n = n\<lparr>protection := (protection n)(p := pr)\<rparr>"

text \<open>Label \<^verbatim>\<open>twin\<close>.\<close>

definition make_dirty :: "u32 \<Rightarrow> page_t \<Rightarrow> 'a node_scheme \<Rightarrow> 'a node_scheme fault_result" where
  "make_dirty fresh p n =
     (case Tmk_twin_alloc_and_copy fresh p n of
        Inl e \<Rightarrow> Exits e
      | Inr n \<Rightarrow> Retry (Tmk_page_dirty_merge p n))"

definition segv_handler :: "nat \<Rightarrow> fault \<Rightarrow> 'a node_scheme \<Rightarrow> 'a node_scheme fault_result" where
  "segv_handler i f n =
     (if i < npages n then
        (let n = set_protection i PROT_READ_WRITE n
         in if pg_state (page_array n i) = Valid then make_dirty (fresh_twin f) i n
            else
              (let n = (if pg_state (page_array n i) = Empty
                        then Tmk_page_reply i (reply_size f) (reply_page f) n else n);
                   n = upd_page i (pg_state_update (\<lambda>_. Valid)) n
               in case Tmk_diff_request i (diff_msgs f) n of
                    None \<Rightarrow> Wild
                  | Some n \<Rightarrow> if is_write f then make_dirty (fresh_twin f) i n
                              else Retry (set_protection i PROT_READ n)))
      else Default_action (n\<lparr>protection := mprotect_range 0 (npages n) PROT_READ (protection n)\<rparr>))"

section \<open>Addresses and pages\<close>

lemma unat_fault_page:
  "int (unat (fault_page base cr2 s)) =
     (if 0 \<le> sint (cr2 - base) then sint (cr2 - base) div 2 ^ s else 2 ^ 32 + sint (cr2 - base) div 2 ^ s)"
proof -
  let ?x = "sint (cr2 - base)"
  have x: "- (2 ^ 31) \<le> ?x" "?x < 2 ^ 31"
    using sint_greater_eq [of "cr2 - base"] sint_lt [of "cr2 - base"] by simp_all
  have one: "1 \<le> (2 :: int) ^ s" by simp
  have "?x div 2 ^ s \<le> ?x" if "0 \<le> ?x"
    using that one by (metis div_by_1 less_le_not_le zdiv_mono2 zero_less_one)
  moreover have "- (2 ^ 31) \<le> ?x div 2 ^ s \<and> ?x div 2 ^ s < 0" if "?x < 0"
  proof -
    have "?x \<le> ?x div 2 ^ s" using that one zdiv_mono2_neg [of ?x 1 "2 ^ s"] by simp
    moreover have "?x div 2 ^ s < 0" using that by (rule div_neg_pos_less0) simp
    ultimately show ?thesis using x(1) by simp
  qed
  moreover have "int (unat (fault_page base cr2 s)) = (?x div 2 ^ s) mod 2 ^ 32"
    by (simp add: fault_page_def drop_bit_eq_div uint_word_of_int take_bit_eq_mod)
  ultimately show ?thesis using x
    by (auto simp: pos_imp_zdiv_nonneg_iff mod_pos_pos_trivial)
      (smt (verit) mod_add_self1 mod_pos_pos_trivial)
qed

lemma wrap_diff:
  fixes c e m :: int
  assumes "0 \<le> c" "c < 4294967296" "0 \<le> e" "e < 4294967296" "m < 2147483648" "e + m \<le> 4294967296"
  defines "x \<equiv> (c - e + 2147483648) mod 4294967296 - 2147483648"
  shows "0 \<le> x \<and> x < m \<longleftrightarrow> e \<le> c \<and> c < e + m"
proof -
  consider "c - e < - 2147483648" | "- 2147483648 \<le> c - e" "c - e < 2147483648" | "2147483648 \<le> c - e" by linarith
  then show ?thesis
  proof cases
    case 1
    then have "(c - e + 2147483648 + 4294967296) mod 4294967296 = c - e + 2147483648 + 4294967296"
      using assms by (intro mod_pos_pos_trivial) linarith+
    then have "x = c - e + 4294967296" unfolding x_def mod_add_self2 by simp
    then show ?thesis using 1 assms(1-6) by linarith
  next
    case 2
    then have "x = c - e" unfolding x_def by (subst mod_pos_pos_trivial) linarith+
    then show ?thesis using assms(1-6) by linarith
  next
    case 3
    then have "x = c - e - 4294967296"
      unfolding x_def using assms(1-6) minus_mod_self2 [of "c - e + 2147483648" 4294967296]
      by (subst (asm) mod_pos_pos_trivial) linarith+
    then show ?thesis using 3 assms(1-6) by linarith
  qed
qed

lemma sint_diff_range:
  fixes base cr2 :: u32
  assumes "m < 2 ^ 31" "unat base + m \<le> 2 ^ 32"
  shows "0 \<le> sint (cr2 - base) \<and> sint (cr2 - base) < int m \<longleftrightarrow> unat base \<le> unat cr2 \<and> unat cr2 < unat base + m"
    and "unat base \<le> unat cr2 \<Longrightarrow> unat cr2 < unat base + m \<Longrightarrow> sint (cr2 - base) = int (unat cr2 - unat base)"
proof -
  have u: "uint (cr2 - base) = (uint cr2 - uint base) mod 2 ^ 32" by (simp add: uint_word_ariths)
  have "sint (cr2 - base) = (uint (cr2 - base) + 2 ^ 31) mod 2 ^ 32 - 2 ^ 31"
    unfolding sint_uint signed_take_bit_eq_take_bit_shift take_bit_eq_mod by simp
  then have s: "sint (cr2 - base) = (uint cr2 - uint base + 2 ^ 31) mod 2 ^ 32 - 2 ^ 31"
    unfolding u mod_add_left_eq .
  have b: "0 \<le> uint cr2" "uint cr2 < 2 ^ 32" "0 \<le> uint base" "uint base < 2 ^ 32"
    using uint_lt2p [of cr2] uint_lt2p [of base] by simp_all
  have "int (unat base + m) \<le> int (2 ^ 32)" using assms(2) by (subst of_nat_le_iff)
  then have m: "int m < 2 ^ 31" "uint base + int m \<le> 2 ^ 32" using assms(1) by simp_all
  have "unat base \<le> unat cr2 \<longleftrightarrow> int (unat base) \<le> int (unat cr2)"
    "unat cr2 < unat base + m \<longleftrightarrow> int (unat cr2) < int (unat base + m)" by (simp_all only: of_nat_less_iff of_nat_le_iff)
  then have r: "unat base \<le> unat cr2 \<and> unat cr2 < unat base + m \<longleftrightarrow> uint base \<le> uint cr2 \<and> uint cr2 < uint base + int m"
    by simp
  show "sint (cr2 - base) = int (unat cr2 - unat base)" if "unat base \<le> unat cr2" "unat cr2 < unat base + m"
  proof -
    have "uint base \<le> uint cr2" "uint cr2 < uint base + int m" using that r by auto
    then have "sint (cr2 - base) = uint cr2 - uint base" unfolding s using b m by (simp add: mod_pos_pos_trivial)
    with that show ?thesis by (simp add: of_nat_diff)
  qed
  show "0 \<le> sint (cr2 - base) \<and> sint (cr2 - base) < int m \<longleftrightarrow> unat base \<le> unat cr2 \<and> unat cr2 < unat base + m"
    unfolding r s using wrap_diff [of "uint cr2" "uint base" "int m"] b m by simp
qed

text \<open>
  The page number computed from a fault address is that of a shared page exactly for the
  addresses of the shared memory, and then it is the page the address lies in: addresses below
  the shared memory give a negative quotient, which is a huge unsigned number.
\<close>

lemma fault_page_range:
  assumes "k * 2 ^ shift < 2 ^ 31" "unat base + k * 2 ^ shift \<le> 2 ^ 32" "k \<le> NPAGES"
  shows "(unat (fault_page base cr2 shift) < k \<longleftrightarrow> unat base \<le> unat cr2 \<and> unat cr2 < unat base + k * 2 ^ shift) \<and>
    (unat base \<le> unat cr2 \<and> unat cr2 < unat base + k * 2 ^ shift \<longrightarrow>
       unat (fault_page base cr2 shift) = (unat cr2 - unat base) div 2 ^ shift)"
proof -
  let ?x = "sint (cr2 - base)" and ?u = "unat (fault_page base cr2 shift)"
  note r = sint_diff_range [OF assms(1,2), of cr2] and u = unat_fault_page [of base cr2 shift]
  have lo: "- (2 ^ 31) \<le> ?x" using sint_greater_eq [of "cr2 - base"] by simp
  have 2: "?u = (unat cr2 - unat base) div 2 ^ shift" if "unat base \<le> unat cr2" "unat cr2 < unat base + k * 2 ^ shift"
  proof -
    have "int ?u = int ((unat cr2 - unat base) div 2 ^ shift)" using u r(2) [OF that] by (simp add: zdiv_int)
    then show ?thesis by (simp only: of_nat_eq_iff)
  qed
  have "?u < k \<longleftrightarrow> 0 \<le> ?x \<and> ?x < int (k * 2 ^ shift)"
  proof (cases "0 \<le> ?x")
    case True
    then obtain y where y: "?x = int y" by (metis nonneg_int_cases)
    with u have "int ?u = int (y div 2 ^ shift)" by (simp add: zdiv_int)
    then have "?u = y div 2 ^ shift" by (simp only: of_nat_eq_iff)
    then have "?u < k \<longleftrightarrow> y < k * 2 ^ shift" by (simp add: div_less_iff_less_mult)
    also have "\<dots> \<longleftrightarrow> int y < int (k * 2 ^ shift)" by (simp only: of_nat_less_iff)
    finally show ?thesis using y by simp
  next
    case False
    have "?x \<le> ?x div 2 ^ shift"
      using False zdiv_mono2_neg [of ?x 1 "2 ^ shift"] by simp
    with u False lo have "2147483648 \<le> int ?u" by simp
    with assms(3) have "\<not> ?u < k" by linarith
    with False show ?thesis by simp
  qed
  with r(1) have "?u < k \<longleftrightarrow> unat base \<le> unat cr2 \<and> unat cr2 < unat base + k * 2 ^ shift" by simp
  with 2 show ?thesis by blast
qed

section \<open>Write faults\<close>

lemma core_inv_protection [simp]: "core_inv (n\<lparr>protection := pr\<rparr>) ds is free = core_inv n ds is free"
  by (simp add: core_defs twin_inv_def)

lemma twin_alloc_frame:
  assumes "Tmk_twin_alloc_and_copy fresh p n = Inr n'"
  shows "proc_id n' = proc_id n" "nprocs n' = nprocs n" "npages n' = npages n" "page_size n' = page_size n"
    "mem n' = mem n" "protection n' = protection n" "\<And>q. q \<noteq> p \<Longrightarrow> page_array n' q = page_array n q"
    "\<exists>t. page_array n' p = (page_array n p)\<lparr>pg_twin := t\<rparr>"
    "\<And>t. t \<noteq> pg_twin (page_array n' p) \<Longrightarrow> twin_mem n' t = twin_mem n t"
    "proc_array n' = proc_array n" "proc_vector_time n' = proc_vector_time n"
  using assms
  by (auto simp: Tmk_twin_alloc_and_copy_def Let_def upd_page_def upd_stat_def split: if_splits)

text \<open>The buffer \<^verbatim>\<open>malloc\<close> returns is not in use as a twin.\<close>

definition fresh_for :: "u32 \<Rightarrow> 'a node_scheme \<Rightarrow> bool" where
  "fresh_for t n \<longleftrightarrow> t \<noteq> 0 \<and> (\<forall>q < npages n. pg_twin (page_array n q) \<noteq> t)"

lemma make_dirty_core:
  assumes inv: "core_inv n ds is free" and p: "p < npages n" "pg_twin (page_array n p) = 0" "p \<notin> covered is"
    and fresh: "fresh_for t n"
  obtains n' ds' free' where "make_dirty t p n = Retry n'" "core_inv n' ds' is free'"
    "covered ds' = insert p (covered ds)" "p \<notin> covered ds" "pg_twin (page_array n' p) \<noteq> 0"
    "twin_mem n' (pg_twin (page_array n' p)) = mem n p" "mem n' = mem n" "protection n' = protection n"
    "\<And>q. q \<noteq> p \<Longrightarrow> pg_twin (page_array n' q) = pg_twin (page_array n q)"
    "\<And>q. pg_state (page_array n' q) = pg_state (page_array n q)"
    "\<And>q. pg_write_notice (page_array n' q) = pg_write_notice (page_array n q)"
    "npages n' = npages n" "proc_id n' = proc_id n" "nprocs n' = nprocs n"
    "proc_array n' = proc_array n" "proc_vector_time n' = proc_vector_time n"
proof -
  from inv p have dr: "dirty_runs n ds" and ir: "inval_runs n is" and ti: "twin_inv n free"
    and disj: "covered ds \<inter> covered is = {}" and np: "p < NPAGES"
    and core: "\<And>q. q < npages n \<Longrightarrow> page_core n (q \<in> covered ds) q"
    and pw: "page_words_ok (page_size n div 4)" by (auto simp: core_inv_def)
  have nd: "p \<notin> covered ds" and ne: "mem n p \<noteq> []" and len: "length (mem n p) = page_size n div 4"
    using core [OF p(1)] p(2) pw by (auto simp: page_core_def Let_def notice_ok_def page_words_ok_def)
  obtain m where m: "Tmk_twin_alloc_and_copy t p n = Inr m"
    using fresh unfolding Tmk_twin_alloc_and_copy_def fresh_for_def by (cases "twin_free_list n = 0") simp_all
  note fr = twin_alloc_frame [OF m] and tw = twin_alloc_copies [OF m]
  have tm: "twin_inv m (tl free)"
    by (rule twin_alloc_inv [OF ti p(1,2) ne _ m]) (use fresh in \<open>simp add: fresh_for_def\<close>)
  have fields: "pg_prev (page_array m q) = pg_prev (page_array n q)" "pg_next (page_array m q) = pg_next (page_array n q)"
    "pg_partner (page_array m q) = pg_partner (page_array n q)" "pg_state (page_array m q) = pg_state (page_array n q)"
    "pg_inval_toggle (page_array m q) = pg_inval_toggle (page_array n q)"
    "pg_dirty_toggle (page_array m q) = pg_dirty_toggle (page_array n q)"
    "pg_write_notice (page_array m q) = pg_write_notice (page_array n q)" for q
    using fr(7) [of q] fr(8) by (cases "q = p"; auto)+
  have dm: "dirty_runs m ds" and im: "inval_runs m is"
    using dr ir by (auto intro!: run_inv_frame [where a = "page_array n"] simp: fields)
  obtain ds' where ds': "run_inv pg_dirty_toggle page_dirty (page_dirty_merge p (page_array m)) ds'"
    "covered ds' = insert p (covered ds)"
    using dirty.page_merge_inv [OF dm np nd] by (auto simp: page_dirty_merge_def)
  let ?n' = "Tmk_page_dirty_merge p m"
  have im': "inval_runs ?n' is"
    using dirty_inval.merge_other_list [OF dm np nd im disj p(3)]
    by (simp add: Tmk_page_dirty_merge_def page_dirty_merge_def)
  have pc: "page_core ?n' (q \<in> covered ds') q" if q: "q < npages n" for q
  proof (cases "q = p")
    case True
    then show ?thesis using core [OF p(1)] nd p(2) tw ds'(2) fr fields
      by (simp add: page_core_def Let_def notice_ok_def Tmk_page_dirty_merge_def len)
  next
    case False
    have "pg_twin (page_array n q) \<noteq> 0 \<Longrightarrow> pg_twin (page_array n q) \<noteq> pg_twin (page_array m p)"
      using tm q p(1) False fr by (auto simp: twin_inv_def)
    with False core [OF q] ds'(2) fr fields show ?thesis
      by (auto simp: page_core_def Let_def Tmk_page_dirty_merge_def)
  qed
  have "core_inv ?n' ds' is (tl free)"
    using inv ds' im' tm pc p fr disj fields
    by (auto simp: core_inv_def Tmk_page_dirty_merge_def twin_inv_def)
  then show ?thesis
    by (rule that [of ?n' ds' "tl free", rotated])
       (use m ds'(2) nd tw fr fields in \<open>simp_all add: make_dirty_def Tmk_page_dirty_merge_def\<close>)
qed

section \<open>Fetching diffs\<close>

lemma copy_words_length: "copy_words n page dest cur = Some (p, d, c) \<Longrightarrow> length p = length page"
  by (auto simp: copy_words_def split: if_splits)

lemma copy_quads_length: "copy_quads n page dest cur = Some (p, c) \<Longrightarrow> length p = length page"
proof (induction n page dest cur rule: copy_quads.induct)
  case (1 n page dest cur)
  from "1.prems" obtain p' d' c' where cw: "copy_words 4 page dest cur = Some (p', d', c')"
    by (subst (asm) copy_quads.simps) (auto split: option.splits)
  show ?case
  proof (cases "n = 16 \<or> n < 16")
    case True
    with "1.prems" cw show ?thesis
      by (subst (asm) copy_quads.simps) (auto dest: copy_words_length split: if_splits)
  next
    case False
    with "1.prems" cw have "copy_quads (n - 16) p' d' c' = Some (p, c)"
      by (subst (asm) copy_quads.simps) simp
    with False have "length p = length p'" by (intro "1.IH" [OF cw]) auto
    with copy_words_length [OF cw] show ?thesis by simp
  qed
qed

lemma apply_run_length: "apply_run n page dest cur = Some (p, c) \<Longrightarrow> length p = length page"
  unfolding apply_run_def
  by (auto dest!: copy_words_length copy_quads_length split: option.splits if_splits)

lemma diff_apply_length: "diff_apply page cur = Some (p, c) \<Longrightarrow> length p = length page"
  by (induction page cur rule: diff_apply.induct) (auto dest: apply_run_length split: if_splits option.splits)

lemma receive_diffs_frame:
  "receive_diffs rs msgs q = Some (ds, q', rest) \<Longrightarrow> map fst ds = rs \<and> length q' = length q"
proof (induction rs msgs q arbitrary: ds rule: receive_diffs.induct)
  case (3 r rs m msgs page)
  then obtain p c where p: "diff_apply page m = Some (p, c)" by (auto split: option.splits)
  with diff_apply_length [OF p] "3.prems" "3.IH" [OF p refl refl] show ?case
    by (auto simp: Let_def split: if_splits)
qed auto

lemma receive_groups_frame:
  "receive_groups gs msgs q = Some (ds, q', rest) \<Longrightarrow> map fst ds = concat gs \<and> length q' = length q"
proof (induction gs msgs q arbitrary: ds rule: receive_groups.induct)
  case (2 g gs msgs page)
  then show ?case by (fastforce simp: bind_eq_Some_conv dest: receive_diffs_frame)
qed auto

lemma fold_set_notice:
  "fold (\<lambda>(r, d). upd_page p (set_notice_diff (fst r) (snd r) d)) ds n =
   n\<lparr>page_array := (page_array n)(p := fold (\<lambda>(r, d). set_notice_diff (fst r) (snd r) d) ds (page_array n p))\<rparr>"
  by (induction ds arbitrary: n) (auto simp: upd_page_def)

lemma fold_count_reply: "\<exists>st h. fold count_reply ms n = n\<lparr>stat := st, diff_heap_2 := h\<rparr>"
proof (induction ms arbitrary: n)
  case Nil
  show ?case by (rule exI [of _ "stat n"], rule exI [of _ "diff_heap_2 n"]) simp
next
  case (Cons m ms)
  obtain st h where "fold count_reply ms (count_reply m n) = (count_reply m n)\<lparr>stat := st, diff_heap_2 := h\<rparr>"
    using Cons.IH by blast
  moreover have "(count_reply m n)\<lparr>stat := st, diff_heap_2 := h\<rparr> = n\<lparr>stat := st, diff_heap_2 := h\<rparr>"
    by (simp add: count_reply_def upd_stat_def)
  ultimately show ?case by (intro exI [of _ st] exI [of _ h]) simp
qed

lemma diff_request_eq:
  assumes "Tmk_diff_request p msgs n = Some n'"
  obtains ds q rest st h where
    "receive_groups (diff_groups (ref_interval (page_array n p)) (sort_notices (nprocs n) (page_array n p))
       (length (sort_notices (nprocs n) (page_array n p)))) msgs (mem n p) = Some (ds, q, rest)"
    "n' = n\<lparr>stat := st, diff_heap_2 := h, mem := (mem n)(p := q),
       page_array := (page_array n)(p := fold (\<lambda>(r, d). set_notice_diff (fst r) (snd r) d) ds (page_array n p))\<rparr>"
    "length q = length (mem n p)" "set (map fst ds) = all_pending (nprocs n) (page_array n p)"
proof -
  let ?ws = "sort_notices (nprocs n) (page_array n p)"
  from assms obtain ds q rest where r: "receive_groups (diff_groups (ref_interval (page_array n p)) ?ws (length ?ws))
      msgs (mem n p) = Some (ds, q, rest)"
    and n': "n' = (fold (\<lambda>(r, d). upd_page p (set_notice_diff (fst r) (snd r) d)) ds
       (fold count_reply (take (length msgs - length rest) msgs) n))
        \<lparr>mem := (mem (fold (\<lambda>(r, d). upd_page p (set_notice_diff (fst r) (snd r) d)) ds
          (fold count_reply (take (length msgs - length rest) msgs) n)))(p := q)\<rparr>"
    by (auto simp: Tmk_diff_request_def Let_def split: option.splits)
  obtain st h where c: "fold count_reply (take (length msgs - length rest) msgs) n = n\<lparr>stat := st, diff_heap_2 := h\<rparr>"
    using fold_count_reply by blast
  have "map fst ds = rev ?ws" "length q = length (mem n p)"
    using receive_groups_frame [OF r] diff_groups_concat [of "length ?ws" ?ws "ref_interval (page_array n p)"] by auto
  then have "set (map fst ds) = all_pending (nprocs n) (page_array n p)" "length q = length (mem n p)"
    by (metis set_rev sort_notices_set)+
  moreover have "n' = n\<lparr>stat := st, diff_heap_2 := h, mem := (mem n)(p := q),
       page_array := (page_array n)(p := fold (\<lambda>(r, d). set_notice_diff (fst r) (snd r) d) ds (page_array n p))\<rparr>"
    by (simp add: n' c fold_set_notice)
  ultimately show ?thesis using that [OF r] by blast
qed

text \<open>The pages named in the notices get their diffs; nothing else in the page table entry changes.\<close>

lemma fold_set_notice_frame:
  fixes ds pg
  defines "pg' \<equiv> fold (\<lambda>(r, d). set_notice_diff (fst r) (snd r) d) ds pg"
  shows "pg_prev pg' = pg_prev pg" "pg_next pg' = pg_next pg" "pg_partner pg' = pg_partner pg"
    "pg_twin pg' = pg_twin pg" "pg_state pg' = pg_state pg" "pg_manager pg' = pg_manager pg"
    "pg_inval_toggle pg' = pg_inval_toggle pg" "pg_dirty_toggle pg' = pg_dirty_toggle pg"
    "i \<notin> (fst \<circ> fst) ` set ds \<Longrightarrow> pg_write_notice pg' i = pg_write_notice pg i"
  unfolding pg'_def by (induction ds arbitrary: pg) (auto simp: set_notice_diff_notices)

lemma core_inv_mem:
  assumes "core_inv n ds is free" "\<And>q. length (m q) = length (mem n q)"
  shows "core_inv (n\<lparr>mem := m\<rparr>) ds is free"
  using assms by (simp add: core_defs twin_inv_def)

lemma own_not_pending:
  assumes "core_inv n ds is free" "p < npages n" "pg_twin (page_array n p) = 0"
  shows "proc_id n \<notin> fst ` all_pending k (page_array n p)"
proof -
  have "\<not> undiffed (pg_write_notice (page_array n p) (proc_id n))"
    using assms by (auto simp: core_defs notice_ok_def)
  then have "pending (page_array n p) (proc_id n) = []"
    by (cases "pg_write_notice (page_array n p) (proc_id n)") (auto simp: pending_def undiffed_def)
  then show ?thesis by (auto simp: all_pending_def pending_def)
qed

lemma diff_request_core:
  assumes inv: "core_inv n ds is free" and p: "p < npages n" "pg_twin (page_array n p) = 0"
    and req: "Tmk_diff_request p msgs n = Some n'"
  shows "core_inv n' ds is free"
proof -
  obtain gs es q rest st h where r: "receive_groups gs msgs (mem n p) = Some (es, q, rest)" and n': "n' = n\<lparr>stat := st, diff_heap_2 := h, mem := (mem n)(p := q),
       page_array := (page_array n)(p := fold (\<lambda>(r, d). set_notice_diff (fst r) (snd r) d) es (page_array n p))\<rparr>"
    "length q = length (mem n p)" "set (map fst es) = all_pending (nprocs n) (page_array n p)"
    by (rule diff_request_eq [OF req]) (rule that)
  have me: "proc_id n \<notin> (fst \<circ> fst) ` set es"
    using own_not_pending [OF inv p, of "nprocs n"] n'(3) by (auto simp: image_image)
  have "core_inv (n\<lparr>mem := (mem n)(p := q)\<rparr>) ds is free"
    by (rule core_inv_mem [OF inv]) (simp add: n'(2))
  then show ?thesis
    by (rule core_inv_frame) (simp_all add: n'(1) fold_set_notice_frame(1-8) fold_set_notice_frame(9) [OF me])
qed

lemma fold_set_notice_length:
  "length (pg_write_notice (fold (\<lambda>(r, d). set_notice_diff (fst r) (snd r) d) ds pg) i) = length (pg_write_notice pg i)"
  by (induction ds arbitrary: pg) (auto simp: set_notice_diff_notices)

lemma fold_set_notice_diffs:
  assumes "k < length (pg_write_notice pg i)" "(i, k) \<in> fst ` set ds \<or> wn_diff (pg_write_notice pg i ! k) \<noteq> None"
  shows "wn_diff (pg_write_notice (fold (\<lambda>(r, d). set_notice_diff (fst r) (snd r) d) ds pg) i ! k) \<noteq> None"
  using assms
proof (induction ds arbitrary: pg)
  case (Cons e ds)
  obtain j l d where e: "e = ((j, l), d)" by (metis prod.exhaust)
  let ?pg = "set_notice_diff j l d pg"
  have "k < length (pg_write_notice ?pg i)" using Cons.prems(1) by (auto simp: set_notice_diff_notices)
  moreover have "(i, k) \<in> fst ` set ds \<or> wn_diff (pg_write_notice ?pg i ! k) \<noteq> None"
    using Cons.prems by (cases "i = j \<and> k = l") (auto simp: e set_notice_diff_notices nth_list_update)
  ultimately show ?case using Cons.IH [of ?pg] by (simp add: e)
qed simp

lemma all_pending_empty:
  "all_pending k pg = {} \<longleftrightarrow> (\<forall>i < max 1 k. pg_write_notice pg i \<noteq> [] \<longrightarrow> wn_diff (pg_write_notice pg i ! 0) \<noteq> None)"
proof -
  have "pending pg i = [] \<longleftrightarrow> (pg_write_notice pg i \<noteq> [] \<longrightarrow> wn_diff (pg_write_notice pg i ! 0) \<noteq> None)" for i
    by (cases "pg_write_notice pg i") (auto simp: pending_def)
  then show ?thesis by (auto simp: all_pending_def)
qed

lemma diff_request_current:
  assumes req: "Tmk_diff_request p msgs n = Some n'"
  shows "all_pending (nprocs n) (page_array n' p) = {}"
proof -
  obtain gs ds q rest st h where r: "receive_groups gs msgs (mem n p) = Some (ds, q, rest)" and n':
    "n' = n\<lparr>stat := st, diff_heap_2 := h, mem := (mem n)(p := q),
       page_array := (page_array n)(p := fold (\<lambda>(r, d). set_notice_diff (fst r) (snd r) d) ds (page_array n p))\<rparr>"
    "length q = length (mem n p)" "set (map fst ds) = all_pending (nprocs n) (page_array n p)"
    by (rule diff_request_eq [OF req]) (rule that)
  let ?ws = "pg_write_notice (page_array n p)"
  have "wn_diff (pg_write_notice (page_array n' p) i ! 0) \<noteq> None"
    if i: "i < max 1 (nprocs n)" "pg_write_notice (page_array n' p) i \<noteq> []" for i
  proof -
    have len: "0 < length (?ws i)" using i(2) by (simp add: n'(1) fold_set_notice_length flip: length_greater_0_conv)
    have "(i, 0) \<in> fst ` set ds \<or> wn_diff (?ws i ! 0) \<noteq> None"
    proof (cases "wn_diff (?ws i ! 0)")
      case None
      with len have "(i, 0) \<in> set (pending (page_array n p) i)" by (cases "?ws i") (auto simp: pending_def)
      with i(1) n'(3) show ?thesis by (auto simp: all_pending_def)
    qed simp
    from fold_set_notice_diffs [OF len this] show ?thesis by (simp add: n'(1))
  qed
  then show ?thesis unfolding all_pending_empty by blast
qed

section \<open>Faults keep the process coherent\<close>

definition allows :: "prot \<Rightarrow> bool \<Rightarrow> bool" where
  "allows pr write \<longleftrightarrow> pr = PROT_READ_WRITE \<or> \<not> write \<and> pr = PROT_READ"

text \<open>The page after the reply of its manager, if it was empty, and marked valid.\<close>

definition fetched :: "nat \<Rightarrow> fault \<Rightarrow> 'a node_scheme \<Rightarrow> 'a node_scheme" where
  "fetched i f n =
     (let n = set_protection i PROT_READ_WRITE n;
          n = (if pg_state (page_array n i) = Empty then Tmk_page_reply i (reply_size f) (reply_page f) n else n)
      in upd_page i (pg_state_update (\<lambda>_. Valid)) n)"

definition answered :: "nat \<Rightarrow> fault \<Rightarrow> 'a node_scheme \<Rightarrow> bool" where
  "answered i f n \<longleftrightarrow>
     (pg_state (page_array n i) = Empty \<longrightarrow> length (reply_page f) = page_size n div 4) \<and>
     (pg_state (page_array n i) \<noteq> Valid \<longrightarrow> Tmk_diff_request i (diff_msgs f) (fetched i f n) \<noteq> None)"

lemma fetched_core:
  assumes inv: "core_inv n ds is free" and i: "i < npages n" and ans: "answered i f n"
  shows "core_inv (fetched i f n) ds is free"
proof -
  let ?m = "if pg_state (page_array n i) = Empty then (mem n)(i := reply_page f) else mem n"
  have len: "length (mem n i) = page_size n div 4" using inv i by (simp add: core_defs)
  have "core_inv (n\<lparr>mem := ?m\<rparr>) ds is free"
    by (rule core_inv_mem [OF inv]) (use ans len in \<open>auto simp: answered_def\<close>)
  then show ?thesis
    by (rule core_inv_frame)
       (auto simp: fetched_def Let_def set_protection_def Tmk_page_reply_def upd_stat_def page_array_upd_page)
qed

lemma fetched_frame:
  "pg_twin (page_array (fetched i f n) q) = pg_twin (page_array n q)"
  "pg_state (page_array (fetched i f n) q) = (if q = i then Valid else pg_state (page_array n q))"
  "pg_write_notice (page_array (fetched i f n) q) = pg_write_notice (page_array n q)"
  "protection (fetched i f n) = (protection n)(i := PROT_READ_WRITE)"
  "npages (fetched i f n) = npages n" "nprocs (fetched i f n) = nprocs n" "proc_id (fetched i f n) = proc_id n"
  "q \<noteq> i \<Longrightarrow> mem (fetched i f n) q = mem n q"
  "proc_array (fetched i f n) = proc_array n" "proc_vector_time (fetched i f n) = proc_vector_time n"
  by (simp_all add: fetched_def Let_def set_protection_def Tmk_page_reply_def upd_stat_def page_array_upd_page)

text \<open>
  A property of the outcome of a fault: the access is retried in a coherent process in which it
  is allowed, and only the faulting page has changed.
\<close>

definition handled :: "nat \<Rightarrow> bool \<Rightarrow> 'a node_scheme \<Rightarrow> (nat \<times> nat) list \<Rightarrow> (nat \<times> nat) list \<Rightarrow> 'a node_scheme fault_result \<Rightarrow> bool" where
  "handled i write n ds is r \<longleftrightarrow>
     (\<exists>n' ds' free'. r = Retry n' \<and> node_inv n' ds' is free' \<and> allows (protection n' i) write \<and>
        pg_state (page_array n' i) = Valid \<and> all_pending (nprocs n) (page_array n' i) \<subseteq> all_pending (nprocs n) (page_array n i) \<and>
        (pg_state (page_array n i) \<noteq> Valid \<longrightarrow> all_pending (nprocs n) (page_array n' i) = {}) \<and>
        covered ds' = (if write then insert i (covered ds) else covered ds) \<and>
        (write \<longrightarrow> twin_mem n' (pg_twin (page_array n' i)) = mem n' i) \<and>
        npages n' = npages n \<and> proc_id n' = proc_id n \<and> nprocs n' = nprocs n \<and>
        proc_array n' = proc_array n \<and> proc_vector_time n' = proc_vector_time n \<and>
        (\<forall>q. q \<noteq> i \<longrightarrow> mem n' q = mem n q \<and> protection n' q = protection n q \<and>
           pg_state (page_array n' q) = pg_state (page_array n q)))"

lemma handled_make_dirty:
  assumes core: "core_inv m ds is free" and i: "i < npages m" "pg_twin (page_array m i) = 0" "i \<notin> covered is"
    and fresh: "fresh_for t m" and valid: "pg_state (page_array m i) = Valid" "protection m i = PROT_READ_WRITE"
    and others: "\<And>q. q < npages m \<Longrightarrow> q \<noteq> i \<Longrightarrow>
       prot_ok (pg_state (page_array m q)) (pg_twin (page_array m q)) (protection m q) (q \<in> covered is)"
    and from_n: "npages m = npages n" "proc_id m = proc_id n" "nprocs m = nprocs n" "proc_array m = proc_array n"
      "proc_vector_time m = proc_vector_time n"
      "\<And>q. q \<noteq> i \<Longrightarrow> mem m q = mem n q \<and> protection m q = protection n q \<and> pg_state (page_array m q) = pg_state (page_array n q)"
    and pend: "all_pending (nprocs n) (page_array m i) \<subseteq> all_pending (nprocs n) (page_array n i)"
      "pg_state (page_array n i) \<noteq> Valid \<Longrightarrow> all_pending (nprocs n) (page_array m i) = {}"
  shows "handled i True n ds is (make_dirty t i m)"
proof -
  obtain n' ds' free' where d: "make_dirty t i m = Retry n'" "core_inv n' ds' is free'"
    "covered ds' = insert i (covered ds)" "i \<notin> covered ds" "pg_twin (page_array n' i) \<noteq> 0"
    "twin_mem n' (pg_twin (page_array n' i)) = mem m i" "mem n' = mem m" "protection n' = protection m"
    "\<And>q. q \<noteq> i \<Longrightarrow> pg_twin (page_array n' q) = pg_twin (page_array m q)"
    "\<And>q. pg_state (page_array n' q) = pg_state (page_array m q)"
    "\<And>q. pg_write_notice (page_array n' q) = pg_write_notice (page_array m q)"
    "npages n' = npages m" "proc_id n' = proc_id m" "nprocs n' = nprocs m"
    "proc_array n' = proc_array m" "proc_vector_time n' = proc_vector_time m"
    by (rule make_dirty_core [OF core i fresh]) (rule that)
  have "prot_ok (pg_state (page_array n' q)) (pg_twin (page_array n' q)) (protection n' q) (q \<in> covered is)"
    if "q < npages m" for q
    using that d(5,8,9,10) valid i(3) others by (cases "q = i") (auto simp: prot_ok_def)
  then have "node_inv n' ds' is free'" using d(2,12) by (simp add: node_inv_def)
  moreover have "all_pending k (page_array n' i) = all_pending k (page_array m i)" for k
    by (simp add: all_pending_def pending_def d(11))
  ultimately show ?thesis
    unfolding handled_def using d valid from_n pend
    by (intro exI [of _ n'] exI [of _ ds'] exI [of _ free']) (simp add: allows_def)
qed

lemma handled_read:
  assumes core: "core_inv m ds is free" and i: "i < npages m" "pg_twin (page_array m i) = 0" "i \<notin> covered is"
    and valid: "pg_state (page_array m i) = Valid"
    and others: "\<And>q. q < npages m \<Longrightarrow> q \<noteq> i \<Longrightarrow>
       prot_ok (pg_state (page_array m q)) (pg_twin (page_array m q)) (protection m q) (q \<in> covered is)"
    and from_n: "npages m = npages n" "proc_id m = proc_id n" "nprocs m = nprocs n" "proc_array m = proc_array n"
      "proc_vector_time m = proc_vector_time n"
      "\<And>q. q \<noteq> i \<Longrightarrow> mem m q = mem n q \<and> protection m q = protection n q \<and> pg_state (page_array m q) = pg_state (page_array n q)"
    and pend: "all_pending (nprocs n) (page_array m i) = {}"
  shows "handled i False n ds is (Retry (set_protection i PROT_READ m))"
proof -
  have "prot_ok (pg_state (page_array m q)) (pg_twin (page_array m q)) (((protection m)(i := PROT_READ)) q) (q \<in> covered is)"
    if "q < npages m" for q
    using that i valid others by (cases "q = i") (auto simp: prot_ok_def)
  then have "node_inv (set_protection i PROT_READ m) ds is free"
    using core by (simp add: node_inv_def set_protection_def)
  then show ?thesis
    unfolding handled_def using from_n pend valid
    by (intro exI [of _ "set_protection i PROT_READ m"] exI [of _ ds] exI [of _ free])
       (simp add: set_protection_def allows_def)
qed

lemma segv_handler_handled:
  assumes inv: "node_inv n ds is free" and i: "i < npages n" "i \<notin> covered is"
    and denied: "\<not> allows (protection n i) (is_write f)"
    and env: "fresh_for (fresh_twin f) n" "answered i f n"
  shows "handled i (is_write f) n ds is (segv_handler i f n)"
proof -
  from inv have core: "core_inv n ds is free" by (simp add: node_inv_def)
  have prot: "prot_ok (pg_state (page_array n q)) (pg_twin (page_array n q)) (protection n q) (q \<in> covered is)" if "q < npages n" for q
    using inv that by (simp add: node_inv_def)
  have twin: "pg_twin (page_array n i) = 0"
    using prot [OF i(1)] denied by (auto simp: prot_ok_def allows_def split: page_state.splits if_splits)
  show ?thesis
  proof (cases "pg_state (page_array n i) = Valid")
    case True
    let ?m = "set_protection i PROT_READ_WRITE n"
    have w: "is_write f" using prot [OF i(1)] denied True twin by (auto simp: prot_ok_def allows_def)
    have "handled i True n ds is (make_dirty (fresh_twin f) i ?m)"
      by (rule handled_make_dirty [where free = free])
         (use core twin i env True prot in \<open>auto simp: set_protection_def fresh_for_def\<close>)
    with True w i(1) show ?thesis by (simp add: segv_handler_def set_protection_def)
  next
    case False
    then obtain m where m: "Tmk_diff_request i (diff_msgs f) (fetched i f n) = Some m"
      using env(2) by (auto simp: answered_def)
    have fc: "core_inv (fetched i f n) ds is free" by (rule fetched_core [OF core i(1) env(2)])
    have mc: "core_inv m ds is free"
      by (rule diff_request_core [OF fc _ _ m]) (use i twin in \<open>simp_all add: fetched_frame\<close>)
    obtain gs es q rest st h where r: "receive_groups gs (diff_msgs f) (mem (fetched i f n) i) = Some (es, q, rest)" and m':
      "m = (fetched i f n)\<lparr>stat := st, diff_heap_2 := h, mem := (mem (fetched i f n))(i := q),
         page_array := (page_array (fetched i f n))(i := fold (\<lambda>(r, d). set_notice_diff (fst r) (snd r) d) es (page_array (fetched i f n) i))\<rparr>"
      by (rule diff_request_eq [OF m]) (rule that)
    have pend: "all_pending (nprocs n) (page_array m i) = {}"
      using diff_request_current [OF m] by (simp add: fetched_frame)
    have fr: "npages m = npages n" "proc_id m = proc_id n" "nprocs m = nprocs n" "proc_array m = proc_array n"
      "proc_vector_time m = proc_vector_time n" "protection m i = PROT_READ_WRITE"
      "pg_twin (page_array m i) = 0" "pg_state (page_array m i) = Valid"
      "\<And>q. q \<noteq> i \<Longrightarrow> mem m q = mem n q \<and> protection m q = protection n q \<and> pg_state (page_array m q) = pg_state (page_array n q)"
      "\<And>q. pg_twin (page_array m q) = pg_twin (page_array n q)"
      using twin by (auto simp: m' fetched_frame fold_set_notice_frame)
    have eq: "segv_handler i f n = (if is_write f then make_dirty (fresh_twin f) i m else Retry (set_protection i PROT_READ m))"
      using False i(1) m by (simp add: segv_handler_def fetched_def Let_def set_protection_def)
    show ?thesis
    proof (cases "is_write f")
      case True
      have "handled i True n ds is (make_dirty (fresh_twin f) i m)"
        by (rule handled_make_dirty [OF mc])
           (use i env fr prot pend in \<open>auto simp: fresh_for_def\<close>)
      with True eq show ?thesis by simp
    next
      case False
      have "handled i False n ds is (Retry (set_protection i PROT_READ m))"
        by (rule handled_read [OF mc]) (use i fr prot pend in auto)
      with False eq show ?thesis by simp
    qed
  qed
qed

end
