(* ===== verification/Tmk_Process.thy ===== *)
theory Tmk_Process
  imports Tmk_Fault
begin

text \<open>
  One process as a state machine.  Its steps are what the program can do with the components
  below: writing a word of a page it may write, page faults, ending an interval at a release,
  incorporating another process's intervals at an acquire, and serving pages and diffs.  The
  coherence invariant holds in every reachable state.
\<close>

section \<open>Serving keeps the process coherent\<close>

lemma core_notice:
  "core_inv n ds is free \<Longrightarrow> p < npages n \<Longrightarrow>
   notice_ok (p \<in> covered ds) (pg_twin (page_array n p)) (pg_write_notice (page_array n p) (proc_id n))"
  by (simp add: core_defs)

lemma node_prot:
  "node_inv n ds is free \<Longrightarrow> p < npages n \<Longrightarrow>
   prot_ok (pg_state (page_array n p)) (pg_twin (page_array n p)) (protection n p) (p \<in> covered is)"
  by (simp add: node_inv_def)

lemma page_server_inv:
  assumes inv: "node_inv n ds is free" and p: "p < npages n"
  shows "node_inv (fst (Tmk_page_sigio_handler seqno p n)) ds is free"
proof -
  have core: "core_inv n ds is free" using inv by (simp add: node_inv_def)
  have ok: "prot_ok (pg_state (page_array n q)) (pg_twin (page_array n q)) (protection n q) (q \<in> covered is)"
    if "q < npages n" for q using node_prot [OF inv that] .
  let ?n = "fst (Tmk_page_sigio_handler seqno p n)"
  have "core_inv ?n ds is free"
    using core by (auto simp: Tmk_page_sigio_handler_def Let_def intro: core_inv_state)
  moreover have "prot_ok (pg_state (page_array ?n q)) (pg_twin (page_array ?n q)) (protection ?n q) (q \<in> covered is)"
    if "q < npages n" for q
    using ok [OF that] by (cases "q = p")
      (auto simp: Tmk_page_sigio_handler_def Let_def page_array_upd_page prot_ok_def split: page_state.splits if_splits)
  moreover have "npages ?n = npages n" by (simp add: Tmk_page_sigio_handler_def Let_def)
  ultimately show ?thesis by (simp add: node_inv_def)
qed

text \<open>
  A request this process can serve: it has the write notices asked for, and the diffs of those
  of other processes.
\<close>

definition servable :: "page_t \<Rightarrow> 'a node_scheme \<Rightarrow> (nat \<times> u16) list \<Rightarrow> bool" where
  "servable p n reqs \<longleftrightarrow>
     (\<forall>r \<in> set reqs. \<exists>k. find_notice (fst r) (snd r) (pg_write_notice (page_array n p) (fst r)) = Some k \<and>
        (fst r = proc_id n \<or> wn_diff (pg_write_notice (page_array n p) (fst r) ! k) \<noteq> None))"

lemma find_notice_undiffed:
  assumes "notice_ok b t ws" "find_notice pid time ws = Some k" "wn_diff (ws ! k) = None"
  shows "k = 0 \<and> undiffed ws"
proof (cases ws)
  case (Cons w ws')
  have "wn_diff (ws ! Suc j) \<noteq> None" if "Suc j < length ws" for j
    using assms(1) that by (auto simp: notice_ok_def Cons)
  with assms(3) find_notice_Some [OF assms(2)] have "k = 0" by (cases k) auto
  with assms(3) show ?thesis by (simp add: Cons undiffed_def)
qed (use assms in simp)

text \<open>Serving creates at most one diff: that of the last own interval that wrote the page.\<close>

lemma serve_all_diffed:
  assumes "\<And>r. r \<in> set reqs \<Longrightarrow> notice_diff n p r \<noteq> None"
  shows "\<exists>pk'. serve_diffs p reqs adjs (flag, pk, n) = Some (flag, pk', n)"
  using assms
proof (induction reqs arbitrary: adjs pk)
  case (Cons r reqs)
  obtain pid time where r: "r = (pid, time)" by (cases r)
  from Cons.prems [of r] obtain k d where
    "find_notice pid time (pg_write_notice (page_array n p) pid) = Some k"
    "wn_diff (pg_write_notice (page_array n p) pid ! k) = Some d"
    by (auto simp: r notice_diff_def Let_def bind_eq_Some_conv)
  with Cons show ?case by (simp add: r)
qed simp

lemma serve_diffs_inv:
  assumes core: "core_inv n ds is free" and p: "p < npages n" and ok: "servable p n reqs"
  shows "\<exists>flag' pk' n'. serve_diffs p reqs adjs (flag, pk, n) = Some (flag', pk', n') \<and>
     (flag' = flag \<and> n' = n \<or>
      flag' \<and> undiffed (pg_write_notice (page_array n p) (proc_id n)) \<and> Tmk_diff_create p (proc_id n) 0 n = Some n')"
  using ok
proof (induction reqs arbitrary: adjs pk)
  case (Cons r reqs)
  obtain pid time where r: "r = (pid, time)" by (cases r)
  let ?ws = "\<lambda>n. pg_write_notice (page_array n p)"
  from Cons.prems obtain k where k: "find_notice pid time (?ws n pid) = Some k"
    "pid = proc_id n \<or> wn_diff (?ws n pid ! k) \<noteq> None" by (auto simp: servable_def r)
  have ok: "servable p n reqs" using Cons.prems by (simp add: servable_def)
  show ?case
  proof (cases "wn_diff (?ws n pid ! k)")
    case (Some d)
    with k Cons.IH [OF ok] show ?thesis by (simp add: r)
  next
    case None
    with k(2) have pid: "pid = proc_id n" by simp
    have nok: "\<exists>b t. notice_ok b t (?ws n pid)" using core_notice [OF core p] pid by blast
    then have z: "k = 0" and un: "undiffed (?ws n pid)" using find_notice_undiffed [OF _ k(1) None] by blast+
    from diff_free_inv [OF core p] un pid obtain n1 where n1: "Tmk_diff_create p pid 0 n = Some n1" by auto
    have len: "0 < length (?ws n pid)" using find_notice_Some [OF k(1)] z by simp
    obtain d where d: "?ws n1 = (?ws n)(pid := (?ws n pid)[0 := (?ws n pid ! 0)
        \<lparr>wn_diff := Some d, wn_diff_size := of_nat (4 * length d)\<rparr>])"
      by (rule diff_create_notices [OF n1 len])
    have "notice_diff n1 p s \<noteq> None" if s: "s \<in> set reqs" for s
    proof -
      from ok s obtain l where l: "find_notice (fst s) (snd s) (?ws n (fst s)) = Some l"
        "fst s = pid \<or> wn_diff (?ws n (fst s) ! l) \<noteq> None" by (auto simp: servable_def pid)
      have "wn_diff (?ws n (fst s) ! l) \<noteq> None \<or> fst s = pid \<and> l = 0"
      proof (cases "wn_diff (?ws n (fst s) ! l)")
        case None
        with l have "fst s = pid" "find_notice (fst s) (snd s) (?ws n pid) = Some l" by auto
        with nok None find_notice_undiffed show ?thesis by blast
      qed simp
      moreover have "map wn_interval (?ws n1 i) = map wn_interval (?ws n i)" for i
        by (simp add: d)
      then have "find_notice (fst s) (snd s) (?ws n1 (fst s)) = Some l" using l(1) by (metis find_notice_cong)
      ultimately show ?thesis
        using find_notice_Some [OF l(1)] by (cases "l = 0") (auto simp: notice_diff_def d)
    qed
    from serve_all_diffed [OF this] obtain pk' where
      "serve_diffs p reqs (tl adjs) (True, pack_diff (adjs \<noteq> [] \<and> hd adjs) d pk, n1) = Some (True, pk', n1)" by blast
    moreover have "wn_diff (?ws n1 pid ! 0) = Some d" using len by (simp add: d)
    ultimately show ?thesis using k(1) None n1 z un pid by (simp add: r) blast
  qed
qed simp

lemma diff_server_inv:
  assumes inv: "node_inv n ds is free" and p: "p < npages n" and ok: "servable p n reqs"
  obtains msgs n' free' where "Tmk_diff_sigio_handler p reqs adjs n = Some (msgs, n')" "node_inv n' ds is free'"
    "mem n' = mem n" "npages n' = npages n" "proc_id n' = proc_id n"
proof -
  have core: "core_inv n ds is free" using inv by (simp add: node_inv_def)
  obtain flag' pk' n1 where s: "serve_diffs p reqs adjs (False, pack_start, n) = Some (flag', pk', n1)"
    "\<not> flag' \<and> n1 = n \<or>
     flag' \<and> undiffed (pg_write_notice (page_array n p) (proc_id n)) \<and> Tmk_diff_create p (proc_id n) 0 n = Some n1"
    using serve_diffs_inv [OF core p ok, of adjs False pack_start] by auto
  show ?thesis
  proof (cases flag')
    case False
    with s inv show ?thesis by (intro that [of _ n free]) (auto simp: Tmk_diff_sigio_handler_def)
  next
    case True
    with s have un: "undiffed (pg_write_notice (page_array n p) (proc_id n))"
      and c: "Tmk_diff_create p (proc_id n) 0 n = Some n1" by auto
    let ?free = "pg_twin (page_array n p) # free"
    from diff_free_inv [OF core p un] c have f: "core_inv (Tmk_twin_free p n1) ds is ?free"
      "keeps n (Tmk_twin_free p n1)" "pg_twin (page_array (Tmk_twin_free p n1) p) = 0"
      "\<And>q. q \<noteq> p \<Longrightarrow> page_array (Tmk_twin_free p n1) q = page_array n q" by auto
    have st: "pg_state (page_array n p) = Valid" "p \<notin> covered is"
      using node_prot [OF inv p] core_notice [OF core p] un
      by (auto simp: notice_ok_def prot_ok_def split: page_state.splits)
    have pr: "protection n1 = protection n" using f(2) by (simp add: keeps_def Tmk_twin_free_def Let_def)
    define m where "m = Tmk_twin_free p (n1\<lparr>protection := (protection n1)(p := PROT_READ)\<rparr>)"
    have eq: "m = (Tmk_twin_free p n1)\<lparr>protection := (protection n)(p := PROT_READ)\<rparr>"
      by (simp add: m_def Tmk_twin_free_def Let_def upd_page_def pr)
    have "prot_ok (pg_state (page_array m q)) (pg_twin (page_array m q)) (protection m q) (q \<in> covered is)"
      if "q < npages n" for q
      unfolding eq using f(2,3,4) st node_prot [OF inv that]
      by (cases "q = p") (auto simp: keeps_def prot_ok_def)
    moreover have "core_inv m ds is ?free" unfolding eq using f(1) by simp
    ultimately have "node_inv m ds is ?free" using f(2) unfolding eq node_inv_def by (simp add: keeps_def)
    then show ?thesis
      by (rule that [rotated])
         (use s(1) True f(2) eq in \<open>simp_all add: Tmk_diff_sigio_handler_def keeps_def flip: m_def\<close>)
  qed
qed

section \<open>Steps of a process\<close>

inductive process_step :: "'a node_scheme \<Rightarrow> 'a node_scheme \<Rightarrow> bool" where
  Write_word: "p < npages n \<Longrightarrow> allows (protection n p) True \<Longrightarrow> k < length (mem n p) \<Longrightarrow>
    process_step n (n\<lparr>mem := (mem n)(p := (mem n p)[k := w])\<rparr>)"
| Page_fault: "i < npages n \<Longrightarrow> \<not> allows (protection n i) (is_write f) \<Longrightarrow> fresh_for (fresh_twin f) n \<Longrightarrow>
    answered i f n \<Longrightarrow> segv_handler i f n = Retry n' \<Longrightarrow> process_step n n'"
| Release: "interval_create_arg Vt_proc n = Some (arg', n') \<Longrightarrow> process_step n n'"
| Acquire: "arg \<noteq> Vt_null \<Longrightarrow> peer_ok n m \<Longrightarrow>
    Tmk_interval_incorporate (Tmk_interval_request (m :: node) (proc_vector_time n)) arg n = Some (arg', n') \<Longrightarrow>
    process_step n n'"
| Serve_page: "p < npages n \<Longrightarrow> Tmk_page_sigio_handler seqno p n = (n', reply) \<Longrightarrow> process_step n n'"
| Serve_diffs: "p < npages n \<Longrightarrow> servable p n reqs \<Longrightarrow>
    Tmk_diff_sigio_handler p reqs adjs n = Some (msgs, n') \<Longrightarrow> process_step n n'"

inductive reachable :: "bool \<Rightarrow> nat \<Rightarrow> nat \<Rightarrow> nat \<Rightarrow> nat \<Rightarrow> node \<Rightarrow> bool" for valid pid np sz pages where
  Boot: "reachable valid pid np sz pages (Tmk_page_initialize valid (zero_node pid np sz pages))"
| Step: "reachable valid pid np sz pages n \<Longrightarrow> process_step n n' \<Longrightarrow> reachable valid pid np sz pages n'"

text \<open>Between two steps no invalidation is pending.\<close>

definition coherent :: "'a node_scheme \<Rightarrow> bool" where
  "coherent n \<longleftrightarrow> (\<exists>ds free. node_inv n ds [] free)"

lemma coherentI: "node_inv n ds [] free \<Longrightarrow> coherent n"
  unfolding coherent_def by blast

lemma write_word_inv:
  assumes "node_inv n ds is free"
  shows "node_inv (n\<lparr>mem := (mem n)(p := (mem n p)[k := w])\<rparr>) ds is free"
proof -
  have "core_inv (n\<lparr>mem := (mem n)(p := (mem n p)[k := w])\<rparr>) ds is free"
    by (rule core_inv_mem) (use assms in \<open>simp_all add: node_inv_def\<close>)
  then show ?thesis using assms by (simp add: node_inv_def)
qed

lemma process_step_coherent:
  assumes "process_step n n'" "coherent n"
  shows "coherent n'"
  using assms
proof (induction rule: process_step.induct)
  case (Write_word p n k w)
  then obtain ds free where "node_inv n ds [] free" by (auto simp: coherent_def)
  from write_word_inv [OF this] show ?case by (rule coherentI)
next
  case (Page_fault i n f n')
  then obtain ds free where "node_inv n ds [] free" by (auto simp: coherent_def)
  from segv_handler_handled [OF this, of i f] Page_fault show ?case by (auto simp: handled_def coherent_def)
next
  case (Release n arg' n')
  then obtain ds free where inv: "node_inv n ds [] free" by (auto simp: coherent_def)
  obtain vt m where m: "Tmk_interval_create (proc_vector_time n) n = Some (vt, m)" "node_inv m [] [] free"
    using interval_create_lemma [OF inv, of "proc_vector_time n"] by blast
  have "node_inv (m\<lparr>proc_vector_time := vt\<rparr>) [] [] free"
    using m(2) by (simp add: node_inv_def core_defs twin_inv_def)
  with Release m(1) show ?case by (auto simp: interval_create_arg_def intro: coherentI)
next
  case (Acquire arg n m arg' n')
  then obtain ds free where "node_inv n ds [] free" by (auto simp: coherent_def)
  from acquire_lemma [OF this Acquire.hyps(1,2)] Acquire.hyps(3) show ?case by (auto simp: coherent_def)
next
  case (Serve_page p n seqno n' reply)
  then obtain ds free where "node_inv n ds [] free" by (auto simp: coherent_def)
  from page_server_inv [OF this Serve_page.hyps(1), of seqno] Serve_page.hyps(2) show ?case by (auto intro: coherentI)
next
  case (Serve_diffs p n reqs adjs msgs n')
  then obtain ds free where inv: "node_inv n ds [] free" by (auto simp: coherent_def)
  obtain msgs' m free' where "Tmk_diff_sigio_handler p reqs adjs n = Some (msgs', m)" "node_inv m ds [] free'"
    by (rule diff_server_inv [OF inv Serve_diffs.hyps(1,2), of adjs])
  with Serve_diffs.hyps(3) show ?case by (auto intro: coherentI)
qed

lemma reachable_coherent:
  assumes "reachable valid pid np sz pages n" "page_words_ok (sz div 4)" "pages \<le> NPAGES" "1 < np"
  shows "coherent n"
  using assms(1)
proof (induction rule: reachable.induct)
  case Boot
  show ?case by (rule coherentI [OF boot_node_inv [OF assms(2-4)]])
next
  case (Step n n')
  then show ?case by (blast intro: process_step_coherent)
qed

section \<open>Properties\<close>

text \<open>
  C11: In every state a process can reach, whatever the interleaving of its own accesses and
  faults, releases and acquires, and requests it serves, the page table is coherent: a page can
  be written exactly when it is private or has a twin (so that every write will be found by a
  diff), it can be read exactly when it is private or valid, and ending the current interval
  always succeeds.
\<close>

theorem reachable_protection:
  assumes "reachable valid pid np sz pages n" "page_words_ok (sz div 4)" "pages \<le> NPAGES" "1 < np" "p < npages n"
  shows "(allows (protection n p) True \<longleftrightarrow> pg_state (page_array n p) = Private \<or> pg_twin (page_array n p) \<noteq> 0) \<and>
     (allows (protection n p) False \<longleftrightarrow> pg_state (page_array n p) \<in> {Private, Valid}) \<and>
     (\<exists>vt n'. Tmk_interval_create (proc_vector_time n) n = Some (vt, n'))"
proof -
  from reachable_coherent [OF assms(1-4)] obtain ds free where inv: "node_inv n ds [] free" by (auto simp: coherent_def)
  from node_prot [OF inv assms(5)] interval_create_lemma [OF inv, of "proc_vector_time n"] show ?thesis
    by (cases "pg_state (page_array n p)") (auto simp: prot_ok_def allows_def)
qed

text \<open>A process of four-word pages, valid everywhere, that writes page 3.\<close>

definition demo_node :: node where
  "demo_node = Tmk_page_initialize True (zero_node 1 2 16 16)"

definition demo_fault :: fault where
  "demo_fault = \<lparr>is_write = True, fresh_twin = 4096, reply_size = 0, reply_page = [], diff_msgs = []\<rparr>"

lemma demo_node_simps:
  "npages demo_node = 16" "nprocs demo_node = 2" "proc_id demo_node = 1" "page_size demo_node = 16"
  "pg_state (page_array demo_node 3) = Valid" "protection demo_node 3 = PROT_READ"
  "pg_twin (page_array demo_node q) = 0" "mem demo_node q = [0, 0, 0, 0]"
  "pg_write_notice (page_array demo_node q) i = []"
proof -
  have "replicate 4 (0 :: u32) = [0, 0, 0, 0]" by code_simp
  then show "npages demo_node = 16" "nprocs demo_node = 2" "proc_id demo_node = 1" "page_size demo_node = 16"
    "pg_state (page_array demo_node 3) = Valid" "protection demo_node 3 = PROT_READ"
    "pg_twin (page_array demo_node q) = 0" "mem demo_node q = [0, 0, 0, 0]"
    "pg_write_notice (page_array demo_node q) i = []"
    by (simp_all add: demo_node_def Tmk_page_initialize_def zero_node_def zero_page_def Let_def init_page_def
        mprotect_range_def inval_head_def page_dirty_def)
qed

lemma demo_node_inv: "node_inv demo_node [] [] []"
  unfolding demo_node_def by (rule boot_node_inv) (simp_all add: page_words_ok_def)

lemma demo_dirty:
  obtains n ds free where "segv_handler 3 demo_fault demo_node = Retry n" "node_inv n ds [] free" "covered ds = {3}"
    "proc_id n = 1" "npages n = 16" "proc_vector_time n = proc_vector_time demo_node"
    "reachable True 1 2 16 16 n" "pg_twin (page_array n 3) \<noteq> 0"
proof -
  have d: "\<not> allows (protection demo_node 3) (is_write demo_fault)"
    and env: "fresh_for (fresh_twin demo_fault) demo_node" "answered 3 demo_fault demo_node"
    by (simp_all add: allows_def demo_node_simps demo_fault_def fresh_for_def answered_def)
  have "handled 3 True demo_node [] [] (segv_handler 3 demo_fault demo_node)"
    using segv_handler_handled [OF demo_node_inv _ _ d env] by (simp add: demo_node_simps demo_fault_def)
  then obtain n ds free where n: "segv_handler 3 demo_fault demo_node = Retry n" "node_inv n ds [] free"
    "covered ds = {3}" "proc_id n = 1" "npages n = 16" "proc_vector_time n = proc_vector_time demo_node"
    "twin_mem n (pg_twin (page_array n 3)) = mem n 3" "allows (protection n 3) True" "pg_state (page_array n 3) = Valid"
    by (auto simp: handled_def demo_node_simps)
  have "reachable True 1 2 16 16 n"
  proof (rule reachable.Step)
    show "reachable True 1 2 16 16 demo_node" unfolding demo_node_def by (rule reachable.Boot)
    show "process_step demo_node n" by (rule process_step.Page_fault [OF _ d env n(1)]) (simp add: demo_node_simps)
  qed
  moreover have "pg_twin (page_array n 3) \<noteq> 0"
    using node_prot [OF n(2), of 3] n(5,8,9) by (auto simp: prot_ok_def allows_def split: if_splits)
  ultimately show ?thesis using n by (intro that)
qed

theorem reachable_protection_witness:
  "\<exists>n. reachable True 1 2 16 16 n \<and> pg_twin (page_array n 3) \<noteq> 0 \<and> allows (protection n 3) True \<and>
     (\<exists>vt n'. Tmk_interval_create (proc_vector_time n) n = Some (vt, n'))"
proof -
  obtain n where n: "reachable True 1 2 16 16 n" "pg_twin (page_array n 3) \<noteq> 0" "npages n = 16"
    using demo_dirty by metis
  from reachable_protection [OF n(1), of 3] n show ?thesis by (auto simp: page_words_ok_def)
qed

text \<open>The dirty page of the demonstration becomes a write notice when the interval ends.\<close>

theorem interval_create_covers_witness:
  "\<exists>n vt' n' iv. segv_handler 3 demo_fault demo_node = Retry n \<and> Tmk_interval_create (\<lambda>_. 7) n = Some (vt', n') \<and>
     vt' 1 = 8 \<and> range_pages (iv_ranges iv) = {3} \<and> hd (pg_write_notice (page_array n' 3) 1) = new_notice iv"
proof -
  obtain n ds free where n: "segv_handler 3 demo_fault demo_node = Retry n" "node_inv n ds [] free" "covered ds = {3}"
    "proc_id n = 1" using demo_dirty by metis
  from interval_create_covers [OF n(2), of "\<lambda>_. 7"] n(3,4) obtain vt' n' iv where
    "Tmk_interval_create (\<lambda>_. 7) n = Some (vt', n')" "vt' = (\<lambda>_. 7)(1 := 7 + 1)" "range_pages (iv_ranges iv) = {3}"
    "pg_write_notice (page_array n' 3) 1 = [new_notice iv] @ pg_write_notice (page_array n 3) 1"
    by auto
  with n(1) show ?thesis by (intro exI [of _ n] exI [of _ vt'] exI [of _ n'] exI [of _ iv]) simp
qed

text \<open>
  C12: A fault on a page that the process may not access in this way is resolved: the handler
  returns to retry the access, which is now allowed, in a coherent process; a write fault leaves
  a twin equal to the page and adds exactly this page to the dirty pages; no write notice
  of the page lacks its diff afterwards; and all other pages keep contents and protection.
\<close>

theorem segv_handler_resolves:
  assumes "node_inv n ds is free" "i < npages n" "i \<notin> covered is" "\<not> allows (protection n i) (is_write f)"
    and "fresh_for (fresh_twin f) n" "answered i f n"
  shows "\<exists>n' ds' free'. segv_handler i f n = Retry n' \<and> node_inv n' ds' is free' \<and>
     allows (protection n' i) (is_write f) \<and> pg_state (page_array n' i) = Valid \<and>
     covered ds' = (if is_write f then insert i (covered ds) else covered ds) \<and>
     (is_write f \<longrightarrow> twin_mem n' (pg_twin (page_array n' i)) = mem n' i) \<and>
     (pg_state (page_array n i) \<noteq> Valid \<longrightarrow> all_pending (nprocs n) (page_array n' i) = {}) \<and>
     (\<forall>q. q \<noteq> i \<longrightarrow> mem n' q = mem n q \<and> protection n' q = protection n q)"
  using segv_handler_handled [OF assms] unfolding handled_def by (elim exE conjE) (intro exI conjI, assumption+, blast)

theorem segv_handler_resolves_witness:
  "\<exists>n'. segv_handler 3 demo_fault demo_node = Retry n' \<and> allows (protection n' 3) True \<and>
     twin_mem n' (pg_twin (page_array n' 3)) = mem n' 3 \<and> mem n' 4 = mem demo_node 4"
proof -
  have "\<not> allows (protection demo_node 3) (is_write demo_fault)" "fresh_for (fresh_twin demo_fault) demo_node"
    "answered 3 demo_fault demo_node" "is_write demo_fault" "3 \<notin> covered []"
    by (simp_all add: allows_def demo_node_simps demo_fault_def fresh_for_def answered_def)
  with segv_handler_resolves [OF demo_node_inv, of 3 demo_fault] show ?thesis by (auto simp: demo_node_simps(1))
qed

section \<open>What a fault fetches\<close>

text \<open>
  Replies to the requests \<open>gs\<close>: for each, the diffs packed into messages and their effects on
  pages of \<open>len\<close> words.
\<close>

definition replies_to :: "nat \<Rightarrow> wref list \<Rightarrow> u32 list list list \<times> (u32 list \<Rightarrow> u32 list) list \<Rightarrow> bool" where
  "replies_to len g p \<longleftrightarrow> g \<noteq> [] \<and> length g = length (concat (fst p)) \<and> [] \<notin> set (fst p) \<and>
     list_all2 (applies len) (concat (fst p)) (snd p)"

lemma fold_applies_length:
  "list_all2 (applies len) ds fs \<Longrightarrow> length q = len \<Longrightarrow> length (fold (\<lambda>f. f) fs q) = len"
  by (induction ds fs arbitrary: q rule: list_all2_induct) (auto simp: applies_def)

lemma receive_groups_packed:
  assumes "list_all2 (replies_to len) gs ps" "length q = len"
  shows "\<exists>ds. receive_groups gs (concat (map (map concat \<circ> fst) ps)) q =
    Some (ds, fold (\<lambda>f. f) (concat (map snd ps)) q, [])"
  using assms
proof (induction gs ps arbitrary: q rule: list_all2_induct)
  case (Cons g gs p ps)
  obtain dss fs where p: "p = (dss, fs)" by (cases p)
  from Cons.hyps(1) have r: "g \<noteq> []" "length g = length (concat dss)" "[] \<notin> set dss" "list_all2 (applies len) (concat dss) fs"
    by (simp_all add: p replies_to_def)
  have "receive_diffs g (map concat dss @ concat (map (map concat \<circ> fst) ps)) q =
      Some (zip g (concat dss), fold (\<lambda>f. f) fs q, concat (map (map concat \<circ> fst) ps))"
    by (rule receive_diffs_groups) (use r Cons.prems in \<open>auto simp: list_all2_conv_all_nth\<close>)
  moreover obtain ds where "receive_groups gs (concat (map (map concat \<circ> fst) ps)) (fold (\<lambda>f. f) fs q) =
      Some (ds, fold (\<lambda>f. f) (concat (map snd ps)) (fold (\<lambda>f. f) fs q), [])"
    using Cons.IH fold_applies_length [OF r(4) Cons.prems] by blast
  ultimately show ?case by (simp add: p comp_def)
qed simp

lemma diff_request_applies:
  fixes n :: "'a node_scheme"
  defines "gs p \<equiv> diff_groups (ref_interval (page_array n p)) (sort_notices (nprocs n) (page_array n p))
      (length (sort_notices (nprocs n) (page_array n p)))"
  assumes "list_all2 (replies_to (length (mem n p))) (gs p) ps"
  shows "\<exists>n'. Tmk_diff_request p (concat (map (map concat \<circ> fst) ps)) n = Some n' \<and>
     mem n' p = fold (\<lambda>f. f) (concat (map snd ps)) (mem n p)"
  using receive_groups_packed [OF assms(2) refl] unfolding gs_def
  by (auto simp: Tmk_diff_request_def Let_def)

lemma make_dirty_mem: "make_dirty t i m = Retry n' \<Longrightarrow> mem n' = mem m"
  by (auto simp: make_dirty_def Tmk_page_dirty_merge_def dest: twin_alloc_copies(3) split: sum.splits)


text \<open>Page 3 of the demonstration, invalidated by an interval of process 0.\<close>

definition stale_node :: node where
  "stale_node = (upd_page 3 (\<lambda>pg. pg\<lparr>pg_state := Invalid, pg_write_notice := (\<lambda>j. if j = 0 then [new_notice writer_interval] else [])\<rparr>)
     demo_node)\<lparr>protection := (protection demo_node)(3 := PROT_NONE)\<rparr>"

lemma stale_node_inv: "node_inv stale_node [] [] []"
proof -
  have "core_inv stale_node [] [] []"
    by (rule core_inv_frame [where n = demo_node])
       (use demo_node_inv in \<open>auto simp: node_inv_def stale_node_def page_array_upd_page demo_node_simps\<close>)
  moreover have "prot_ok (pg_state (page_array stale_node q)) (pg_twin (page_array stale_node q)) (protection stale_node q) (q \<in> covered [])"
    if "q < npages demo_node" for q
    using node_prot [OF demo_node_inv that]
    by (cases "q = 3"; cases "pg_state (page_array demo_node q)")
       (simp_all add: stale_node_def page_array_upd_page demo_node_simps prot_ok_def)
  ultimately show ?thesis by (simp add: node_inv_def stale_node_def)
qed




end
