(* ===== verification/Tmk_Lock.thy ===== *)
theory Tmk_Lock
  imports Tmk_Process
begin

text \<open>
  Locks and their condition variables, \<^verbatim>\<open>Tmk/src/lock.c\<close>, as one process runs them.  A lock
  has a fixed manager that knows the last process of a distributed queue; each process of the
  queue knows its successor in \<^verbatim>\<open>next\<close>.  Requests travel with the requester's vector
  time and the answer carries the intervals it has not seen.  An operation returns the messages
  it sends; operations that wait for a message are split where they wait.
\<close>

section \<open>State\<close>

text \<open>\<^verbatim>\<open>struct req_syn\<close> and \<^verbatim>\<open>struct req_cond\<close>, without the request type that selects the handler.\<close>

record req_syn =
  rq_seqno :: u32
  rq_from :: nat
  rq_id :: nat
  rq_vector_time :: "nat \<Rightarrow> u16"

record req_cond = req_syn +
  rq_id2 :: nat

text \<open>
  The wait queue of a condition runs through \<^verbatim>\<open>waitq_[NPROCS]\<close>, one entry per process.
  \<^verbatim>\<open>waitq_tail\<close> points to the last entry, or, in an empty queue, to \<^verbatim>\<open>waitq_head\<close> itself seen as
  an entry whose \<^verbatim>\<open>next\<close> is the head: that is \<open>None\<close> here.
\<close>

record waitq_entry =
  we_next :: "nat option"
  we_req :: req_cond
  we_queued :: bool

record cond =
  waitq_head :: "nat option"
  waitq_tail :: "nat option"
  signal_vector_time :: "nat \<Rightarrow> u16"

record lock =
  lk_manager :: nat
  lk_tail :: nat
  lk_held :: bool
  lk_next :: nat
  lk_release_seqno :: u32
  lk_time :: u32
  lk_cond :: "nat \<Rightarrow> cond"

text \<open>
  The globals of \<^verbatim>\<open>lock.c\<close>: \<open>saved_time\<close> is \<^verbatim>\<open>vector_time[from]\<close>, \<open>tail_of\<close> is \<^verbatim>\<open>tail_\<close>; and the
  sequence numbers of requests made and received (\<^verbatim>\<open>req_seqno\<close>, \<^verbatim>\<open>rep_seqno_\<close>).
\<close>

record lnode = node +
  lock_array :: "nat \<Rightarrow> lock"
  saved_time :: "nat \<Rightarrow> nat \<Rightarrow> u16"
  tail_of :: "nat \<Rightarrow> nat"
  waitq :: "nat \<Rightarrow> waitq_entry"
  req_seqno :: u32
  rep_seqno :: "nat \<Rightarrow> u32"

datatype lock_send =
    Send_lock nat req_syn
  | Send_grant nat u32 "u16 list"
  | Send_wait nat req_cond
  | Send_signal nat req_cond
  | Send_broadcast nat req_cond
  | Send_ack nat u32

definition upd_lock :: "nat \<Rightarrow> (lock \<Rightarrow> lock) \<Rightarrow> 'a lnode_scheme \<Rightarrow> 'a lnode_scheme" where
  "upd_lock i f n = n\<lparr>lock_array := (lock_array n)(i := f (lock_array n i))\<rparr>"

definition upd_cond :: "nat \<Rightarrow> nat \<Rightarrow> (cond \<Rightarrow> cond) \<Rightarrow> 'a lnode_scheme \<Rightarrow> 'a lnode_scheme" where
  "upd_cond i j f = upd_lock i (\<lambda>l. l\<lparr>lk_cond := (lk_cond l)(j := f (lk_cond l j))\<rparr>)"

lemma upd_lock_simps [simp]:
  "lock_array (upd_lock i f n) k = (if k = i then f (lock_array n i) else lock_array n k)"
  "waitq (upd_lock i f n) = waitq n" "proc_id (upd_lock i f n) = proc_id n" "nprocs (upd_lock i f n) = nprocs n"
  "saved_time (upd_lock i f n) = saved_time n" "tail_of (upd_lock i f n) = tail_of n"
  "req_seqno (upd_lock i f n) = req_seqno n" "rep_seqno (upd_lock i f n) = rep_seqno n"
  "proc_vector_time (upd_lock i f n) = proc_vector_time n" "proc_array (upd_lock i f n) = proc_array n"
  by (simp_all add: upd_lock_def)

lemma upd_cond_simps [simp]:
  "lk_cond (lock_array (upd_cond i j f n) i) j = f (lk_cond (lock_array n i) j)"
  "waitq (upd_cond i j f n) = waitq n" "proc_id (upd_cond i j f n) = proc_id n" "nprocs (upd_cond i j f n) = nprocs n"
  by (simp_all add: upd_cond_def)

section \<open>Acquiring\<close>

text \<open>
  \<^verbatim>\<open>Tmk_lock_acquire\<close> up to its wait: the request it sends, if any, with the copy
  \<^verbatim>\<open>vector_time_\<close> of the vector time that it keeps for the answer.
\<close>

definition lock_request :: "nat \<Rightarrow> 'a lnode_scheme \<Rightarrow> req_syn" where
  "lock_request i n =
     \<lparr>rq_seqno = req_seqno n, rq_from = proc_id n, rq_id = i, rq_vector_time = proc_vector_time n\<rparr>"

definition Tmk_lock_acquire ::
  "nat \<Rightarrow> 'a lnode_scheme \<Rightarrow> (lock_send list \<times> (nat \<Rightarrow> u16) option \<times> 'a lnode_scheme) tmk_result" where
  "Tmk_lock_acquire i n =
     (if NLOCKS \<le> i then Inl (Errexit ''Tmk_lock_acquire: lock id'')
      else
        (let n = upd_stat (\<lambda>s. s\<lparr>acquires := acquires s + 1\<rparr>) n; me = proc_id n
         in if lk_held (lock_array n i) then Inl (Errexit ''Tmk_lock_acquire: REacquired'')
            else
              (let n = upd_lock i (lk_held_update (\<lambda>_. True)) n
               in if lk_next (lock_array n i) \<noteq> me then
                    (let n = upd_lock i (lk_next_update (\<lambda>_. me)) n;
                         from = lk_manager (lock_array n i);
                         to = (if from = me then lk_tail (lock_array n i) else from);
                         n = (if from = me then upd_lock i (lk_tail_update (\<lambda>_. me)) n else n);
                         n = n\<lparr>req_seqno := req_seqno n + SEQNO_INCR\<rparr>
                     in Inr ([Send_lock to (lock_request i n)], Some (proc_vector_time n), n))
                  else Inr ([], None, n))))"

text \<open>
  The rest, when the answer with the matching sequence number has arrived; \<open>dt\<close> is the measured
  waiting time (0 unless \<^verbatim>\<open>tmk_stat_flag > 2\<close>).
\<close>

definition Tmk_lock_acquired ::
  "u32 \<Rightarrow> u32 \<Rightarrow> u16 list \<Rightarrow> (nat \<Rightarrow> u16) \<Rightarrow> 'a lnode_scheme \<Rightarrow> 'a lnode_scheme tmk_result" where
  "Tmk_lock_acquired dt size_r data vt n =
     tmk_bind (tmk_option (Tmk_interval_incorporate data (Vt_array vt)
       (upd_stat (\<lambda>s. s\<lparr>acquire_time := acquire_time s + dt, bytes := bytes s + size_r,
                        messages_for_acquires := messages_for_acquires s + 1\<rparr>) n)))
       (\<lambda>(arg, n). Inr n)"

section \<open>Requests\<close>

text \<open>Answering a request with the intervals its sender has not seen.\<close>

definition grant :: "nat \<Rightarrow> nat \<Rightarrow> u32 \<Rightarrow> (nat \<Rightarrow> u16) \<Rightarrow> 'a lnode_scheme \<Rightarrow> lock_send list \<times> 'a lnode_scheme" where
  "grant i to seqno vt n =
     (let n = upd_lock i (lk_release_seqno_update (\<lambda>_. seqno)) n
      in ([Send_grant to seqno (Tmk_interval_request n vt)],
          n\<lparr>inverse_time := (inverse_time n)(to := proc_vector_time n (proc_id n))\<rparr>))"

definition end_interval :: "'a lnode_scheme \<Rightarrow> 'a lnode_scheme tmk_result" where
  "end_interval n = tmk_bind (tmk_option (interval_create_arg Vt_proc n)) (\<lambda>(arg, n). Inr n)"

text \<open>
  A request that reaches the end of the queue: a free lock is granted, otherwise the requester's
  vector time is saved for the release; then the requester becomes the next process, and on the
  manager also the tail.
\<close>

definition answer_request ::
  "'b req_syn_scheme \<Rightarrow> 'a lnode_scheme \<Rightarrow> (lock_send list \<times> 'a lnode_scheme) tmk_result" where
  "answer_request req n =
     (let i = rq_id req; l = lock_array n i
      in if \<not> lk_held l then
           tmk_bind (if lk_time l = ucast (proc_vector_time n (proc_id n)) then end_interval n else Inr n)
             (\<lambda>n. Inr (grant i (rq_from req) (rq_seqno req) (rq_vector_time req) n))
         else Inr ([], n\<lparr>saved_time := (saved_time n)(rq_from req := rq_vector_time req)\<rparr>))"

definition link_request :: "nat \<Rightarrow> nat \<Rightarrow> 'a lnode_scheme \<Rightarrow> 'a lnode_scheme" where
  "link_request i from n =
     (let n = upd_lock i (lk_next_update (\<lambda>_. from)) n
      in if lk_manager (lock_array n i) = proc_id n then upd_lock i (lk_tail_update (\<lambda>_. from)) n else n)"

definition Tmk_lock_sigio_handler ::
  "'b req_syn_scheme \<Rightarrow> 'a lnode_scheme \<Rightarrow> (lock_send list \<times> 'a lnode_scheme) tmk_result" where
  "Tmk_lock_sigio_handler req n =
     (let i = rq_id req; l = lock_array n i; from = rq_from req
      in if lk_next l = proc_id n then
           tmk_bind (answer_request req n) (\<lambda>(ms, n). Inr (ms, link_request i from n))
         else if lk_manager l = proc_id n then
           Inr ([Send_lock (lk_tail l) (req_syn.truncate req)],
                upd_lock i (lk_tail_update (\<lambda>_. from)) (n\<lparr>tail_of := (tail_of n)(from := lk_tail l)\<rparr>))
         else Inl (Errexit ''Tmk_lock_sigio_handler<next>''))"

text \<open>A repeated request is answered again, ignored, or forwarded to where the first one went.\<close>

definition Tmk_lock_sigio_duplicate_handler ::
  "'b req_syn_scheme \<Rightarrow> 'a lnode_scheme \<Rightarrow> lock_send list \<times> 'a lnode_scheme" where
  "Tmk_lock_sigio_duplicate_handler req n =
     (let l = lock_array n (rq_id req); from = rq_from req
      in if lk_release_seqno l = rq_seqno req
         then ([Send_grant from (rq_seqno req) (Tmk_interval_request n (rq_vector_time req))], n)
         else if lk_held l \<and> lk_next l = from then ([], n)
         else if lk_manager l = proc_id n then ([Send_lock (tail_of n from) (req_syn.truncate req)], n)
         else ([], n))"

section \<open>Releasing\<close>

definition Tmk_lock_release :: "nat \<Rightarrow> 'a lnode_scheme \<Rightarrow> (lock_send list \<times> 'a lnode_scheme) tmk_result" where
  "Tmk_lock_release i n =
     (if NLOCKS \<le> i then Inl (Errexit ''Tmk_lock_release: lock id'')
      else if \<not> lk_held (lock_array n i) then Inl (Errexit ''Tmk_lock_release: REreleased'')
      else
        (let n = upd_lock i (lk_held_update (\<lambda>_. False)) n; to = lk_next (lock_array n i)
         in if to \<noteq> proc_id n
            then tmk_bind (end_interval n) (\<lambda>n. Inr (grant i to (rep_seqno n to) (saved_time n to) n))
            else Inr ([], upd_lock i (lk_time_update (\<lambda>_. ucast (proc_vector_time n (proc_id n)))) n)))"

section \<open>Condition variables\<close>

definition update_time :: "nat \<Rightarrow> (nat \<Rightarrow> u16) \<Rightarrow> cond \<Rightarrow> cond" where
  "update_time np vt c =
     c\<lparr>signal_vector_time := (\<lambda>i. if i < max 1 np \<and> signal_vector_time c i < vt i then vt i
                                    else signal_vector_time c i)\<rparr>"

text \<open>Appending an entry: \<^verbatim>\<open>cond->waitq_tail = cond->waitq_tail->next = we\<close>.\<close>

definition waitq_enqueue :: "nat \<Rightarrow> nat \<Rightarrow> nat \<Rightarrow> 'a lnode_scheme \<Rightarrow> 'a lnode_scheme" where
  "waitq_enqueue i j p n =
     (let n = n\<lparr>waitq := (waitq n)(p := (waitq n p)\<lparr>we_next := None\<rparr>)\<rparr>;
          n = (case waitq_tail (lk_cond (lock_array n i) j) of
                 None \<Rightarrow> upd_cond i j (waitq_head_update (\<lambda>_. Some p)) n
               | Some t \<Rightarrow> n\<lparr>waitq := (waitq n)(t := (waitq n t)\<lparr>we_next := Some p\<rparr>)\<rparr>);
          n = upd_cond i j (waitq_tail_update (\<lambda>_. Some p)) n
      in n\<lparr>waitq := (waitq n)(p := (waitq n p)\<lparr>we_queued := True\<rparr>)\<rparr>)"

text \<open>Unlinking the head; the result is the entry, if there is one.\<close>

definition waitq_unlink :: "nat \<Rightarrow> nat \<Rightarrow> 'a lnode_scheme \<Rightarrow> nat option \<times> 'a lnode_scheme" where
  "waitq_unlink i j n =
     (case waitq_head (lk_cond (lock_array n i) j) of
        None \<Rightarrow> (None, n)
      | Some p \<Rightarrow>
          (let n = upd_cond i j (waitq_head_update (\<lambda>_. we_next (waitq n p))) n;
               n = (if we_next (waitq n p) = None then upd_cond i j (waitq_tail_update (\<lambda>_. None)) n else n)
           in (Some p, n\<lparr>waitq := (waitq n)(p := (waitq n p)\<lparr>we_queued := False\<rparr>)\<rparr>)))"

text \<open>A dequeued request of another process is handled as a lock request.\<close>

definition waitq_dequeue ::
  "nat \<Rightarrow> nat \<Rightarrow> 'a lnode_scheme \<Rightarrow> (bool \<times> lock_send list \<times> 'a lnode_scheme) tmk_result" where
  "waitq_dequeue i j n =
     (case waitq_unlink i j n of
        (None, n) \<Rightarrow> Inr (False, [], n)
      | (Some p, n) \<Rightarrow>
          if rq_from (we_req (waitq n p)) \<noteq> proc_id n
          then tmk_bind (Tmk_lock_sigio_handler (we_req (waitq n p)) n) (\<lambda>(ms, n). Inr (True, ms, n))
          else Inr (True, [], n))"

text \<open>\<^verbatim>\<open>while (waitq_dequeue(cond));\<close>\<close>

partial_function (option) dequeue_all ::
  "nat \<Rightarrow> nat \<Rightarrow> 'a lnode_scheme \<Rightarrow> (lock_send list \<times> 'a lnode_scheme) tmk_result option" where
  "dequeue_all i j n =
     (case waitq_dequeue i j n of
        Inl e \<Rightarrow> Some (Inl e)
      | Inr (found, ms, n) \<Rightarrow>
          if found then Option.bind (dequeue_all i j n) (\<lambda>r. Some (tmk_bind r (\<lambda>(ms', n). Inr (ms @ ms', n))))
          else Some (Inr (ms, n)))"

definition broadcast :: "nat \<Rightarrow> nat \<Rightarrow> (nat \<Rightarrow> u16) \<Rightarrow> 'a lnode_scheme \<Rightarrow> (lock_send list \<times> 'a lnode_scheme) tmk_result" where
  "broadcast i j vt n =
     (case dequeue_all i j n of
        None \<Rightarrow> Inl Wild_access
      | Some r \<Rightarrow> tmk_bind r (\<lambda>(ms, n). Inr (ms, upd_cond i j (update_time (nprocs n) vt) n)))"

definition signal :: "nat \<Rightarrow> nat \<Rightarrow> (nat \<Rightarrow> u16) \<Rightarrow> 'a lnode_scheme \<Rightarrow> (lock_send list \<times> 'a lnode_scheme) tmk_result" where
  "signal i j vt n =
     tmk_bind (waitq_dequeue i j n) (\<lambda>(more, ms, n). Inr (ms, upd_cond i j (update_time (nprocs n) vt) n))"

definition cond_request :: "nat \<Rightarrow> nat \<Rightarrow> 'a lnode_scheme \<Rightarrow> req_cond" where
  "cond_request i j n = req_syn.extend (lock_request i n) (req_cond.fields j)"

text \<open>
  \<^verbatim>\<open>Tmk_lock_cond_broadcast\<close> and \<^verbatim>\<open>Tmk_lock_cond_signal\<close>: on the manager the queue is served at once;
  elsewhere a request goes to the manager, whose acknowledgement is counted on arrival.
\<close>

definition Tmk_lock_cond_broadcast ::
  "nat \<Rightarrow> nat \<Rightarrow> 'a lnode_scheme \<Rightarrow> (lock_send list \<times> 'a lnode_scheme) tmk_result" where
  "Tmk_lock_cond_broadcast i j n =
     (if NLOCKS \<le> i then Inl (Errexit ''Tmk_lock_cond_broadcast: lock id'')
      else if NCONDS \<le> j then Inl (Errexit ''Tmk_lock_cond_broadcast: cond id'')
      else
        (let n = upd_stat (\<lambda>s. s\<lparr>broadcasts := broadcasts s + 1\<rparr>) n; manager = lk_manager (lock_array n i)
         in if manager = proc_id n then broadcast i j (proc_vector_time n) n
            else
              (let n = n\<lparr>req_seqno := req_seqno n + SEQNO_INCR\<rparr>
               in Inr ([Send_broadcast manager (cond_request i j n)], n))))"

definition Tmk_lock_cond_signal ::
  "nat \<Rightarrow> nat \<Rightarrow> 'a lnode_scheme \<Rightarrow> (lock_send list \<times> 'a lnode_scheme) tmk_result" where
  "Tmk_lock_cond_signal i j n =
     (if NLOCKS \<le> i then Inl (Errexit ''Tmk_lock_cond_signal: lock id'')
      else if NCONDS \<le> j then Inl (Errexit ''Tmk_lock_cond_signal: cond id'')
      else
        (let n = upd_stat (\<lambda>s. s\<lparr>signals := signals s + 1\<rparr>) n; manager = lk_manager (lock_array n i)
         in if manager = proc_id n then signal i j (proc_vector_time n) n
            else
              (let n = n\<lparr>req_seqno := req_seqno n + SEQNO_INCR\<rparr>
               in Inr ([Send_signal manager (cond_request i j n)], n))))"

definition cond_acked :: "u32 \<Rightarrow> 'a lnode_scheme \<Rightarrow> 'a lnode_scheme" where
  "cond_acked size_r n = upd_stat (\<lambda>s. s\<lparr>messages := messages s + 1, bytes := bytes s + size_r\<rparr>) n"

definition Tmk_cond_broadcast_sigio_handler ::
  "req_cond \<Rightarrow> 'a lnode_scheme \<Rightarrow> (lock_send list \<times> 'a lnode_scheme) tmk_result" where
  "Tmk_cond_broadcast_sigio_handler req n =
     tmk_bind (broadcast (rq_id req) (rq_id2 req) (rq_vector_time req) n)
       (\<lambda>(ms, n). Inr (ms @ [Send_ack (rq_from req) (rq_seqno req)], n))"

definition Tmk_cond_signal_sigio_handler ::
  "req_cond \<Rightarrow> 'a lnode_scheme \<Rightarrow> (lock_send list \<times> 'a lnode_scheme) tmk_result" where
  "Tmk_cond_signal_sigio_handler req n =
     tmk_bind (signal (rq_id req) (rq_id2 req) (rq_vector_time req) n)
       (\<lambda>(ms, n). Inr (ms @ [Send_ack (rq_from req) (rq_seqno req)], n))"

text \<open>
  \<^verbatim>\<open>Tmk_lock_cond_wait\<close> from the end of its first wait, when another process has asked for the
  lock; up to then only the statistics change.  On the manager the process queues itself and
  acquires the lock again when its entry has been dequeued (\<^verbatim>\<open>cond_wait_woken\<close>); elsewhere the
  wait request stands for the new lock request, and the answer is incorporated as one.
\<close>

definition cond_wait_check :: "nat \<Rightarrow> nat \<Rightarrow> 'a lnode_scheme \<Rightarrow> 'a lnode_scheme tmk_result" where
  "cond_wait_check i j n =
     (if NLOCKS \<le> i then Inl (Errexit ''Tmk_lock_cond_wait: lock id'')
      else if NCONDS \<le> j then Inl (Errexit ''Tmk_lock_cond_wait: cond id'')
      else if \<not> lk_held (lock_array n i) then Inl (Errexit ''Tmk_lock_cond_wait: lock not held'')
      else Inr (upd_stat (\<lambda>s. s\<lparr>waits := waits s + 1\<rparr>) n))"

definition Tmk_lock_cond_wait ::
  "nat \<Rightarrow> nat \<Rightarrow> 'a lnode_scheme \<Rightarrow> (lock_send list \<times> (nat \<Rightarrow> u16) option \<times> 'a lnode_scheme) tmk_result" where
  "Tmk_lock_cond_wait i j n =
     tmk_bind (Tmk_lock_release i n) (\<lambda>(ms, n).
       let me = proc_id n; manager = lk_manager (lock_array n i)
       in if manager = me then Inr (ms, None, waitq_enqueue i j me n)
          else
            (let n = upd_lock i (\<lambda>l. l\<lparr>lk_held := True, lk_next := me\<rparr>) n;
                 n = n\<lparr>req_seqno := req_seqno n + SEQNO_INCR\<rparr>
             in Inr (ms @ [Send_wait manager (cond_request i j n)], Some (proc_vector_time n), n)))"

definition cond_wait_woken ::
  "nat \<Rightarrow> 'a lnode_scheme \<Rightarrow> (lock_send list \<times> (nat \<Rightarrow> u16) option \<times> 'a lnode_scheme) tmk_result option" where
  "cond_wait_woken i n = (if we_queued (waitq n (proc_id n)) then None else Some (Tmk_lock_acquire i n))"

definition cond_wait_granted ::
  "u32 \<Rightarrow> u16 list \<Rightarrow> (nat \<Rightarrow> u16) \<Rightarrow> 'a lnode_scheme \<Rightarrow> 'a lnode_scheme tmk_result" where
  "cond_wait_granted size_r data vt n =
     tmk_bind (tmk_option (Tmk_interval_incorporate data (Vt_array vt) (cond_acked size_r n))) (\<lambda>(arg, n). Inr n)"

text \<open>A wait request older than the last signal is a lock request; otherwise it is queued.\<close>

definition Tmk_cond_wait_sigio_handler ::
  "req_cond \<Rightarrow> 'a lnode_scheme \<Rightarrow> (lock_send list \<times> 'a lnode_scheme) tmk_result" where
  "Tmk_cond_wait_sigio_handler req n =
     (let i = rq_id req; j = rq_id2 req; from = rq_from req
      in if rq_vector_time req from \<le> signal_vector_time (lk_cond (lock_array n i) j) from
         then Tmk_lock_sigio_handler req n
         else Inr ([], waitq_enqueue i j from (n\<lparr>waitq := (waitq n)(from := (waitq n from)\<lparr>we_req := req\<rparr>)\<rparr>)))"

definition Tmk_cond_wait_sigio_duplicate_handler ::
  "req_cond \<Rightarrow> 'a lnode_scheme \<Rightarrow> lock_send list \<times> 'a lnode_scheme" where
  "Tmk_cond_wait_sigio_duplicate_handler req n =
     (let we = waitq n (rq_from req)
      in if we_queued we \<and> rq_seqno (we_req we) = rq_seqno req then ([], n)
         else Tmk_lock_sigio_duplicate_handler req n)"

section \<open>Initialisation\<close>

definition init_cond :: cond where
  "init_cond = \<lparr>waitq_head = None, waitq_tail = None, signal_vector_time = (\<lambda>_. 0)\<rparr>"

text \<open>\<^verbatim>\<open>release_seqno\<close> and \<^verbatim>\<open>time\<close> keep their static zero.\<close>

definition Tmk_lock_initialize :: "'a lnode_scheme \<Rightarrow> 'a lnode_scheme" where
  "Tmk_lock_initialize n =
     n\<lparr>lock_array := (\<lambda>i. if i < NLOCKS
          then (lock_array n i)\<lparr>lk_manager := i mod nprocs n, lk_tail := 0, lk_held := False, lk_next := 0,
                 lk_cond := (\<lambda>j. if j < NCONDS then init_cond else lk_cond (lock_array n i) j)\<rparr>
          else lock_array n i),
       waitq := (waitq n)(proc_id n := (waitq n (proc_id n))\<lparr>we_req := (we_req (waitq n (proc_id n)))\<lparr>rq_from := proc_id n\<rparr>\<rparr>)\<rparr>"

section \<open>The wait queue is a FIFO queue\<close>

text \<open>The interface of a queue whose states represent lists of distinct elements.\<close>

locale fifo_queue =
  fixes rep :: "'s \<Rightarrow> 'e list \<Rightarrow> bool" and enq :: "'e \<Rightarrow> 's \<Rightarrow> 's" and deq :: "'s \<Rightarrow> 'e option \<times> 's"
  assumes enq_rep: "rep s xs \<Longrightarrow> x \<notin> set xs \<Longrightarrow> rep (enq x s) (xs @ [x])"
    and deq_empty: "rep s [] \<Longrightarrow> deq s = (None, s)"
    and deq_rep: "rep s (x # xs) \<Longrightarrow> \<exists>s'. deq s = (Some x, s') \<and> rep s' xs"
begin

fun drain :: "nat \<Rightarrow> 's \<Rightarrow> 'e list \<times> 's" where
  "drain 0 s = ([], s)"
| "drain (Suc k) s = (case deq s of (None, s) \<Rightarrow> ([], s) | (Some x, s) \<Rightarrow> (case drain k s of (xs, s) \<Rightarrow> (x # xs, s)))"

lemma enq_all: "rep s xs \<Longrightarrow> distinct (xs @ ys) \<Longrightarrow> rep (fold enq ys s) (xs @ ys)"
proof (induction ys arbitrary: s xs)
  case (Cons y ys)
  then have "rep (enq y s) (xs @ [y])" by (intro enq_rep) auto
  with Cons.IH [of "enq y s" "xs @ [y]"] Cons.prems show ?case by auto
qed simp

lemma drain_all: "rep s xs \<Longrightarrow> length xs \<le> k \<Longrightarrow> \<exists>s'. drain k s = (xs, s') \<and> rep s' []"
proof (induction k arbitrary: s xs)
  case (Suc k)
  show ?case
  proof (cases xs)
    case Nil
    with Suc.prems deq_empty show ?thesis by auto
  next
    case (Cons x ys)
    with Suc.prems deq_rep obtain s1 where "deq s = (Some x, s1)" "rep s1 ys" by blast
    with Suc.IH [of s1 ys] Suc.prems Cons show ?thesis by auto
  qed
qed auto

lemma first_in_first_out:
  assumes "rep s []" "distinct xs"
  shows "\<exists>s'. drain (length xs) (fold enq xs s) = (xs, s') \<and> rep s' []"
  using enq_all [of s "[]" xs] drain_all [of "fold enq xs s" xs "length xs"] assms by simp

end

text \<open>Following \<^verbatim>\<open>next\<close> from the head visits the entries of the list, all of them marked as queued.\<close>

fun wait_chain :: "(nat \<Rightarrow> waitq_entry) \<Rightarrow> nat option \<Rightarrow> nat list \<Rightarrow> bool" where
  "wait_chain w h [] \<longleftrightarrow> h = None"
| "wait_chain w h (p # ps) \<longleftrightarrow> h = Some p \<and> we_queued (w p) \<and> wait_chain w (we_next (w p)) ps"

definition waitq_rep :: "nat \<Rightarrow> nat \<Rightarrow> 'a lnode_scheme \<Rightarrow> nat list \<Rightarrow> bool" where
  "waitq_rep i j n ps \<longleftrightarrow> distinct ps \<and>
     wait_chain (waitq n) (waitq_head (lk_cond (lock_array n i) j)) ps \<and>
     waitq_tail (lk_cond (lock_array n i) j) = (if ps = [] then None else Some (last ps))"

lemma wait_chain_cong:
  "(\<And>p. p \<in> set ps \<Longrightarrow> we_queued (w p) = we_queued (v p) \<and> we_next (w p) = we_next (v p)) \<Longrightarrow> wait_chain w h ps = wait_chain v h ps"
  by (induction ps arbitrary: h) auto

lemma wait_chain_snoc:
  assumes "wait_chain w h ps" "p \<notin> set ps" "ps \<noteq> []" "distinct ps"
  shows "wait_chain (w(last ps := (w (last ps))\<lparr>we_next := Some p\<rparr>, p := (w p)\<lparr>we_next := None, we_queued := True\<rparr>)) h (ps @ [p])"
  using assms
proof (induction ps arbitrary: h)
  case (Cons x ps)
  show ?case
  proof (cases "ps = []")
    case False
    have "wait_chain (w(last ps := (w (last ps))\<lparr>we_next := Some p\<rparr>, p := (w p)\<lparr>we_next := None, we_queued := True\<rparr>))
       (we_next (w x)) (ps @ [p])" by (intro Cons.IH) (use Cons.prems False in auto)
    moreover have "x \<noteq> last ps" "x \<noteq> p" using Cons.prems False by auto
    ultimately show ?thesis using Cons.prems False by (simp del: fun_upd_apply add: fun_upd_other)
  qed (use Cons.prems in auto)
qed simp

lemma waitq_enqueue_rep:
  assumes rep: "waitq_rep i j n ps" and p: "p \<notin> set ps"
  shows "waitq_rep i j (waitq_enqueue i j p n) (ps @ [p])"
proof (cases "ps = []")
  case True
  with rep show ?thesis by (simp add: waitq_rep_def waitq_enqueue_def Let_def)
next
  case False
  let ?t = "last ps"
  have c: "wait_chain (waitq n) (waitq_head (lk_cond (lock_array n i) j)) ps" "distinct ps"
    "waitq_tail (lk_cond (lock_array n i) j) = Some ?t" using rep False by (simp_all add: waitq_rep_def)
  have "?t \<noteq> p" using p False by auto
  then have "waitq (waitq_enqueue i j p n) =
      (waitq n)(?t := (waitq n ?t)\<lparr>we_next := Some p\<rparr>, p := (waitq n p)\<lparr>we_next := None, we_queued := True\<rparr>)"
    using c(3) by (simp add: waitq_enqueue_def Let_def fun_upd_twist)
  with wait_chain_snoc [OF c(1) p False c(2)] c(2,3) p show ?thesis
    by (simp add: waitq_rep_def waitq_enqueue_def Let_def)
qed

lemma waitq_unlink_rep:
  assumes rep: "waitq_rep i j n (p # ps)"
  shows "\<exists>n'. waitq_unlink i j n = (Some p, n') \<and> waitq_rep i j n' ps"
proof -
  have c: "wait_chain (waitq n) (we_next (waitq n p)) ps" "waitq_head (lk_cond (lock_array n i) j) = Some p"
    "p \<notin> set ps" "distinct ps" "waitq_tail (lk_cond (lock_array n i) j) = Some (last (p # ps))"
    using rep by (simp_all add: waitq_rep_def)
  have "wait_chain ((waitq n)(p := (waitq n p)\<lparr>we_queued := False\<rparr>)) h ps = wait_chain (waitq n) h ps" for h
    using c(3) by (intro wait_chain_cong) auto
  with c show ?thesis
    by (cases ps) (auto simp: waitq_unlink_def Let_def waitq_rep_def)
qed

interpretation wait_queue: fifo_queue "waitq_rep i j" "waitq_enqueue i j" "waitq_unlink i j" for i j
proof
  show "waitq_rep i j n ps \<Longrightarrow> p \<notin> set ps \<Longrightarrow> waitq_rep i j (waitq_enqueue i j p n) (ps @ [p])" for n :: "'a lnode_scheme" and ps p
    by (rule waitq_enqueue_rep)
  show "waitq_rep i j n [] \<Longrightarrow> waitq_unlink i j n = (None, n)" for n :: "'a lnode_scheme"
    by (simp add: waitq_rep_def waitq_unlink_def)
  show "waitq_rep i j n (p # ps) \<Longrightarrow> \<exists>n'. waitq_unlink i j n = (Some p, n') \<and> waitq_rep i j n' ps" for n :: "'a lnode_scheme" and p ps
    by (rule waitq_unlink_rep)
qed

section \<open>Waking all waiting processes ends\<close>

text \<open>Ending an interval changes no field of the lock module.\<close>

definition same_locks :: "'a lnode_scheme \<Rightarrow> 'a lnode_scheme \<Rightarrow> bool" where
  "same_locks n n' \<longleftrightarrow> node.more n' = node.more n \<and> proc_id n' = proc_id n \<and> nprocs n' = nprocs n"

lemma same_locks_refl [simp]: "same_locks n n" by (simp add: same_locks_def)

lemma same_locks_trans: "same_locks n m \<Longrightarrow> same_locks m k \<Longrightarrow> same_locks n k" by (simp add: same_locks_def)

lemma same_locksD:
  assumes "same_locks n n'"
  shows "lock_array n' = lock_array n" "saved_time n' = saved_time n" "tail_of n' = tail_of n" "waitq n' = waitq n"
    "req_seqno n' = req_seqno n" "rep_seqno n' = rep_seqno n" "proc_id n' = proc_id n" "nprocs n' = nprocs n"
  using assms by (cases n; cases n'; simp add: same_locks_def)+

lemma add_notice_locks: "same_locks n (add_notice pid iv p n)"
  by (simp add: same_locks_def add_notice_def upd_page_def bump_interval_heap_def)

lemma notices_down_locks: "same_locks n (notices_down pid iv f l n)"
proof (induction pid iv f l n rule: notices_down.induct)
  case (1 pid iv page partner n)
  then show ?case
    by (subst notices_down.simps) (auto simp: Let_def intro: add_notice_locks same_locks_trans)
qed

lemma bump_heap_locks: "same_locks n (bump_interval_heap sz n)"
  by (simp add: same_locks_def bump_interval_heap_def)

lemma create_notices_locks: "same_locks n (create_notices pid iv rs n)"
proof (induction pid iv rs n rule: create_notices.induct)
  case (3 pid iv f l r rs n)
  have "same_locks n (bump_interval_heap sizeof_range (notices_down pid iv f l n))"
    by (rule same_locks_trans [OF notices_down_locks bump_heap_locks])
  then show ?case using 3 by (auto intro: same_locks_trans)
qed (simp_all add: notices_down_locks)

lemma interval_create_locks: "Tmk_interval_create vt n = Some (vt', n') \<Longrightarrow> same_locks n n'"
proof -
  assume c: "Tmk_interval_create vt n = Some (vt', n')"
  have e: "same_locks n (enqueue_interval i iv (n\<lparr>page_array := a\<rparr>))" for i iv a
    by (simp add: same_locks_def enqueue_interval_def bump_interval_heap_def)
  from c same_locks_trans [OF e create_notices_locks] show ?thesis
    by (auto simp: Tmk_interval_create_def Let_def split: if_splits option.splits)
qed

lemma end_interval_locks: "end_interval n = Inr n' \<Longrightarrow> same_locks n n'"
  by (auto simp: end_interval_def interval_create_arg_def tmk_bind_Inr_iff tmk_option_def same_locks_def
      split: option.splits dest!: interval_create_locks)

lemma end_interval_coherent:
  assumes "coherent n"
  obtains n' where "end_interval n = Inr n'" "coherent n'" "same_locks n n'"
proof -
  from assms obtain ds free where inv: "node_inv n ds [] free" by (auto simp: coherent_def)
  obtain vt m where m: "Tmk_interval_create (proc_vector_time n) n = Some (vt, m)"
    using interval_create_lemma [OF inv, of "proc_vector_time n"] by blast
  let ?n = "m\<lparr>proc_vector_time := vt\<rparr>"
  have "process_step n ?n" by (rule process_step.Release [of n Vt_proc]) (simp add: interval_create_arg_def m)
  then have "coherent ?n" using assms by (rule process_step_coherent)
  moreover have "end_interval n = Inr ?n" by (simp add: end_interval_def interval_create_arg_def m)
  ultimately show ?thesis using that end_interval_locks by blast
qed

lemma coherent_cong:
  assumes "coherent n" "proc_id n' = proc_id n" "npages n' = npages n" "page_size n' = page_size n" "mem n' = mem n"
    "twin_mem n' = twin_mem n" "twin_free_list n' = twin_free_list n" "page_array n' = page_array n" "protection n' = protection n"
  shows "coherent n'"
proof -
  from assms(1) obtain ds free where "node_inv n ds [] free" by (auto simp: coherent_def)
  then have "node_inv n' ds [] free" by (auto simp: node_inv_def assms intro: core_inv_frame [OF _ assms(2-7)])
  then show ?thesis by (rule coherentI)
qed

lemma coherent_lock_updates [simp]:
  "coherent (upd_lock i f n) = coherent n" "coherent (upd_cond i j g n) = coherent n"
  "coherent (n\<lparr>inverse_time := it\<rparr>) = coherent n" "coherent (n\<lparr>saved_time := sv\<rparr>) = coherent n"
  "coherent (n\<lparr>tail_of := tl'\<rparr>) = coherent n" "coherent (n\<lparr>waitq := w\<rparr>) = coherent n"
  "coherent (n\<lparr>req_seqno := sq\<rparr>) = coherent n" "coherent (upd_stat h n) = coherent n"
  "coherent (n\<lparr>stat := st\<rparr>) = coherent n"
  by (auto simp: upd_lock_def upd_cond_def upd_stat_def elim!: coherent_cong)

text \<open>On the manager a lock request never fails, and leaves the wait queues alone.\<close>

definition same_queues :: "'a lnode_scheme \<Rightarrow> 'a lnode_scheme \<Rightarrow> bool" where
  "same_queues n n' \<longleftrightarrow> proc_id n' = proc_id n \<and> nprocs n' = nprocs n \<and> waitq n' = waitq n \<and>
     (\<forall>i. lk_cond (lock_array n' i) = lk_cond (lock_array n i) \<and> lk_manager (lock_array n' i) = lk_manager (lock_array n i))"

lemma same_queues_rep: "same_queues n n' \<Longrightarrow> waitq_rep i j n' ps = waitq_rep i j n ps"
  by (simp add: same_queues_def waitq_rep_def)

lemma same_queues_trans: "same_queues n m \<Longrightarrow> same_queues m k \<Longrightarrow> same_queues n k"
  by (simp add: same_queues_def)

lemma same_locks_queues: "same_locks n m \<Longrightarrow> same_queues n m"
  by (simp add: same_queues_def same_locksD)

lemma grant_queues: "same_queues n (snd (grant i to sq vt n))"
  by (simp add: grant_def Let_def same_queues_def)

lemma answer_request_frame:
  assumes "answer_request req n = Inr (ms, n')"
  shows "same_queues n n'"
proof (cases "lk_held (lock_array n (rq_id req))")
  case True
  with assms show ?thesis by (auto simp: answer_request_def Let_def same_queues_def)
next
  case False
  with assms obtain m where m: "(if lk_time (lock_array n (rq_id req)) = ucast (proc_vector_time n (proc_id n)) then end_interval n else Inr n) = Inr m"
    "(ms, n') = grant (rq_id req) (rq_from req) (rq_seqno req) (rq_vector_time req) m"
    by (auto simp: answer_request_def Let_def tmk_bind_Inr_iff)
  have "same_queues n m" using m(1) by (auto dest!: end_interval_locks intro: same_locks_queues split: if_splits)
  moreover have "same_queues m n'" using grant_queues [of m] m(2) by (metis snd_conv)
  ultimately show ?thesis by (rule same_queues_trans)
qed

lemma link_request_frame: "same_queues n (link_request i from n)"
  by (simp add: link_request_def Let_def same_queues_def)

lemma lock_handler_frame:
  assumes "Tmk_lock_sigio_handler req n = Inr (ms, n')"
  shows "same_queues n n'"
proof (cases "lk_next (lock_array n (rq_id req)) = proc_id n")
  case True
  with assms obtain m where "answer_request req n = Inr (ms, m)" "n' = link_request (rq_id req) (rq_from req) m"
    by (auto simp: Tmk_lock_sigio_handler_def Let_def tmk_bind_Inr_iff)
  with answer_request_frame link_request_frame same_queues_trans show ?thesis by metis
next
  case False
  with assms show ?thesis
    by (auto simp: Tmk_lock_sigio_handler_def Let_def same_queues_def split: if_splits)
qed

lemma lock_handler_coherent:
  assumes "coherent n" "lk_next (lock_array n (rq_id req)) = proc_id n \<or> lk_manager (lock_array n (rq_id req)) = proc_id n"
  shows "\<exists>ms n'. Tmk_lock_sigio_handler req n = Inr (ms, n') \<and> coherent n'"
proof -
  let ?e = "lk_time (lock_array n (rq_id req)) = ucast (proc_vector_time n (proc_id n))"
  obtain m where "(if ?e then end_interval n else Inr n) = Inr m" "coherent m"
    using end_interval_coherent [OF assms(1)] assms(1) by metis
  with assms show ?thesis
    by (auto simp: Tmk_lock_sigio_handler_def answer_request_def link_request_def Let_def grant_def)
qed

lemma unlink_frame:
  assumes "waitq_unlink i j n = (Some p, m)"
  shows "proc_id m = proc_id n" "coherent m = coherent n" "lk_manager (lock_array m k) = lk_manager (lock_array n k)"
    "\<not> we_queued (waitq m p)" "\<And>q. q \<noteq> p \<Longrightarrow> waitq m q = waitq n q" "we_req (waitq m p) = we_req (waitq n p)"
    "nprocs m = nprocs n"
  using assms
  by (auto simp: waitq_unlink_def Let_def upd_cond_def split: option.splits if_splits)

lemma dequeue_all_ends:
  assumes "waitq_rep i j n ps" "coherent n" "lk_manager (lock_array n i) = proc_id n"
    and "\<And>p. p \<in> set ps \<Longrightarrow> rq_id (we_req (waitq n p)) = i"
  shows "\<exists>ms n'. dequeue_all i j n = Some (Inr (ms, n')) \<and> coherent n' \<and> waitq_rep i j n' [] \<and>
     (\<forall>p \<in> set ps. \<not> we_queued (waitq n' p)) \<and> (\<forall>p. p \<notin> set ps \<longrightarrow> waitq n' p = waitq n p) \<and>
     proc_id n' = proc_id n \<and> nprocs n' = nprocs n"
  using assms
proof (induction ps arbitrary: n)
  case Nil
  have "dequeue_all i j n = Some (Inr ([], n))"
    using wait_queue.deq_empty [OF Nil(1)] by (subst dequeue_all.simps) (simp add: waitq_dequeue_def)
  with Nil show ?case by simp
next
  case (Cons p ps)
  obtain m where m: "waitq_unlink i j n = (Some p, m)" "waitq_rep i j m ps"
    using wait_queue.deq_rep [OF Cons.prems(1)] by blast
  note uf = unlink_frame [OF m(1)]
  have np: "p \<notin> set ps" using Cons.prems(1) by (simp add: waitq_rep_def)
  have co: "coherent m" "lk_manager (lock_array m i) = proc_id m" using uf(1-3) Cons.prems(2,3) by simp_all
  have req: "rq_id (we_req (waitq m p)) = i" using uf(6) Cons.prems(4) by simp
  obtain ms k where k: "waitq_dequeue i j n = Inr (True, ms, k)" "coherent k" "same_queues m k"
  proof (cases "rq_from (we_req (waitq m p)) = proc_id m")
    case True
    then show ?thesis using that [of "[]" m] m(1) co by (simp add: waitq_dequeue_def same_queues_def)
  next
    case False
    obtain ms k where h: "Tmk_lock_sigio_handler (we_req (waitq m p)) m = Inr (ms, k)" "coherent k"
      using lock_handler_coherent [OF co(1), of "we_req (waitq m p)"] req co(2) by auto
    with False show ?thesis using that [of ms k] m(1) lock_handler_frame [OF h(1)] by (simp add: waitq_dequeue_def)
  qed
  have qs: "waitq k = waitq m" "proc_id k = proc_id m" "nprocs k = nprocs m" "lk_manager (lock_array k i) = lk_manager (lock_array m i)"
    using k(3) by (auto simp: same_queues_def)
  have "rq_id (we_req (waitq k q)) = i" if "q \<in> set ps" for q
    using that Cons.prems(4) np uf(5) [of q] qs(1) by (cases "q = p") auto
  then obtain ms' n' where n': "dequeue_all i j k = Some (Inr (ms', n'))" "coherent n'" "waitq_rep i j n' []"
    "\<forall>q \<in> set ps. \<not> we_queued (waitq n' q)" "\<forall>q. q \<notin> set ps \<longrightarrow> waitq n' q = waitq k q" "proc_id n' = proc_id k" "nprocs n' = nprocs k"
    using Cons.IH [of k] m(2) k(2) same_queues_rep [OF k(3)] qs co(2) by auto
  have "dequeue_all i j n = Some (Inr (ms @ ms', n'))"
    by (subst dequeue_all.simps) (simp add: k(1) n'(1))
  with n' np uf qs show ?case by auto
qed

section \<open>Properties\<close>

text \<open>
  C19: On the manager, broadcasting on a condition ends, whatever is in its wait queue: every
  waiting request is taken out and handled as a lock request, the queue is empty and no
  entry is marked as queued any more.
\<close>

theorem cond_broadcast_ends:
  assumes "waitq_rep i j n ps" "coherent n" "lk_manager (lock_array n i) = proc_id n" "i < NLOCKS" "j < NCONDS"
    and "\<And>p. p \<in> set ps \<Longrightarrow> rq_id (we_req (waitq n p)) = i"
  shows "\<exists>ms n'. Tmk_lock_cond_broadcast i j n = Inr (ms, n') \<and> coherent n' \<and> waitq_rep i j n' [] \<and>
     (\<forall>p \<in> set ps. \<not> we_queued (waitq n' p))"
proof -
  let ?n = "upd_stat (\<lambda>s. s\<lparr>broadcasts := broadcasts s + 1\<rparr>) n"
  have "waitq_rep i j ?n ps" "coherent ?n" "lk_manager (lock_array ?n i) = proc_id ?n"
    "\<And>p. p \<in> set ps \<Longrightarrow> rq_id (we_req (waitq ?n p)) = i"
    using assms by (simp_all add: waitq_rep_def upd_stat_def)
  from dequeue_all_ends [OF this] obtain ms n' where
    "dequeue_all i j ?n = Some (Inr (ms, n'))" "coherent n'" "waitq_rep i j n' []" "\<forall>p \<in> set ps. \<not> we_queued (waitq n' p)"
    by blast
  then show ?thesis using assms(3-5)
    by (simp add: Tmk_lock_cond_broadcast_def broadcast_def upd_stat_def waitq_rep_def update_time_def)
qed

text \<open>A manager of lock 1 with process 0 waiting on its condition 2.\<close>

definition demo_lnode :: lnode where
  "demo_lnode = Tmk_lock_initialize
     (node.extend demo_node (lnode.fields (\<lambda>_. \<lparr>lk_manager = 0, lk_tail = 0, lk_held = False, lk_next = 0,
        lk_release_seqno = 0, lk_time = 0, lk_cond = (\<lambda>_. init_cond)\<rparr>) (\<lambda>_ _. 0) (\<lambda>_. 0)
        (\<lambda>_. \<lparr>we_next = None, we_req = \<lparr>rq_seqno = 0, rq_from = 0, rq_id = 0, rq_vector_time = (\<lambda>_. 0), rq_id2 = 0\<rparr>,
              we_queued = False\<rparr>) 0 (\<lambda>_. 0)))"

lemma demo_lnode_fields:
  "proc_id demo_lnode = 1" "page_array demo_lnode = page_array demo_node" "npages demo_lnode = npages demo_node"
  "page_size demo_lnode = page_size demo_node" "mem demo_lnode = mem demo_node" "twin_mem demo_lnode = twin_mem demo_node"
  "twin_free_list demo_lnode = twin_free_list demo_node" "protection demo_lnode = protection demo_node" "nprocs demo_lnode = 2"
  "waitq_rep i j demo_lnode []" "i < NLOCKS \<Longrightarrow> lk_manager (lock_array demo_lnode i) = i mod 2"
  "i < NLOCKS \<Longrightarrow> lk_next (lock_array demo_lnode i) = 0" "i < NLOCKS \<Longrightarrow> \<not> lk_held (lock_array demo_lnode i)"
  by (simp_all add: demo_lnode_def Tmk_lock_initialize_def node.defs lnode.defs demo_node_simps waitq_rep_def init_cond_def)

lemma demo_lnode_coherent: "coherent demo_lnode"
proof -
  have "node_inv demo_lnode [] [] []"
    using demo_node_inv by (simp add: node_inv_def core_defs twin_inv_def demo_lnode_fields demo_node_simps)
  then show ?thesis by (rule coherentI)
qed

theorem cond_broadcast_ends_witness:
  "\<exists>req n ms n'. Tmk_cond_wait_sigio_handler req demo_lnode = Inr ([], n) \<and> waitq_rep 1 2 n [0] \<and>
     Tmk_lock_cond_broadcast 1 2 n = Inr (ms, n') \<and> waitq_rep 1 2 n' [] \<and> \<not> we_queued (waitq n' 0)"
proof -
  let ?req = "\<lparr>rq_seqno = 32, rq_from = 0, rq_id = 1, rq_vector_time = (\<lambda>_. 5), rq_id2 = 2\<rparr> :: req_cond"
  let ?m = "demo_lnode\<lparr>waitq := (waitq demo_lnode)(0 := (waitq demo_lnode 0)\<lparr>we_req := ?req\<rparr>)\<rparr>"
  let ?n = "waitq_enqueue 1 2 0 ?m"
  have "signal_vector_time (lk_cond (lock_array demo_lnode 1) 2) 0 = 0"
    by (simp add: demo_lnode_def Tmk_lock_initialize_def node.defs lnode.defs init_cond_def)
  then have h: "Tmk_cond_wait_sigio_handler ?req demo_lnode = Inr ([], ?n)"
    by (simp add: Tmk_cond_wait_sigio_handler_def)
  have m: "waitq_rep 1 2 ?m []" using demo_lnode_fields(10) [of 1 2] by (simp add: waitq_rep_def)
  have rep: "waitq_rep 1 2 ?n [0]" using wait_queue.enq_rep [OF m, of 0] by simp
  have head: "waitq_tail (lk_cond (lock_array demo_lnode (Suc 0)) 2) = None" using demo_lnode_fields(10) [of 1 2] by (simp add: waitq_rep_def)
  have "coherent ?n" "lk_manager (lock_array ?n 1) = proc_id ?n" "rq_id (we_req (waitq ?n 0)) = 1"
    using demo_lnode_coherent demo_lnode_fields(1,11) head by (simp_all add: waitq_enqueue_def Let_def upd_cond_def)
  with cond_broadcast_ends [OF rep] rep h show ?thesis by force
qed

text \<open>
  C20: The wait queue of a condition, a linked list through per-process entries with a tail
  pointer that starts at the head cell, is a queue: entries leave it in the order in which they
  were appended.
\<close>

theorem wait_queue_fifo:
  fixes n :: "'a lnode_scheme"
  assumes "waitq_rep i j n []" "distinct ps"
  shows "\<exists>n'. wait_queue.drain i j (length ps) (fold (waitq_enqueue i j) ps n) = (ps, n') \<and> waitq_rep i j n' []"
  by (rule wait_queue.first_in_first_out [OF assms])

theorem wait_queue_fifo_witness:
  "\<exists>n'. wait_queue.drain 3 1 3 (fold (waitq_enqueue 3 1) [4, 0, 2] demo_lnode) = ([4, 0, 2], n') \<and> waitq_rep 3 1 n' []"
  using wait_queue_fifo [OF demo_lnode_fields(10), of "[4, 0, 2]" 3 1] by (simp add: numeral_3_eq_3)



end
