(* ===== verification/Tmk_Await.thy ===== *)
theory Tmk_Await
  imports Tmk_Lock
begin

text \<open>
  Waiting for an answer.  Every operation of \<^verbatim>\<open>Tmk/src\<close> that sends a request waits for the answer
  with the same sequence number in a loop of \<^verbatim>\<open>goto\<close>s: a timeout repeats the request, an
  interrupted call is repeated, an answer with another sequence number is dropped, anything else
  is fatal.  The loops are functions of the sequence of outcomes of \<^verbatim>\<open>select\<close> and
  \<^verbatim>\<open>recv\<close>; \<open>None\<close> means that the process is still waiting when the sequence ends.
\<close>

section \<open>The loops\<close>

text \<open>
  What \<^verbatim>\<open>recv\<close> and \<^verbatim>\<open>select\<close> return: a failure with \<^verbatim>\<open>Tmk_tout_flag\<close> set, with the data a
  repeated request carries at that time; an interruption; another failure; a message (sequence
  number, size, contents); descriptors that are ready, with the outcome of reading from the first.
\<close>

datatype ('v, 'd) recv_event = Recv_timeout 'v | Recv_intr | Recv_failed | Received u32 u32 'd

datatype ('v, 'd) select_event =
    Sel_timeout 'v
  | Sel_intr
  | Sel_failed
  | Sel_ready "nat \<Rightarrow> bool" "('v, 'd) recv_event"

text \<open>The data of the repetitions, and size and contents of the answer.\<close>

type_synonym ('v, 'd) answer = "('v list \<times> u32 \<times> 'd) tmk_result option"

fun recv_loop :: "string \<Rightarrow> u32 \<Rightarrow> ('v, 'd) recv_event list \<Rightarrow> 'v list \<Rightarrow> ('v, 'd) answer" where
  "recv_loop site seqno [] vs = None"
| "recv_loop site seqno (Recv_timeout v # es) vs = recv_loop site seqno es (vs @ [v])"
| "recv_loop site seqno (Recv_intr # es) vs = recv_loop site seqno es vs"
| "recv_loop site seqno (Recv_failed # es) vs = Some (Inl (Perrexit site))"
| "recv_loop site seqno (Received s sz d # es) vs =
     (if s \<noteq> seqno then recv_loop site seqno es vs else Some (Inr (vs, sz, d)))"

text \<open>\<^verbatim>\<open>select\<close> over the request sockets of all other processes, the lowest ready one is read.\<close>

definition ready_fd :: "nat \<Rightarrow> nat \<Rightarrow> (nat \<Rightarrow> bool) \<Rightarrow> nat option" where
  "ready_fd me np ready = List.find (\<lambda>j. j \<noteq> me \<and> ready j) [0..<np]"

fun select_loop ::
  "string \<Rightarrow> string \<Rightarrow> nat \<Rightarrow> nat \<Rightarrow> u32 \<Rightarrow> ('v, 'd) select_event list \<Rightarrow> 'v list \<Rightarrow> ('v, 'd) answer" where
  "select_loop sel site me np seqno [] vs = None"
| "select_loop sel site me np seqno (Sel_timeout v # es) vs = select_loop sel site me np seqno es (vs @ [v])"
| "select_loop sel site me np seqno (Sel_intr # es) vs = select_loop sel site me np seqno es vs"
| "select_loop sel site me np seqno (Sel_failed # es) vs = Some (Inl (Perrexit sel))"
| "select_loop sel site me np seqno (Sel_ready ready e # es) vs =
     (case ready_fd me np ready of
        None \<Rightarrow> Some (Inl (Errexit (site @ ''<req_fds>'')))
      | Some j \<Rightarrow>
          (case e of
             Recv_timeout v \<Rightarrow> select_loop sel site me np seqno es (vs @ [v])
           | Recv_intr \<Rightarrow> select_loop sel site me np seqno es vs
           | Recv_failed \<Rightarrow> Some (Inl (Perrexit (site @ ''<recv>'')))
           | Received s sz d \<Rightarrow>
               if s \<noteq> seqno then select_loop sel site me np seqno es vs else Some (Inr (vs, sz, d))))"

section \<open>Locks\<close>

text \<open>
  \<^verbatim>\<open>Tmk_lock_acquire\<close> from its \<^verbatim>\<open>retry\<close> label: the manager asked the tail itself and reads from it, another
  process does not know who will answer.  A repeated request carries the vector time of that
  moment, of which \<^verbatim>\<open>vector_time_\<close> is a copy again.  The result: the repeated requests, the copy, the answer.
\<close>

definition acquire_receive ::
  "nat \<Rightarrow> req_syn \<Rightarrow> 'a lnode_scheme \<Rightarrow> (nat \<Rightarrow> u16, 'd) recv_event list \<Rightarrow> (nat \<Rightarrow> u16, 'd) select_event list \<Rightarrow>
   (lock_send list \<times> (nat \<Rightarrow> u16) \<times> u32 \<times> 'd) tmk_result option" where
  "acquire_receive to req n es ses =
     map_option (\<lambda>r. tmk_bind r (\<lambda>(vs, sz, d).
         Inr (map (\<lambda>vt. Send_lock to (req\<lparr>rq_vector_time := vt\<rparr>)) vs, last (rq_vector_time req # vs), sz, d)))
       (if lk_manager (lock_array n (rq_id req)) = proc_id n
        then recv_loop ''Tmk_lock_acquire<recv>'' (rq_seqno req) es []
        else select_loop ''Tmk_lock_acquire<select>'' ''Tmk_lock_acquire'' (proc_id n) (nprocs n) (rq_seqno req) ses [])"

definition wait_receive ::
  "nat \<Rightarrow> req_cond \<Rightarrow> 'a lnode_scheme \<Rightarrow> (nat \<Rightarrow> u16, 'd) select_event list \<Rightarrow>
   (lock_send list \<times> (nat \<Rightarrow> u16) \<times> u32 \<times> 'd) tmk_result option" where
  "wait_receive manager req n ses =
     map_option (\<lambda>r. tmk_bind r (\<lambda>(vs, sz, d).
         Inr (map (\<lambda>vt. Send_wait manager (req\<lparr>rq_vector_time := vt\<rparr>)) vs, last (rq_vector_time req # vs), sz, d)))
       (select_loop ''Tmk_condition_wait<select>'' ''Tmk_lock_cond_wait'' (proc_id n) (nprocs n) (rq_seqno req) ses [])"

text \<open>The acknowledgement of a broadcast or signal, read from the manager's socket.\<close>

definition broadcast_receive ::
  "nat \<Rightarrow> req_cond \<Rightarrow> (nat \<Rightarrow> u16, 'd) recv_event list \<Rightarrow> (lock_send list \<times> u32) tmk_result option" where
  "broadcast_receive manager req es =
     map_option (\<lambda>r. tmk_bind r (\<lambda>(vs, sz, d). Inr (map (\<lambda>vt. Send_broadcast manager (req\<lparr>rq_vector_time := vt\<rparr>)) vs, sz)))
       (recv_loop ''Tmk_lock_cond_broadcast<recv>'' (rq_seqno req) es [])"

definition signal_receive ::
  "nat \<Rightarrow> req_cond \<Rightarrow> (nat \<Rightarrow> u16, 'd) recv_event list \<Rightarrow> (lock_send list \<times> u32) tmk_result option" where
  "signal_receive manager req es =
     map_option (\<lambda>r. tmk_bind r (\<lambda>(vs, sz, d). Inr (map (\<lambda>vt. Send_signal manager (req\<lparr>rq_vector_time := vt\<rparr>)) vs, sz)))
       (recv_loop ''Tmk_lock_cond_signal<recv>'' (rq_seqno req) es [])"

section \<open>Pages and diffs\<close>

text \<open>
  \<^verbatim>\<open>Tmk_page_request\<close> up to its wait: the manager of the page, the sequence number and the page of the request.
  The answer is stored by \<^const>\<open>Tmk_page_reply\<close>.
\<close>

definition page_request_start :: "page_t \<Rightarrow> 'a lnode_scheme \<Rightarrow> (nat \<times> u32 \<times> page_t) \<times> 'a lnode_scheme" where
  "page_request_start p n =
     (let n = n\<lparr>req_seqno := req_seqno n + SEQNO_INCR\<rparr> in ((pg_manager (page_array n p), req_seqno n, p), n))"

definition page_receive :: "u32 \<Rightarrow> (unit, u32 list) recv_event list \<Rightarrow> (unit, u32 list) answer" where
  "page_receive seqno es = recv_loop ''<recvmsg>page_request'' seqno es []"

text \<open>
  The wait of \<^verbatim>\<open>Tmk_diff_request\<close> also repeats the request, once, when an answer to a later request
  overtakes; \<open>again\<close> is \<^verbatim>\<open>req_data_ptr != 0\<close>.
\<close>

fun diff_receive_loop :: "u32 \<Rightarrow> bool \<Rightarrow> (unit, 'd) recv_event list \<Rightarrow> nat \<Rightarrow> (nat \<times> u32 \<times> 'd) tmk_result option" where
  "diff_receive_loop seqno again [] k = None"
| "diff_receive_loop seqno again (Recv_timeout v # es) k = diff_receive_loop seqno True es (k + 1)"
| "diff_receive_loop seqno again (Recv_intr # es) k = diff_receive_loop seqno again es k"
| "diff_receive_loop seqno again (Recv_failed # es) k = Some (Inl (Perrexit ''<recvmsg>Tmk_diff_request''))"
| "diff_receive_loop seqno again (Received s sz d # es) k =
     (if s \<noteq> seqno then
        if seqno < s \<and> \<not> again then diff_receive_loop seqno True es (k + 1) else diff_receive_loop seqno again es k
      else Some (Inr (k, sz, d)))"

definition diff_receive ::
  "u32 \<Rightarrow> (unit, 'd) recv_event list \<Rightarrow> 'a node_scheme \<Rightarrow> (u32 \<times> 'd \<times> 'a node_scheme) tmk_result option" where
  "diff_receive seqno es n =
     map_option (\<lambda>r. tmk_bind r (\<lambda>(k, sz, d). Inr (sz, d, upd_stat (\<lambda>s. s\<lparr>rexmits := rexmits s + of_nat k\<rparr>) n)))
       (diff_receive_loop seqno False es 0)"

section \<open>What a loop accepts\<close>

text \<open>Outcomes that leave the process waiting.\<close>

fun quiet :: "u32 \<Rightarrow> ('v, 'd) recv_event \<Rightarrow> bool" where
  "quiet seqno Recv_failed = False"
| "quiet seqno (Received s sz d) = (s \<noteq> seqno)"
| "quiet seqno _ = True"

fun repeats :: "('v, 'd) recv_event list \<Rightarrow> 'v list" where
  "repeats [] = []"
| "repeats (Recv_timeout v # es) = v # repeats es"
| "repeats (_ # es) = repeats es"

text \<open>The reference: drop what is quiet, look at the next outcome.\<close>

fun verdict :: "string \<Rightarrow> 'v list \<Rightarrow> ('v, 'd) recv_event list \<Rightarrow> ('v, 'd) answer" where
  "verdict site vs (Received s sz d # es) = Some (Inr (vs, sz, d))"
| "verdict site vs (Recv_failed # es) = Some (Inl (Perrexit site))"
| "verdict site vs _ = None"

lemma recv_loop_verdict:
  "recv_loop site seqno es vs = verdict site (vs @ repeats (takeWhile (quiet seqno) es)) (dropWhile (quiet seqno) es)"
  by (induction site seqno es vs rule: recv_loop.induct) simp_all

text \<open>\<^verbatim>\<open>select\<close> adds only its own ways to fail.\<close>

fun as_recv :: "('v, 'd) select_event \<Rightarrow> ('v, 'd) recv_event" where
  "as_recv (Sel_timeout v) = Recv_timeout v"
| "as_recv Sel_intr = Recv_intr"
| "as_recv Sel_failed = Recv_failed"
| "as_recv (Sel_ready ready e) = e"

fun readable :: "nat \<Rightarrow> nat \<Rightarrow> ('v, 'd) select_event \<Rightarrow> bool" where
  "readable me np (Sel_ready ready e) \<longleftrightarrow> (\<exists>j < np. j \<noteq> me \<and> ready j)"
| "readable me np _ \<longleftrightarrow> True"

lemma ready_fd_None: "ready_fd me np ready = None \<longleftrightarrow> \<not> (\<exists>j < np. j \<noteq> me \<and> ready j)"
  by (auto simp: ready_fd_def find_None_iff)

lemma select_loop_recv:
  assumes "\<And>e. e \<in> set es \<Longrightarrow> readable me np e \<and> e \<noteq> Sel_failed"
  shows "select_loop sel site me np seqno es vs = recv_loop (site @ ''<recv>'') seqno (map as_recv es) vs"
  using assms
proof (induction sel site me np seqno es vs rule: select_loop.induct)
  case (5 sel site me np seqno ready e es vs)
  then have "ready_fd me np ready \<noteq> None" using ready_fd_None by fastforce
  then obtain j where j: "ready_fd me np ready = Some j" by blast
  show ?case using 5 j by (cases e) auto
qed auto

lemma recv_loop_accepts:
  assumes "list_all (quiet seqno) pre"
  shows "recv_loop site seqno (pre @ Received seqno sz d # post) vs = Some (Inr (vs @ repeats pre, sz, d))"
proof -
  have "takeWhile (quiet seqno) (pre @ Received seqno sz d # post) = pre"
    "dropWhile (quiet seqno) (pre @ Received seqno sz d # post) = Received seqno sz d # post"
    using assms by (simp_all add: list_all_iff takeWhile_append dropWhile_append)
  then show ?thesis by (simp add: recv_loop_verdict)
qed

lemma diff_receive_accepts:
  assumes "list_all (quiet seqno) pre"
  obtains j where "diff_receive_loop seqno again (pre @ Received seqno sz d # post) k = Some (Inr (k + j, sz, d))"
    "length (repeats pre) \<le> j" "j \<le> length (repeats pre) + (if again then 0 else 1)"
proof -
  have "\<exists>j. diff_receive_loop seqno again (pre @ Received seqno sz d # post) k = Some (Inr (k + j, sz, d)) \<and>
     length (repeats pre) \<le> j \<and> j \<le> length (repeats pre) + (if again then 0 else 1)"
    using assms
  proof (induction seqno again pre k rule: diff_receive_loop.induct)
    case (2 seqno again v es k)
    then obtain j where "diff_receive_loop seqno True (es @ Received seqno sz d # post) (k + 1) = Some (Inr (k + 1 + j, sz, d))"
      "length (repeats es) \<le> j" "j \<le> length (repeats es)" by auto
    then show ?case by (intro exI [of _ "Suc j"]) auto
  next
    case (5 seqno again s sz' d' es k)
    then have ne: "s \<noteq> seqno" by auto
    show ?case
    proof (cases "seqno < s \<and> \<not> again")
      case True
      with 5 ne obtain j where "diff_receive_loop seqno True (es @ Received seqno sz d # post) (k + 1) = Some (Inr (k + 1 + j, sz, d))"
        "length (repeats es) \<le> j" "j \<le> length (repeats es)" by auto
      with True ne show ?thesis by (intro exI [of _ "Suc j"]) auto
    next
      case False
      with 5 ne show ?thesis by auto
    qed
  qed auto
  with that show ?thesis by blast
qed

section \<open>Properties\<close>

text \<open>
  C22: The wait for a lock ends with the answer to it: whatever timeouts, interruptions and answers
  to other requests come first, the first message with the sequence number of the request is
  taken; the request has been repeated once per timeout, each time with the current vector time,
  and the copy used to incorporate the answer is the one sent last.
\<close>

theorem acquire_answer:
  assumes "list_all (\<lambda>e. readable (proc_id n) (nprocs n) e \<and> e \<noteq> Sel_failed) ses"
    and "(if lk_manager (lock_array n (rq_id req)) = proc_id n then es else map as_recv ses) = pre @ Received (rq_seqno req) sz d # post"
    and "list_all (quiet (rq_seqno req)) pre"
  shows "acquire_receive to req n es ses =
    Some (Inr (map (\<lambda>vt. Send_lock to (req\<lparr>rq_vector_time := vt\<rparr>)) (repeats pre), last (rq_vector_time req # repeats pre), sz, d))"
  using assms recv_loop_accepts [OF assms(3), where site = "''Tmk_lock_acquire<recv>''" and vs = "[]"]
  by (cases "lk_manager (lock_array n (rq_id req)) = proc_id n") (auto simp: acquire_receive_def list_all_iff select_loop_recv)

theorem acquire_answer_witness:
  "acquire_receive 1 (lock_request 4 demo_lnode) demo_lnode []
     [Sel_intr, Sel_timeout (\<lambda>_. 7), Sel_ready (\<lambda>_. True) (Received 5 8 [1]), Sel_ready (\<lambda>j. j = 0) (Received 0 12 [9 :: u16])] =
   Some (Inr ([Send_lock 1 ((lock_request 4 demo_lnode)\<lparr>rq_vector_time := (\<lambda>_. 7)\<rparr>)], (\<lambda>_. 7), 12, [9]))"
proof -
  have "req_seqno demo_lnode = 0" by (simp add: demo_lnode_def Tmk_lock_initialize_def node.defs lnode.defs)
  then have rq: "rq_seqno (lock_request 4 demo_lnode) = 0" "rq_id (lock_request 4 demo_lnode) = 4" by (simp_all add: lock_request_def)
  show ?thesis
    using acquire_answer [of demo_lnode "[Sel_intr, Sel_timeout (\<lambda>_. 7), Sel_ready (\<lambda>_. True) (Received 5 8 [1]), Sel_ready (\<lambda>j. j = 0) (Received 0 12 [9 :: u16])]"
        "lock_request 4 demo_lnode" "[]" "[Recv_intr, Recv_timeout (\<lambda>_. 7), Received 5 8 [1]]" 12 "[9]" "[]" 1] rq
      demo_lnode_fields(11) [of 4]
    by (fastforce simp: demo_lnode_fields)
qed

text \<open>
  Waiting for a diff ends with the first answer that has the expected sequence number, and
  the request is repeated at most once more than there are timeouts before it.
\<close>

theorem diff_answer:
  assumes "list_all (quiet seqno) pre"
  shows "\<exists>k. diff_receive seqno (pre @ Received seqno sz d # post) n =
      Some (Inr (sz, d, upd_stat (\<lambda>s. s\<lparr>rexmits := rexmits s + of_nat k\<rparr>) n)) \<and>
    length (repeats pre) \<le> k \<and> k \<le> length (repeats pre) + 1"
proof -
  obtain j where "diff_receive_loop seqno False (pre @ Received seqno sz d # post) 0 = Some (Inr (0 + j, sz, d))"
    "length (repeats pre) \<le> j" "j \<le> length (repeats pre) + 1"
    using diff_receive_accepts [OF assms, of False sz d post 0] by auto
  then show ?thesis by (intro exI [of _ j]) (simp add: diff_receive_def)
qed

theorem diff_answer_witness:
  "\<exists>k. diff_receive 32 ([Received 64 4 (), Recv_timeout ()] @ Received 32 8 () # []) demo_lnode =
      Some (Inr (8, (), upd_stat (\<lambda>s. s\<lparr>rexmits := rexmits s + of_nat k\<rparr>) demo_lnode)) \<and> 1 \<le> k \<and> k \<le> 1 + 1"
  using diff_answer [of 32 "[Received 64 4 (), Recv_timeout ()]" 8 "()" "[]" demo_lnode] by simp

end
