(* ===== verification/Tmk_Spin.thy ===== *)
theory Tmk_Spin
  imports Tmk_Prelude
begin

text \<open>
  The masks of arrived processes that \<^verbatim>\<open>repo.c\<close>, \<^verbatim>\<open>barrier.c\<close> and \<^verbatim>\<open>sched.c\<close> spin on.  A manager sets one bit per
  request and waits until the mask equals \<^verbatim>\<open>Tmk_spinmask\<close>.  The locale states what the three request
  handlers have in common, and its lemmas say when the spinning ends.
\<close>

section \<open>The mask of all processes\<close>

text \<open>\<^verbatim>\<open>((1 << (Tmk_nprocs - 1)) << 1) - 1\<close>, which does not shift by 32 when there are 32 processes.\<close>

definition Tmk_spinmask :: "nat \<Rightarrow> u32" where
  "Tmk_spinmask np = push_bit 1 (push_bit (np - 1) 1) - 1"

definition proc_bit :: "nat \<Rightarrow> u32" where
  "proc_bit j = push_bit j 1"

lemma Tmk_spinmask_eq: "1 \<le> np \<Longrightarrow> Tmk_spinmask np = mask np"
  by (cases np) (simp_all add: Tmk_spinmask_def mask_eq_exp_minus_1 push_bit_eq_mult)

lemma bit_spinmask: "1 \<le> np \<Longrightarrow> np \<le> NPROCS \<Longrightarrow> bit (Tmk_spinmask np) k \<longleftrightarrow> k < np"
  by (auto simp: Tmk_spinmask_eq bit_mask_iff)

lemma bit_proc_bit: "bit (proc_bit j) k \<longleftrightarrow> k < NPROCS \<and> k = j"
  by (auto simp: proc_bit_def bit_exp_iff)

lemma and_proc_bit: "j < NPROCS \<Longrightarrow> m AND proc_bit j = 0 \<longleftrightarrow> \<not> bit m j"
proof -
  assume j: "j < NPROCS"
  have "m AND proc_bit j = (if bit m j then proc_bit j else 0)"
    by (rule bit_word_eqI) (auto simp: bit_and_iff bit_proc_bit)
  moreover have "proc_bit j \<noteq> 0" using j bit_proc_bit [of j j] by auto
  ultimately show ?thesis by simp
qed

lemma xor_eq_0_iff: "(m :: u32) XOR m' = 0 \<longleftrightarrow> m = m'"
  by (auto simp: bit_eq_iff bit_xor_iff)

section \<open>Arrivals\<close>

text \<open>The processes of a list arrive one after the other.\<close>

inductive arrive_seq :: "('j \<Rightarrow> 'n \<Rightarrow> 'n \<Rightarrow> bool) \<Rightarrow> 'j list \<Rightarrow> 'n \<Rightarrow> 'n \<Rightarrow> bool" for arrive where
  Nobody: "arrive_seq arrive [] n n"
| Next: "arrive j n m \<Longrightarrow> arrive_seq arrive js m n' \<Longrightarrow> arrive_seq arrive (j # js) n n'"

inductive_simps arrive_seq_simps [simp]: "arrive_seq arrive [] n n'" "arrive_seq arrive (j # js) n n'"

lemma arrive_seq_fun: "arrive_seq (\<lambda>j n n'. n' = f j n) js n n' \<longleftrightarrow> n' = fold f js n"
  by (induction js arbitrary: n) auto

locale spinning =
  fixes arrived :: "'n \<Rightarrow> u32" and source :: "'j \<Rightarrow> nat" and arrive :: "'j \<Rightarrow> 'n \<Rightarrow> 'n \<Rightarrow> bool"
  assumes arrive_sets: "arrive j n n' \<Longrightarrow> arrived n' = arrived n OR proc_bit (source j)"
begin

lemma arrive_seq_bit:
  "arrive_seq arrive js n n' \<Longrightarrow> bit (arrived n') k \<longleftrightarrow> bit (arrived n) k \<or> k < NPROCS \<and> k \<in> source ` set js"
  by (induction rule: arrive_seq.induct) (auto simp: arrive_sets bit_or_iff bit_proc_bit)

text \<open>The spinning ends exactly when every process whose bit was missing has arrived.\<close>

lemma spin_ends_iff:
  assumes "arrive_seq arrive js n n'" "source ` set js \<subseteq> {..<np}" "1 \<le> np" "np \<le> NPROCS"
    and "\<And>k. bit (arrived n) k \<Longrightarrow> k < np"
  shows "arrived n' XOR Tmk_spinmask np = 0 \<longleftrightarrow> {k. k < np \<and> \<not> bit (arrived n) k} \<subseteq> source ` set js"
proof -
  have "arrived n' = Tmk_spinmask np \<longleftrightarrow> (\<forall>k < NPROCS. bit (arrived n') k \<longleftrightarrow> k < np)"
    using assms(3,4) by (auto simp: bit_eq_iff bit_spinmask)
  also have "\<dots> \<longleftrightarrow> (\<forall>k < np. bit (arrived n) k \<or> k \<in> source ` set js)"
  proof -
    have "bit (arrived n') k \<longleftrightarrow> k < np \<and> (bit (arrived n) k \<or> k \<in> source ` set js)" if "k < NPROCS" for k
      using arrive_seq_bit [OF assms(1), of k] assms(2,5) that by blast
    moreover have "k < NPROCS" if "k < np" for k using assms(4) that by simp
    ultimately show ?thesis by blast
  qed
  also have "\<dots> \<longleftrightarrow> {k. k < np \<and> \<not> bit (arrived n) k} \<subseteq> source ` set js" by blast
  finally show ?thesis by (simp add: xor_eq_0_iff)
qed

end

end
