(* ===== verification/Tmk_Repo.thy ===== *)
theory Tmk_Repo
  imports Tmk_Await Tmk_Spin
begin

text \<open>
  Reclamation of consistency data, \<^verbatim>\<open>Tmk/src/repo.c\<close>.  At a barrier at which some process is short of
  memory every process brings its pages to a state that needs no write notices: a page it
  modified last is completed with the missing diffs, any other invalid page is discarded and
  its manager becomes a process that has a copy.  Then all intervals, write notices and diffs are
  dropped.  Two internal barriers separate the phases.
\<close>

section \<open>State\<close>

record rnode = lnode +
  repo_mask :: u32

datatype repo_send = Send_repo nat u32 | Send_repo_ack nat u32

section \<open>Pages\<close>

text \<open>The range of pages named in the intervals; it starts as the empty range from \<^verbatim>\<open>Tmk_npages\<close> to -1.\<close>

definition widen :: "u16 \<times> u16 \<Rightarrow> int \<times> int \<Rightarrow> int \<times> int" where
  "widen r b = (if uint (fst r) < fst b then uint (fst r) else fst b, if uint (snd r) > snd b then uint (snd r) else snd b)"

definition repo_bounds :: "'a node_scheme \<Rightarrow> int \<times> int" where
  "repo_bounds n =
     fold (\<lambda>i. fold (\<lambda>iv. fold widen (iv_ranges iv)) (rev (proc_array n i))) [0..<nprocs n] (int (npages n), -1)"

text \<open>
  \<^verbatim>\<open>repo_update_manager\<close>: from the latest write notices of the processes it keeps an interval until it
  meets one that has seen everything the kept one has seen.  \<open>None\<close> if there are no write notices.
\<close>

definition has_seen :: "nat \<Rightarrow> interval \<Rightarrow> interval \<Rightarrow> bool" where
  "has_seen np iv jv \<longleftrightarrow> (\<forall>k < max 1 np. iv_vector_time iv k \<le> iv_vector_time jv k)"

definition latest :: "page \<Rightarrow> nat \<Rightarrow> interval" where
  "latest pg j = wn_interval (hd (pg_write_notice pg j))"

fun last_writer :: "nat \<Rightarrow> page \<Rightarrow> interval \<Rightarrow> nat list \<Rightarrow> interval" where
  "last_writer np pg iv [] = iv"
| "last_writer np pg iv (j # js) =
     (if pg_write_notice pg j \<noteq> [] \<and> has_seen np iv (latest pg j) then last_writer np pg (latest pg j) js
      else last_writer np pg iv js)"

fun find_writer :: "nat \<Rightarrow> page \<Rightarrow> nat list \<Rightarrow> interval option" where
  "find_writer np pg [] = None"
| "find_writer np pg (j # js) =
     (if pg_write_notice pg j \<noteq> [] then Some (last_writer np pg (latest pg j) js) else find_writer np pg js)"

definition repo_update_manager :: "nat \<Rightarrow> page \<Rightarrow> page option" where
  "repo_update_manager np pg = map_option (\<lambda>iv. pg\<lparr>pg_manager := iv_id iv\<rparr>) (find_writer np pg [0..<np])"

text \<open>Whether process \<open>me\<close> keeps an invalid page: it wrote it, and no other latest writer has seen that.\<close>

definition repo_keeps :: "nat \<Rightarrow> nat \<Rightarrow> page \<Rightarrow> bool" where
  "repo_keeps me np pg \<longleftrightarrow> pg_write_notice pg me \<noteq> [] \<and>
     (\<forall>j < np. j \<noteq> me \<and> pg_write_notice pg j \<noteq> [] \<longrightarrow>
        \<not> iv_vector_time (latest pg me) me \<le> iv_vector_time (latest pg j) me)"

text \<open>The body of the loop over the pages; \<open>msgs\<close> are the accepted answers to the diff requests for the page.\<close>

definition repo_page :: "u32 list list \<Rightarrow> page_t \<Rightarrow> 'a node_scheme \<Rightarrow> 'a node_scheme tmk_result" where
  "repo_page msgs i n =
     (let pg = page_array n i
      in if pg_state pg = Valid then
           Inr (if pg_twin pg \<noteq> 0 then upd_page i (pg_state_update (\<lambda>_. Private)) (Tmk_twin_free i n) else n)
         else if pg_state pg = Invalid then
           (if repo_keeps (proc_id n) (nprocs n) pg then
              (let n = upd_page i (pg_state_update (\<lambda>_. Valid)) (set_protection i PROT_READ_WRITE n)
               in tmk_bind (tmk_option (Tmk_diff_request i msgs n)) (\<lambda>n. Inr (set_protection i PROT_READ n)))
            else
              (case repo_update_manager (nprocs n) (pg\<lparr>pg_state := Empty\<rparr>) of
                 None \<Rightarrow> Inl (Errexit ''Tmk_repo'')
               | Some pg \<Rightarrow> Inr (upd_page i (\<lambda>_. pg) n)))
         else if pg_state pg = Empty then
           (case repo_update_manager (nprocs n) pg of None \<Rightarrow> Inr n | Some pg \<Rightarrow> Inr (upd_page i (\<lambda>_. pg) n))
         else Inr n)"

fun repo_pages :: "(page_t \<Rightarrow> u32 list list) \<Rightarrow> page_t list \<Rightarrow> 'a node_scheme \<Rightarrow> 'a node_scheme tmk_result" where
  "repo_pages msgs [] n = Inr n"
| "repo_pages msgs (i # is) n = tmk_bind (repo_page (msgs i) i n) (repo_pages msgs is)"

definition page_range :: "int \<times> int \<Rightarrow> page_t list" where
  "page_range b = map nat [fst b..snd b]"

text \<open>\<^verbatim>\<open>Tmk_repo\<close> up to its first barrier, and between the two.\<close>

definition repo_begin :: "(page_t \<Rightarrow> u32 list list) \<Rightarrow> 'a node_scheme \<Rightarrow> 'a node_scheme tmk_result" where
  "repo_begin msgs n =
     repo_pages msgs (page_range (repo_bounds n)) (upd_stat (\<lambda>s. s\<lparr>repos := repos s + 1\<rparr>) n)"

definition repo_flush :: "int \<times> int \<Rightarrow> 'a node_scheme \<Rightarrow> 'a node_scheme" where
  "repo_flush b n =
     Tmk_interval_repo (Tmk_diff_repo
       (n\<lparr>proc_vector_time := (\<lambda>i. if i < NPROCS then 0 else proc_vector_time n i),
          inverse_time := (\<lambda>i. if i < NPROCS then 0 else inverse_time n i),
          page_array := (\<lambda>p. if fst b \<le> int p \<and> int p \<le> snd b
             then (page_array n p)\<lparr>pg_write_notice := (\<lambda>j. if j < NPROCS then [] else pg_write_notice (page_array n p) j)\<rparr>
             else page_array n p)\<rparr>))"

section \<open>The internal barrier\<close>

definition Tmk_repo_sigio_handler :: "nat \<Rightarrow> 'a rnode_scheme \<Rightarrow> 'a rnode_scheme" where
  "Tmk_repo_sigio_handler from n = n\<lparr>repo_mask := repo_mask n OR proc_bit from\<rparr>"

definition Tmk_repo_sigio_duplicate_handler :: "nat \<Rightarrow> u32 \<Rightarrow> 'a rnode_scheme \<Rightarrow> repo_send list" where
  "Tmk_repo_sigio_duplicate_handler from seqno n =
     (if repo_mask n AND proc_bit from = 0 then [Send_repo_ack from seqno] else [])"

text \<open>
  \<^verbatim>\<open>repo_barrier\<close>: process 0 spins in the signal handler until all have arrived, then answers everybody; \<open>None\<close> while
  it still spins.  The others send a request and wait.
\<close>

definition repo_release :: "'a rnode_scheme \<Rightarrow> (repo_send list \<times> 'a rnode_scheme) option" where
  "repo_release n =
     (if repo_mask n XOR Tmk_spinmask (nprocs n) \<noteq> 0 then None
      else Some (map (\<lambda>j. Send_repo_ack j (rep_seqno n j)) [1..<nprocs n], n\<lparr>repo_mask := 1\<rparr>))"

definition repo_arrive :: "'a rnode_scheme \<Rightarrow> repo_send list \<times> 'a rnode_scheme" where
  "repo_arrive n = (let n = n\<lparr>req_seqno := req_seqno n + SEQNO_INCR\<rparr> in ([Send_repo 0 (req_seqno n)], n))"

definition repo_receive :: "u32 \<Rightarrow> (unit, 'd) recv_event list \<Rightarrow> 'a rnode_scheme \<Rightarrow> (repo_send list \<times> 'a rnode_scheme) tmk_result option" where
  "repo_receive seqno es n =
     map_option (\<lambda>r. tmk_bind r (\<lambda>(vs, sz, d). Inr (map (\<lambda>_. Send_repo 0 seqno) vs,
         upd_stat (\<lambda>s. s\<lparr>messages := messages s + 1, bytes := bytes s + 4\<rparr>) n)))
       (recv_loop ''<recv>repo_barrier'' seqno es [])"

section \<open>The new manager\<close>

lemma has_seen_refl [simp]: "has_seen np iv iv" by (simp add: has_seen_def)

lemma has_seen_trans: "has_seen np a b \<Longrightarrow> has_seen np b c \<Longrightarrow> has_seen np a c"
  unfolding has_seen_def using order_trans by blast

lemma last_writer_spec:
  "has_seen np iv (last_writer np pg iv js) \<and>
   (last_writer np pg iv js = iv \<or> (\<exists>j \<in> set js. pg_write_notice pg j \<noteq> [] \<and> last_writer np pg iv js = latest pg j)) \<and>
   (\<forall>j \<in> set js. pg_write_notice pg j \<noteq> [] \<and> has_seen np (last_writer np pg iv js) (latest pg j) \<longrightarrow>
      has_seen np (latest pg j) (last_writer np pg iv js))"
proof (induction np pg iv js rule: last_writer.induct)
  case (2 np pg iv j js)
  show ?case
  proof (cases "pg_write_notice pg j \<noteq> [] \<and> has_seen np iv (latest pg j)")
    case True
    with "2.IH"(1) show ?thesis by (auto intro: has_seen_trans)
  next
    case False
    with "2.IH"(2) show ?thesis by (auto intro: has_seen_trans)
  qed
qed simp

text \<open>The chosen interval is a latest one of the page, and none of the others has seen more.\<close>

lemma find_writer_spec:
  "find_writer np pg js = Some iv \<Longrightarrow>
   (\<exists>j \<in> set js. pg_write_notice pg j \<noteq> [] \<and> iv = latest pg j) \<and>
   (\<forall>j \<in> set js. pg_write_notice pg j \<noteq> [] \<and> has_seen np iv (latest pg j) \<longrightarrow> has_seen np (latest pg j) iv)"
proof (induction np pg js rule: find_writer.induct)
  case (2 np pg j js)
  show ?case
  proof (cases "pg_write_notice pg j = []")
    case True
    with 2 show ?thesis by auto
  next
    case False
    with "2.prems" have "iv = last_writer np pg (latest pg j) js" by simp
    with last_writer_spec [of np "latest pg j" pg js] False show ?thesis by (auto intro: has_seen_trans)
  qed
qed simp

lemma find_writer_None: "find_writer np pg js = None \<longleftrightarrow> (\<forall>j \<in> set js. pg_write_notice pg j = [])"
  by (induction np pg js rule: find_writer.induct) auto

text \<open>
  The order of the intervals is causal: an interval that has seen as much of process \<open>m\<close> as \<open>m\<close>'s own
  latest interval for the page has seen all that interval has seen, but not the other way round.
\<close>

definition page_causal :: "nat \<Rightarrow> page \<Rightarrow> bool" where
  "page_causal np pg \<longleftrightarrow>
     (\<forall>m < np. \<forall>j < np. pg_write_notice pg m \<noteq> [] \<and> pg_write_notice pg j \<noteq> [] \<longrightarrow>
        iv_id (latest pg m) = m \<and>
        (m \<noteq> j \<and> iv_vector_time (latest pg m) m \<le> iv_vector_time (latest pg j) m \<longrightarrow>
           has_seen np (latest pg m) (latest pg j) \<and> iv_vector_time (latest pg m) j < iv_vector_time (latest pg j) j))"

lemma chosen_keeps:
  assumes "page_causal np pg" "find_writer np pg [0..<np] = Some iv"
  shows "iv_id iv < np \<and> repo_keeps (iv_id iv) np pg"
proof -
  obtain m where m: "m < np" "pg_write_notice pg m \<noteq> []" "iv = latest pg m"
    and top: "\<And>j. j < np \<Longrightarrow> pg_write_notice pg j \<noteq> [] \<Longrightarrow> has_seen np iv (latest pg j) \<Longrightarrow> has_seen np (latest pg j) iv"
    using find_writer_spec [OF assms(2)] by auto
  have id: "iv_id iv = m" using assms(1) [unfolded page_causal_def, rule_format, of m m] m by simp
  have "\<not> iv_vector_time (latest pg m) m \<le> iv_vector_time (latest pg j) m"
    if j: "j < np" "j \<noteq> m" "pg_write_notice pg j \<noteq> []" for j
  proof
    assume "iv_vector_time (latest pg m) m \<le> iv_vector_time (latest pg j) m"
    then have "has_seen np iv (latest pg j)" and lt: "iv_vector_time iv j < iv_vector_time (latest pg j) j"
      using assms(1) [unfolded page_causal_def, rule_format, of m j] m j by simp_all
    with top j have "has_seen np (latest pg j) iv" by blast
    with lt j(1) show False by (auto simp: has_seen_def dest!: spec [of _ j])
  qed
  with m id show ?thesis by (auto simp: repo_keeps_def)
qed

text \<open>A page that is kept: only its memory and the diffs of its notices change.\<close>

lemma repo_page_keep:
  assumes "pg_state (page_array n i) = Invalid" "repo_keeps (proc_id n) (nprocs n) (page_array n i)"
    and "repo_page msgs i n = Inr n'"
  obtains ds q st h where "length q = length (mem n i)"
    "n' = n\<lparr>stat := st, diff_heap_2 := h, mem := (mem n)(i := q), protection := (protection n)(i := PROT_READ),
       page_array := (page_array n)(i := fold (\<lambda>(r, d). set_notice_diff (fst r) (snd r) d) ds ((page_array n i)\<lparr>pg_state := Valid\<rparr>))\<rparr>"
proof -
  let ?n = "upd_page i (pg_state_update (\<lambda>_. Valid)) (set_protection i PROT_READ_WRITE n)"
  have "tmk_bind (tmk_option (Tmk_diff_request i msgs ?n)) (\<lambda>n. Inr (set_protection i PROT_READ n)) = Inr n'"
    using assms by (simp add: repo_page_def Let_def)
  then obtain m where m: "Tmk_diff_request i msgs ?n = Some m" "n' = set_protection i PROT_READ m"
    by (cases "Tmk_diff_request i msgs ?n") auto
  show ?thesis
  proof (rule diff_request_eq [OF m(1)])
    fix ds q rest st h
    assume "m = ?n\<lparr>stat := st, diff_heap_2 := h, mem := (mem ?n)(i := q),
       page_array := (page_array ?n)(i := fold (\<lambda>(r, d). set_notice_diff (fst r) (snd r) d) ds (page_array ?n i))\<rparr>"
      "length q = length (mem ?n i)"
    then show ?thesis
      by (intro that [where ds = ds and q = q and st = st and h = h]) (simp_all add: m(2) set_protection_def upd_page_def)
  qed
qed

lemma find_writer_state: "find_writer np (pg\<lparr>pg_state := s\<rparr>) js = find_writer np pg js"
proof -
  have "last_writer np (pg\<lparr>pg_state := s\<rparr>) jv ks = last_writer np pg jv ks" for jv ks
    by (induction ks arbitrary: jv) (simp_all add: latest_def)
  then show ?thesis by (induction js) (simp_all add: latest_def)
qed

text \<open>
  C28: When a reclamation makes a process discard a page, it names as the new manager a process
  that wrote the page and that, by the same rule, does not discard it; the process discards only
  pages that have such a writer.
\<close>

theorem repo_manager_keeps:
  assumes "page_causal (nprocs n) (page_array n i)" "pg_state (page_array n i) = Invalid \<or> pg_state (page_array n i) = Empty"
    and "repo_page msgs i n = Inr n'" "pg_state (page_array n' i) = Empty"
    and "\<exists>j < nprocs n. pg_write_notice (page_array n i) j \<noteq> []"
  shows "pg_manager (page_array n' i) < nprocs n \<and> repo_keeps (pg_manager (page_array n' i)) (nprocs n) (page_array n i) \<and>
    \<not> (pg_state (page_array n i) = Invalid \<and> pg_manager (page_array n' i) = proc_id n)"
proof -
  let ?pg = "page_array n i"
  obtain iv where iv: "find_writer (nprocs n) ?pg [0..<nprocs n] = Some iv"
    using assms(5) find_writer_None [of "nprocs n" ?pg "[0..<nprocs n]"] by (cases "find_writer (nprocs n) ?pg [0..<nprocs n]") auto
  note ch = chosen_keeps [OF assms(1) iv]
  have "pg_manager (page_array n' i) = iv_id iv \<and> (pg_state ?pg = Invalid \<longrightarrow> \<not> repo_keeps (proc_id n) (nprocs n) ?pg)"
  proof (cases "pg_state ?pg = Invalid \<and> repo_keeps (proc_id n) (nprocs n) ?pg")
    case True
    then have keep: "pg_state ?pg = Invalid" "repo_keeps (proc_id n) (nprocs n) ?pg" by simp_all
    have "pg_state (page_array n' i) = Valid"
      by (rule repo_page_keep [OF keep assms(3)]) (simp add: fold_set_notice_frame)
    with assms(4) show ?thesis by simp
  next
    case False
    with assms(2,3) iv show ?thesis
      by (auto simp: repo_page_def Let_def repo_update_manager_def find_writer_state page_array_upd_page)
  qed
  with ch show ?thesis by auto
qed

section \<open>Coherence\<close>

text \<open>
  The part of the invariant that holds while write notices are being dropped: both page lists are
  empty, twins and protections are in order.
\<close>

definition repo_inv :: "'a node_scheme \<Rightarrow> u32 list \<Rightarrow> bool" where
  "repo_inv n free \<longleftrightarrow> dirty_runs n [] \<and> inval_runs n [] \<and> twin_inv n free \<and>
     (\<forall>p < npages n. length (mem n p) = page_size n div 4 \<and>
        (pg_twin (page_array n p) \<noteq> 0 \<longrightarrow> length (twin_mem n (pg_twin (page_array n p))) = page_size n div 4) \<and>
        prot_ok (pg_state (page_array n p)) (pg_twin (page_array n p)) (protection n p) False)"

definition same_shape :: "'a node_scheme \<Rightarrow> 'a node_scheme \<Rightarrow> bool" where
  "same_shape n n' \<longleftrightarrow> proc_id n' = proc_id n \<and> nprocs n' = nprocs n \<and> npages n' = npages n \<and> page_size n' = page_size n"

lemma node_repo_inv: "node_inv n [] [] free \<Longrightarrow> repo_inv n free"
  by (auto simp: node_inv_def core_defs repo_inv_def covered_def)

lemma runs_Nil_frame:
  assumes "\<And>u. pg_prev (page_array n' u) = pg_prev (page_array n u)" "\<And>u. pg_next (page_array n' u) = pg_next (page_array n u)"
    and "\<And>u. pg_dirty_toggle (page_array n' u) = pg_dirty_toggle (page_array n u)"
    and "\<And>u. pg_inval_toggle (page_array n' u) = pg_inval_toggle (page_array n u)"
  shows "dirty_runs n [] \<Longrightarrow> dirty_runs n' []" "inval_runs n [] \<Longrightarrow> inval_runs n' []"
  using assms by (auto intro!: run_inv_frame [where a = "page_array n"])

lemma repo_inv_page:
  assumes inv: "repo_inv n free" and same: "same_shape n n'"
    and links: "\<And>u. pg_prev (page_array n' u) = pg_prev (page_array n u)" "\<And>u. pg_next (page_array n' u) = pg_next (page_array n u)"
      "\<And>u. pg_dirty_toggle (page_array n' u) = pg_dirty_toggle (page_array n u)"
      "\<And>u. pg_inval_toggle (page_array n' u) = pg_inval_toggle (page_array n u)"
      "\<And>u. pg_twin (page_array n' u) = pg_twin (page_array n u)"
    and twins: "twin_mem n' = twin_mem n" "twin_free_list n' = twin_free_list n"
    and others: "\<And>u. u \<noteq> i \<Longrightarrow> pg_state (page_array n' u) = pg_state (page_array n u) \<and> protection n' u = protection n u"
    and len: "\<And>u. length (mem n' u) = length (mem n u)"
    and ok: "prot_ok (pg_state (page_array n' i)) (pg_twin (page_array n i)) (protection n' i) False"
  shows "repo_inv n' free"
proof -
  have "twin_inv n' free" using inv same links(5) twins by (simp add: repo_inv_def twin_inv_def same_shape_def)
  moreover have "prot_ok (pg_state (page_array n' p)) (pg_twin (page_array n' p)) (protection n' p) False" if "p < npages n" for p
    using that inv ok others [of p] links(5) by (cases "p = i") (auto simp: repo_inv_def)
  ultimately show ?thesis
    using inv same links twins len runs_Nil_frame [OF links(1-4)] by (simp add: repo_inv_def same_shape_def)
qed

text \<open>One page: the process keeps the page consistent and without a twin; the other pages are not touched.\<close>

definition page_done :: "page_t \<Rightarrow> 'a node_scheme \<Rightarrow> 'a node_scheme \<Rightarrow> bool" where
  "page_done i n n' \<longleftrightarrow> (\<exists>free. repo_inv n' free) \<and> same_shape n n' \<and> pg_twin (page_array n' i) = 0 \<and>
     (\<forall>p. p \<noteq> i \<longrightarrow> page_array n' p = page_array n p)"

lemma page_done_twin:
  assumes inv: "repo_inv n free" and i: "i < npages n" "pg_state (page_array n i) = Valid" "pg_twin (page_array n i) \<noteq> 0"
  shows "page_done i n (upd_page i (pg_state_update (\<lambda>_. Private)) (Tmk_twin_free i n))"
proof -
  define n' where "n' = upd_page i (pg_state_update (\<lambda>_. Private)) (Tmk_twin_free i n)"
  have fr: "twin_mem n' = twin_mem (Tmk_twin_free i n)" "mem n' = mem n" "protection n' = protection n"
    "\<And>u. u \<noteq> i \<Longrightarrow> page_array n' u = page_array n u" "page_array n' i = (page_array n i)\<lparr>pg_twin := 0, pg_state := Private\<rparr>"
    "same_shape n n'" "\<And>u. pg_twin (page_array n' u) = pg_twin (page_array (Tmk_twin_free i n) u)"
    "npages n' = npages (Tmk_twin_free i n)" "twin_free_list n' = twin_free_list (Tmk_twin_free i n)"
    by (simp_all add: n'_def Tmk_twin_free_def Let_def page_array_upd_page same_shape_def)
  have "twin_inv (Tmk_twin_free i n) (pg_twin (page_array n i) # free)"
    using inv i by (intro twin_free_inv) (simp_all add: repo_inv_def)
  then have "twin_inv n' (pg_twin (page_array n i) # free)"
    unfolding twin_inv_def fr by simp
  moreover have "dirty_runs n' []" "inval_runs n' []"
    using inv runs_Nil_frame [of n' n] by (simp_all add: n'_def repo_inv_def page_array_upd_page Tmk_twin_free_def Let_def)
  moreover have "length (twin_mem (Tmk_twin_free i n) t) = length (twin_mem n t)" for t
    by (simp add: Tmk_twin_free_def Let_def)
  moreover have "prot_ok (pg_state (page_array n' p)) (pg_twin (page_array n' p)) (protection n' p) False" if "p < npages n" for p
    using inv that i by (cases "p = i") (auto simp: fr repo_inv_def prot_ok_def)
  moreover have "pg_twin (page_array n' p) \<noteq> 0 \<Longrightarrow> pg_twin (page_array n' p) = pg_twin (page_array n p)" for p
    by (cases "p = i") (simp_all add: fr)
  ultimately have "repo_inv n' (pg_twin (page_array n i) # free)"
    using inv fr(6) unfolding repo_inv_def same_shape_def fr(1-3) by metis
  then have "page_done i n n'" using fr by (auto simp: page_done_def)
  then show ?thesis by (simp add: n'_def)
qed

lemma page_done_frame:
  assumes inv: "repo_inv n free" and tw: "pg_twin (page_array n i) = 0" and same: "same_shape n n'"
    and page: "\<And>u. u \<noteq> i \<Longrightarrow> page_array n' u = page_array n u"
      "pg_prev (page_array n' i) = pg_prev (page_array n i)" "pg_next (page_array n' i) = pg_next (page_array n i)"
      "pg_dirty_toggle (page_array n' i) = pg_dirty_toggle (page_array n i)"
      "pg_inval_toggle (page_array n' i) = pg_inval_toggle (page_array n i)"
      "pg_twin (page_array n' i) = pg_twin (page_array n i)"
    and twins: "twin_mem n' = twin_mem n" "twin_free_list n' = twin_free_list n"
    and prot: "\<And>u. u \<noteq> i \<Longrightarrow> protection n' u = protection n u"
    and len: "\<And>u. length (mem n' u) = length (mem n u)"
    and ok: "prot_ok (pg_state (page_array n' i)) (pg_twin (page_array n i)) (protection n' i) False"
  shows "page_done i n n'"
proof -
  have "pg_prev (page_array n' u) = pg_prev (page_array n u)" "pg_next (page_array n' u) = pg_next (page_array n u)"
    "pg_dirty_toggle (page_array n' u) = pg_dirty_toggle (page_array n u)"
    "pg_inval_toggle (page_array n' u) = pg_inval_toggle (page_array n u)"
    "pg_twin (page_array n' u) = pg_twin (page_array n u)" for u
    using page by (cases "u = i"; simp)+
  then have "repo_inv n' free"
    by (rule repo_inv_page [OF inv same]) (use page(1) twins prot len ok in simp_all)
  then show ?thesis using tw same page by (auto simp: page_done_def)
qed

lemma repo_page_inv:
  assumes inv: "repo_inv n free" and i: "i < npages n" and ok: "repo_page msgs i n = Inr n'"
  shows "page_done i n n'"
proof -
  let ?pg = "page_array n i"
  have prot: "prot_ok (pg_state ?pg) (pg_twin ?pg) (protection n i) False"
    using inv i by (simp add: repo_inv_def)
  consider (twin) "pg_state ?pg = Valid" "pg_twin ?pg \<noteq> 0"
    | (keep) "pg_state ?pg = Invalid" "repo_keeps (proc_id n) (nprocs n) ?pg" "pg_twin ?pg = 0" "protection n i = PROT_NONE"
    | (discard) "pg_state ?pg = Invalid" "\<not> repo_keeps (proc_id n) (nprocs n) ?pg" "pg_twin ?pg = 0" "protection n i = PROT_NONE"
    | (other) "pg_twin ?pg = 0" "pg_state ?pg \<noteq> Invalid"
    using prot by (cases "pg_state ?pg") (auto simp: prot_ok_def)
  then show ?thesis
  proof cases
    case twin
    with ok show ?thesis using page_done_twin [OF inv i] by (simp add: repo_page_def)
  next
    case keep
    show ?thesis
      by (rule repo_page_keep [OF keep(1,2) ok], rule page_done_frame [OF inv keep(3)])
         (simp_all add: same_shape_def fold_set_notice_frame prot_ok_def keep)
  next
    case discard
    then obtain k where n': "n' = upd_page i (\<lambda>pg. pg\<lparr>pg_state := Empty, pg_manager := k\<rparr>) n"
      using ok by (auto simp: repo_page_def Let_def repo_update_manager_def upd_page_def split: option.splits)
    show ?thesis
      by (rule page_done_frame [OF inv discard(3)])
         (simp_all add: n' same_shape_def page_array_upd_page prot_ok_def discard)
  next
    case other
    have "\<exists>k. n' = upd_page i (\<lambda>pg. pg\<lparr>pg_manager := k\<rparr>) n"
    proof (cases "pg_state ?pg = Empty \<and> find_writer (nprocs n) ?pg [0..<nprocs n] \<noteq> None")
      case True
      with ok other show ?thesis by (auto simp: repo_page_def Let_def repo_update_manager_def upd_page_def)
    next
      case False
      with ok other have "n' = n" by (auto simp: repo_page_def Let_def repo_update_manager_def split: if_splits)
      then show ?thesis by (intro exI [of _ "pg_manager ?pg"]) (simp add: upd_page_def)
    qed
    then obtain k where n': "n' = upd_page i (\<lambda>pg. pg\<lparr>pg_manager := k\<rparr>) n" ..
    show ?thesis
      by (rule page_done_frame [OF inv other(1)])
         (use prot in \<open>simp_all add: n' same_shape_def page_array_upd_page\<close>)
  qed
qed

text \<open>The loop over the pages.\<close>

lemma repo_pages_inv:
  assumes "repo_inv n free" "\<And>i. i \<in> set is \<Longrightarrow> i < npages n" "repo_pages msgs is n = Inr n'"
  shows "(\<exists>free. repo_inv n' free) \<and> same_shape n n' \<and>
    (\<forall>p. if p \<in> set is then pg_twin (page_array n' p) = 0 else page_array n' p = page_array n p)"
  using assms
proof (induction "is" arbitrary: n free)
  case Nil
  then show ?case by (auto simp: same_shape_def)
next
  case (Cons i "is")
  then obtain m where m: "repo_page (msgs i) i n = Inr m" "repo_pages msgs is m = Inr n'"
    by (auto simp: tmk_bind_Inr_iff)
  have pd: "page_done i n m" using repo_page_inv [OF Cons.prems(1) _ m(1)] Cons.prems(2) by simp
  then obtain free' where "repo_inv m free'" and sh: "same_shape n m" by (auto simp: page_done_def)
  moreover have "npages m = npages n" using sh by (simp add: same_shape_def)
  ultimately have ih: "(\<exists>free. repo_inv n' free) \<and> same_shape m n' \<and>
      (\<forall>p. if p \<in> set is then pg_twin (page_array n' p) = 0 else page_array n' p = page_array m p)"
    using Cons.IH [OF _ _ m(2)] Cons.prems(2) by simp
  have "if p \<in> set (i # is) then pg_twin (page_array n' p) = 0 else page_array n' p = page_array n p" for p
  proof -
    have "if p \<in> set is then pg_twin (page_array n' p) = 0 else page_array n' p = page_array m p" using ih by blast
    with pd show ?thesis by (cases "p = i"; cases "p \<in> set is") (simp_all add: page_done_def)
  qed
  then show ?case using ih sh by (auto simp: same_shape_def)
qed

text \<open>
  Every write notice of a page belongs to an interval of the interval lists that names the page, and
  intervals name shared pages only.
\<close>

definition notices_listed :: "'a node_scheme \<Rightarrow> bool" where
  "notices_listed n \<longleftrightarrow>
     (\<forall>p < npages n. \<forall>j < nprocs n. \<forall>w \<in> set (pg_write_notice (page_array n p) j).
        wn_interval w \<in> set (proc_array n j) \<and> (\<exists>(f, l) \<in> set (iv_ranges (wn_interval w)). unat f \<le> p \<and> p \<le> unat l)) \<and>
     (\<forall>j < nprocs n. \<forall>iv \<in> set (proc_array n j). \<forall>(f, l) \<in> set (iv_ranges iv). unat l < npages n)"

lemma fold_bound:
  fixes g :: "'b \<Rightarrow> int \<times> int \<Rightarrow> int \<times> int"
  assumes mono: "\<And>x b. x \<in> set xs \<Longrightarrow> fst (g x b) \<le> fst b \<and> snd b \<le> snd (g x b)"
  shows "fst (fold g xs b) \<le> fst b \<and> snd b \<le> snd (fold g xs b)"
  using assms
proof (induction xs arbitrary: b)
  case (Cons x xs)
  then have "fst (fold g xs (g x b)) \<le> fst (g x b) \<and> snd (g x b) \<le> snd (fold g xs (g x b))" by simp
  with Cons.prems [of x b] show ?case by simp
qed simp

lemma fold_reach:
  fixes g :: "'b \<Rightarrow> int \<times> int \<Rightarrow> int \<times> int"
  assumes mono: "\<And>x b. x \<in> set xs \<Longrightarrow> fst (g x b) \<le> fst b \<and> snd b \<le> snd (g x b)"
    and x: "x \<in> set xs" and hit: "\<And>b. fst (g x b) \<le> lo \<and> hi \<le> snd (g x b)"
  shows "fst (fold g xs b) \<le> lo \<and> hi \<le> snd (fold g xs b)"
proof -
  obtain ys zs where xs: "xs = ys @ x # zs" using x by (auto dest: split_list)
  have "fst (fold g zs c) \<le> fst c \<and> snd c \<le> snd (fold g zs c)" for c
    by (rule fold_bound) (use mono xs in auto)
  from this [of "g x (fold g ys b)"] hit [of "fold g ys b"] show ?thesis by (simp add: xs)
qed

lemma widen_mono: "fst (widen r b) \<le> fst b \<and> snd b \<le> snd (widen r b)"
  by (simp add: widen_def)

lemma fold_widen_mono: "fst (fold widen rs b) \<le> fst b \<and> snd b \<le> snd (fold widen rs b)"
  by (rule fold_bound) (rule widen_mono)

lemma fold_list_mono:
  "fst (fold (\<lambda>iv. fold widen (iv_ranges iv)) ivs b) \<le> fst b \<and> snd b \<le> snd (fold (\<lambda>iv. fold widen (iv_ranges iv)) ivs b)"
  by (rule fold_bound) (rule fold_widen_mono)

lemma repo_bounds_covers:
  assumes "notices_listed n" "p < npages n" "j < nprocs n" "pg_write_notice (page_array n p) j \<noteq> []"
  shows "fst (repo_bounds n) \<le> int p \<and> int p \<le> snd (repo_bounds n)"
proof -
  let ?w = "hd (pg_write_notice (page_array n p) j)"
  have w: "?w \<in> set (pg_write_notice (page_array n p) j)" using assms(4) by simp
  with assms(1-3) have iv: "wn_interval ?w \<in> set (proc_array n j)"
    and "\<exists>(f, l) \<in> set (iv_ranges (wn_interval ?w)). unat f \<le> p \<and> p \<le> unat l"
    unfolding notices_listed_def by blast+
  then obtain f l where r: "(f, l) \<in> set (iv_ranges (wn_interval ?w))" "unat f \<le> p" "p \<le> unat l" by blast
  have "int (unat f) \<le> int p" "int p \<le> int (unat l)" using r(2,3) by (simp_all only: of_nat_le_iff)
  then have u: "uint f \<le> int p" "int p \<le> uint l" by simp_all
  have 1: "fst (fold widen (iv_ranges (wn_interval ?w)) b) \<le> int p \<and> int p \<le> snd (fold widen (iv_ranges (wn_interval ?w)) b)" for b
    by (rule fold_reach [OF widen_mono r(1)]) (use u in \<open>auto simp: widen_def\<close>)
  have 2: "fst (fold (\<lambda>iv. fold widen (iv_ranges iv)) (rev (proc_array n j)) b) \<le> int p \<and>
      int p \<le> snd (fold (\<lambda>iv. fold widen (iv_ranges iv)) (rev (proc_array n j)) b)" for b
    by (rule fold_reach [where x = "wn_interval ?w"]) (use iv fold_widen_mono 1 in simp_all)
  show ?thesis unfolding repo_bounds_def
    by (rule fold_reach [where x = j]) (use assms(3) fold_list_mono 2 in simp_all)
qed

lemma fold_limit:
  fixes g :: "'b \<Rightarrow> int \<times> int \<Rightarrow> int \<times> int"
  assumes "\<And>x b. x \<in> set xs \<Longrightarrow> 0 \<le> fst b \<Longrightarrow> snd b < m \<Longrightarrow> 0 \<le> fst (g x b) \<and> snd (g x b) < m" "0 \<le> fst b" "snd b < m"
  shows "0 \<le> fst (fold g xs b) \<and> snd (fold g xs b) < m"
  using assms by (induction xs arbitrary: b) (auto simp del: fold_append)

lemma repo_bounds_limit:
  assumes "notices_listed n"
  shows "0 \<le> fst (repo_bounds n) \<and> snd (repo_bounds n) < int (npages n)"
  unfolding repo_bounds_def
proof (rule fold_limit)
  fix j b assume j: "j \<in> set [0..<nprocs n]" and b: "0 \<le> fst (b :: int \<times> int)" "snd b < int (npages n)"
  have "unat (snd r) < npages n" if "iv \<in> set (proc_array n j)" "r \<in> set (iv_ranges iv)" for iv r
  proof -
    from assms j that(1) have "\<forall>(f, l) \<in> set (iv_ranges iv). unat l < npages n" by (simp add: notices_listed_def)
    with that(2) show ?thesis by auto
  qed
  then have "uint (snd r) < int (npages n)" if "iv \<in> set (proc_array n j)" "r \<in> set (iv_ranges iv)" for iv r
    using that by (metis of_nat_less_iff of_nat_unat)
  then show "0 \<le> fst (fold (\<lambda>iv. fold widen (iv_ranges iv)) (rev (proc_array n j)) b) \<and>
      snd (fold (\<lambda>iv. fold widen (iv_ranges iv)) (rev (proc_array n j)) b) < int (npages n)"
    using b by (intro fold_limit) (auto simp: widen_def)
qed auto

lemma page_range_iff: "0 \<le> fst b \<Longrightarrow> p \<in> set (page_range b) \<longleftrightarrow> fst b \<le> int p \<and> int p \<le> snd b"
  by (auto simp: page_range_def image_iff) (metis atLeastAtMost_iff nat_int)

text \<open>
  C27: A reclamation leaves a coherent process without write notices, twins and dirty pages and with its
  vector time reset, whatever diffs the other processes sent for the pages it keeps: a page it kept is
  readable, one it discarded is fetched again at the next access.
\<close>

theorem repo_coherent:
  assumes inv: "node_inv n [] [] free" and listed: "notices_listed n" and me: "proc_id n < nprocs n" "nprocs n \<le> NPROCS"
    and ok: "repo_begin msgs n = Inr m"
  shows "coherent (repo_flush (repo_bounds n) m) \<and>
    (\<forall>p < npages n. pg_twin (page_array (repo_flush (repo_bounds n) m) p) = 0 \<and>
       (\<forall>j < nprocs n. pg_write_notice (page_array (repo_flush (repo_bounds n) m) p) j = [])) \<and>
    (\<forall>j < nprocs n. proc_array (repo_flush (repo_bounds n) m) j = [] \<and> proc_vector_time (repo_flush (repo_bounds n) m) j = 0)"
proof -
  define b where "b = repo_bounds n"
  let ?n = "upd_stat (\<lambda>s. s\<lparr>repos := repos s + 1\<rparr>) n" and ?m = "repo_flush b m"
  have lim: "0 \<le> fst b" "snd b < int (npages n)" using repo_bounds_limit [OF listed] by (simp_all add: b_def)
  have ri: "repo_inv ?n free" using node_repo_inv [OF inv] by (simp add: repo_inv_def twin_inv_def upd_stat_def)
  have "(\<exists>free. repo_inv m free) \<and> same_shape ?n m \<and>
      (\<forall>p. if p \<in> set (page_range b) then pg_twin (page_array m p) = 0 else page_array m p = page_array ?n p)"
    by (rule repo_pages_inv [OF ri]) (use ok lim in \<open>auto simp: repo_begin_def page_range_iff upd_stat_def simp flip: b_def\<close>)
  then obtain free' where rm: "repo_inv m free'" and sh: "same_shape n m"
    and pages: "\<And>p. p \<in> set (page_range b) \<Longrightarrow> pg_twin (page_array m p) = 0"
      "\<And>p. p \<notin> set (page_range b) \<Longrightarrow> page_array m p = page_array n p"
    by (auto simp: same_shape_def upd_stat_def split: if_splits)
  have none: "pg_write_notice (page_array n p) j = []" if "p < npages n" "j < nprocs n" "p \<notin> set (page_range b)" for p j
    using repo_bounds_covers [OF listed that(1,2)] that(3) lim(1) by (auto simp: page_range_iff b_def)
  have pa: "page_array ?m p = (if p \<in> set (page_range b)
      then (page_array m p)\<lparr>pg_write_notice := (\<lambda>j. if j < NPROCS then [] else pg_write_notice (page_array m p) j)\<rparr>
      else page_array m p)" for p
    using lim(1) by (simp add: repo_flush_def Tmk_interval_repo_def Tmk_diff_repo_def page_range_iff)
  have fr: "mem ?m = mem m" "protection ?m = protection m" "twin_mem ?m = twin_mem m" "twin_free_list ?m = twin_free_list m"
    "proc_id ?m = proc_id n" "nprocs ?m = nprocs n" "npages ?m = npages n" "page_size ?m = page_size n"
    using sh by (simp_all add: repo_flush_def Tmk_interval_repo_def Tmk_diff_repo_def same_shape_def)
  have twin: "pg_twin (page_array m p) = 0" if "p < npages n" for p
  proof (cases "p \<in> set (page_range b)")
    case False
    with inv none [OF that me(1)] that pages(2) show ?thesis
      by (auto simp: node_inv_def core_defs notice_ok_def undiffed_def covered_def)
  qed (rule pages(1))
  have notices: "pg_write_notice (page_array ?m p) j = []" if "p < npages n" "j < nprocs n" for p j
    using that me(2) none [OF that] pages(2) [of p] by (auto simp: pa)
  have links: "pg_twin (page_array ?m p) = pg_twin (page_array m p)" "pg_state (page_array ?m p) = pg_state (page_array m p)"
    "pg_prev (page_array ?m p) = pg_prev (page_array m p)" "pg_next (page_array ?m p) = pg_next (page_array m p)"
    "pg_dirty_toggle (page_array ?m p) = pg_dirty_toggle (page_array m p)"
    "pg_inval_toggle (page_array ?m p) = pg_inval_toggle (page_array m p)" for p
    by (simp_all add: pa)
  have "node_inv ?m [] [] free'"
  proof -
    have "dirty_runs ?m []" "inval_runs ?m []" "twin_inv ?m free'"
      using rm runs_Nil_frame [of ?m m] sh by (simp_all add: repo_inv_def links twin_inv_def fr same_shape_def)
    moreover have "npages n \<le> NPAGES" "page_words_ok (page_size n div 4)" using inv by (simp_all add: node_inv_def core_inv_def)
    moreover have "notice_ok False 0 []" by (simp add: notice_ok_def undiffed_def)
    ultimately show ?thesis
      using rm twin notices me(1) sh
      by (simp add: node_inv_def core_defs fr links repo_inv_def same_shape_def covered_def)
  qed
  then have "coherent ?m" by (rule coherentI)
  moreover have "proc_array ?m j = []" "proc_vector_time ?m j = 0" if "j < nprocs n" for j
    using that sh me(2) by (auto simp: repo_flush_def Tmk_interval_repo_def Tmk_diff_repo_def same_shape_def)
  ultimately show ?thesis using notices twin by (simp add: links flip: b_def)
qed

section \<open>Both internal barriers\<close>

interpretation repo_spin: spinning repo_mask "\<lambda>j. j" "\<lambda>j n n'. n' = Tmk_repo_sigio_handler j n"
  by unfold_locales (simp add: Tmk_repo_sigio_handler_def)

lemma repo_handler_frame [simp]:
  "nprocs (fold Tmk_repo_sigio_handler js n) = nprocs n" "rep_seqno (fold Tmk_repo_sigio_handler js n) = rep_seqno n"
  by (induction js arbitrary: n) (simp_all add: Tmk_repo_sigio_handler_def)

text \<open>
  Process 0 leaves the internal barrier of a reclamation exactly when all other processes have sent
  their request.  It answers each of them once, with the sequence number of its request, and is ready for
  the next barrier.  A repeated request is answered only if its sender has been released: not between its
  arrival and the release, and again afterwards.
\<close>

theorem repo_barrier_waits:
  assumes "repo_mask n = 1" "1 \<le> nprocs n" "nprocs n \<le> NPROCS" "set js \<subseteq> {1..<nprocs n}"
  defines "n' \<equiv> fold Tmk_repo_sigio_handler js n"
  shows "repo_release n' = (if {1..<nprocs n} \<subseteq> set js
      then Some (map (\<lambda>j. Send_repo_ack j (rep_seqno n j)) [1..<nprocs n], n'\<lparr>repo_mask := 1\<rparr>) else None) \<and>
    (\<forall>j < nprocs n. 0 < j \<longrightarrow> Tmk_repo_sigio_duplicate_handler j s n' = (if j \<in> set js then [] else [Send_repo_ack j s]) \<and>
       Tmk_repo_sigio_duplicate_handler j s (n'\<lparr>repo_mask := 1\<rparr>) = [Send_repo_ack j s])"
proof -
  have arr: "arrive_seq (\<lambda>j n n'. n' = Tmk_repo_sigio_handler j n) js n n'"
    unfolding arrive_seq_fun by (simp add: n'_def)
  have one: "bit (1 :: u32) k \<longleftrightarrow> k = 0" for k by (simp add: bit_1_iff)
  have ends: "repo_mask n' XOR Tmk_spinmask (nprocs n) = 0 \<longleftrightarrow> {k. k < nprocs n \<and> \<not> bit (repo_mask n) k} \<subseteq> (\<lambda>j. j) ` set js"
    by (rule repo_spin.spin_ends_iff [OF arr]) (use assms in \<open>auto simp: one\<close>)
  have missing: "{k. k < nprocs n \<and> \<not> bit (repo_mask n) k} = {1..<nprocs n}" using assms(1) by (auto simp: one)
  have bits: "bit (repo_mask n') j \<longleftrightarrow> j \<in> set js" if "j < nprocs n" "0 < j" for j
    using repo_spin.arrive_seq_bit [OF arr, of j] that assms(1,3) by (simp add: one)
  have "repo_release n' = (if {1..<nprocs n} \<subseteq> set js
      then Some (map (\<lambda>j. Send_repo_ack j (rep_seqno n j)) [1..<nprocs n], n'\<lparr>repo_mask := 1\<rparr>) else None)"
    using ends unfolding missing by (simp add: repo_release_def n'_def)
  moreover have "Tmk_repo_sigio_duplicate_handler j s n' = (if j \<in> set js then [] else [Send_repo_ack j s])"
    "Tmk_repo_sigio_duplicate_handler j s (n'\<lparr>repo_mask := 1\<rparr>) = [Send_repo_ack j s]" if "j < nprocs n" "0 < j" for j
    using that bits assms(3) by (simp_all add: Tmk_repo_sigio_duplicate_handler_def and_proc_bit one)
  ultimately show ?thesis by blast
qed

section \<open>Witnesses\<close>

definition repo_demo_interval :: "nat \<Rightarrow> nat \<Rightarrow> nat \<Rightarrow> interval" where
  "repo_demo_interval i a b = \<lparr>iv_id = i, iv_vector_time = (\<lambda>k. if k = 0 then of_nat a else if k = 1 then of_nat b else 0), iv_ranges = [(3, 3)]\<rparr>"

text \<open>Process 1 of two; page 3 is invalid, and process 0 wrote it after process 1.\<close>

definition repo_demo :: node where
  "repo_demo = upd_page 3 (\<lambda>pg. pg\<lparr>pg_state := Invalid,
     pg_write_notice := (\<lambda>j. if j = 0 then [new_notice (repo_demo_interval 0 2 1)]
        else if j = 1 then [new_notice (repo_demo_interval 1 1 1)] else [])\<rparr>) demo_node"

lemma repo_demo_page:
  "page_causal 2 (page_array repo_demo 3)" "nprocs repo_demo = 2" "proc_id repo_demo = 1"
  "pg_state (page_array repo_demo 3) = Invalid" "pg_write_notice (page_array repo_demo 3) 0 \<noteq> []"
proof -
  have le: "\<not> 2 \<le> (1 :: u16)" by (simp add: word_le_nat_alt)
  have two: "(\<forall>k < 2. P k) \<longleftrightarrow> P 0 \<and> P (1 :: nat)" for P by (auto simp: less_2_cases_iff)
  show "page_causal 2 (page_array repo_demo 3)"
    unfolding page_causal_def two
    by (simp add: repo_demo_def page_array_upd_page latest_def new_notice_def repo_demo_interval_def has_seen_def two le)
qed (simp_all add: repo_demo_def page_array_upd_page demo_node_simps new_notice_def)

theorem repo_manager_keeps_witness:
  "\<exists>n'. repo_page [] 3 repo_demo = Inr n' \<and> pg_manager (page_array n' 3) < 2 \<and>
     repo_keeps (pg_manager (page_array n' 3)) 2 (page_array repo_demo 3) \<and> pg_manager (page_array n' 3) \<noteq> 1"
proof -
  let ?pg = "page_array repo_demo 3"
  have up: "[0..<2] = [0, 1 :: nat]" by (simp add: upt_rec)
  have "\<not> repo_keeps 1 2 ?pg"
    unfolding repo_keeps_def
    by (simp add: repo_demo_def page_array_upd_page latest_def new_notice_def repo_demo_interval_def) (intro exI [of _ 0], simp)
  moreover obtain pg where "repo_update_manager 2 (?pg\<lparr>pg_state := Empty\<rparr>) = Some pg" "pg_state pg = Empty"
    using repo_demo_page(5) by (auto simp: repo_update_manager_def find_writer_state up)
  ultimately have r: "\<exists>n'. repo_page [] 3 repo_demo = Inr n' \<and> pg_state (page_array n' 3) = Empty"
    by (auto simp: repo_page_def Let_def repo_demo_page page_array_upd_page)
  then obtain n' where n': "repo_page [] 3 repo_demo = Inr n'" "pg_state (page_array n' 3) = Empty" by blast
  have "\<exists>j < nprocs repo_demo. pg_write_notice ?pg j \<noteq> []" using repo_demo_page by (intro exI [of _ 0]) simp
  from repo_manager_keeps [OF _ _ n' this] repo_demo_page n'(1) show ?thesis by auto
qed

text \<open>Process 1 has written page 3 and ended the interval.\<close>

definition repo_demo_2 :: node where
  "repo_demo_2 = (upd_page 3 (\<lambda>pg. pg\<lparr>pg_twin := 4096,
     pg_write_notice := (\<lambda>j. if j = 1 then [new_notice (repo_demo_interval 1 0 1)] else [])\<rparr>) demo_node)
     \<lparr>twin_mem := (\<lambda>_. [0, 0, 0, 0]), protection := (protection demo_node)(3 := PROT_READ_WRITE),
      proc_array := (\<lambda>j. if j = 1 then [repo_demo_interval 1 0 1] else [])\<rparr>"

lemma repo_demo_2_inv: "node_inv repo_demo_2 [] [] []"
proof -
  note inv = demo_node_inv [unfolded node_inv_def core_defs twin_inv_def covered_def]
  have links: "pg_prev (page_array repo_demo_2 u) = pg_prev (page_array demo_node u)"
    "pg_next (page_array repo_demo_2 u) = pg_next (page_array demo_node u)"
    "pg_dirty_toggle (page_array repo_demo_2 u) = pg_dirty_toggle (page_array demo_node u)"
    "pg_inval_toggle (page_array repo_demo_2 u) = pg_inval_toggle (page_array demo_node u)" for u
    by (simp_all add: repo_demo_2_def page_array_upd_page)
  have "dirty_runs repo_demo_2 []" "inval_runs repo_demo_2 []"
    using inv runs_Nil_frame [OF links] by blast+
  moreover have "twin_inv repo_demo_2 []"
    using inv by (auto simp: twin_inv_def repo_demo_2_def page_array_upd_page demo_node_simps)
  moreover have "prot_ok Valid 4096 PROT_READ_WRITE False" by (simp add: prot_ok_def)
  ultimately show ?thesis
    using inv unfolding node_inv_def core_defs covered_def
    by (auto simp: repo_demo_2_def page_array_upd_page demo_node_simps notice_ok_def undiffed_def new_notice_def)
qed

theorem repo_coherent_witness:
  "\<exists>m. repo_begin (\<lambda>_. []) repo_demo_2 = Inr m \<and> coherent (repo_flush (repo_bounds repo_demo_2) m) \<and>
     pg_twin (page_array repo_demo_2 3) = 4096 \<and> pg_twin (page_array (repo_flush (repo_bounds repo_demo_2) m) 3) = 0"
proof -
  have shape: "npages repo_demo_2 = 16" "nprocs repo_demo_2 = 2" "proc_id repo_demo_2 = 1"
    "pg_twin (page_array repo_demo_2 3) = 4096" "pg_state (page_array repo_demo_2 3) = Valid"
    "proc_array repo_demo_2 = (\<lambda>j. if j = 1 then [repo_demo_interval 1 0 1] else [])"
    by (simp_all add: repo_demo_2_def demo_node_simps page_array_upd_page)
  have listed: "notices_listed repo_demo_2"
    by (auto simp: notices_listed_def shape)
       (auto simp: repo_demo_2_def page_array_upd_page demo_node_simps new_notice_def repo_demo_interval_def split: if_splits)
  have "[0..<2] = [0, 1 :: nat]" by (simp add: upt_rec)
  then have b: "repo_bounds repo_demo_2 = (3, 3)"
    by (simp add: repo_bounds_def shape repo_demo_interval_def widen_def)
  have "page_range (3, 3) = [3]" by (simp add: page_range_def)
  then obtain m where m: "repo_begin (\<lambda>_. []) repo_demo_2 = Inr m"
    by (simp add: repo_begin_def b repo_page_def upd_stat_def shape)
  from repo_coherent [OF repo_demo_2_inv listed _ _ m] m show ?thesis by (simp add: shape)
qed

definition repo_demo_3 :: rnode where
  "repo_demo_3 = lnode.extend (demo_lnode\<lparr>proc_id := 0, nprocs := 3\<rparr>) (rnode.fields 1)"

theorem repo_barrier_waits_witness:
  "repo_release (fold Tmk_repo_sigio_handler [2] repo_demo_3) = None \<and>
   map_option fst (repo_release (fold Tmk_repo_sigio_handler [2, 1] repo_demo_3)) =
     Some [Send_repo_ack 1 (rep_seqno repo_demo_3 1), Send_repo_ack 2 (rep_seqno repo_demo_3 2)] \<and>
   Tmk_repo_sigio_duplicate_handler 2 64 (fold Tmk_repo_sigio_handler [2] repo_demo_3) = []"
proof -
  have n: "repo_mask repo_demo_3 = 1" "nprocs repo_demo_3 = 3" by (simp_all add: repo_demo_3_def lnode.defs rnode.defs)
  have up: "[Suc 0..<3] = [1, 2]" "{Suc 0..<3} = {1, 2}" by (auto simp: upt_rec)
  show ?thesis
    using repo_barrier_waits [of repo_demo_3 "[2]" 64] repo_barrier_waits [of repo_demo_3 "[2, 1]" 64]
    by (auto simp: n up)
qed

end
