(* ===== verification/Tmk_Buffer.thy ===== *)
theory Tmk_Buffer
  imports Tmk_Repo
begin

text \<open>
  The message buffers of \<^verbatim>\<open>Tmk/src/sigio.c\<close>.  A request is received into the buffer on top of a stack of
  free buffers.  A request to arrive at a barrier or to join stays in its buffer until it is answered: the
  buffer is popped then and pushed back by the operation that answers.  The buffers are numbered
  \<^verbatim>\<open>sigio_buffer_[0]\<close> to \<^verbatim>\<open>sigio_buffer_[NPROCS - 1]\<close>; \<^verbatim>\<open>sigio_buffer_tos\<close> is the index of the top of the stack.
\<close>

section \<open>State\<close>

text \<open>
  A request with consistency data: \<^verbatim>\<open>rq_repo\<close> tells \<^verbatim>\<open>REQ_ARRIVAL_REPO\<close> from \<^verbatim>\<open>REQ_ARRIVAL\<close>, and
  \<^verbatim>\<open>REQ_JOIN_REPO\<close> from \<^verbatim>\<open>REQ_JOIN\<close>; \<^verbatim>\<open>rq_data\<close> is what follows the vector time in the message.
\<close>

record req_arrival = req_syn +
  rq_repo :: bool
  rq_data :: "u16 list"

record snode = rnode +
  req_from :: "nat \<Rightarrow> nat"
  sigio_buffer :: "nat \<Rightarrow> req_arrival"
  sigio_buffer_stack :: "nat \<Rightarrow> nat"
  sigio_buffer_tos :: nat

section \<open>Operations\<close>

text \<open>Accesses outside \<^verbatim>\<open>sigio_buffer_stack_\<close> are wild.\<close>

definition Tmk_sigio_buffer_release :: "nat \<Rightarrow> 'a snode_scheme \<Rightarrow> 'a snode_scheme tmk_result" where
  "Tmk_sigio_buffer_release b n =
     (if sigio_buffer_tos n = 0 then Inl Wild_access
      else Inr (n\<lparr>sigio_buffer_tos := sigio_buffer_tos n - 1,
                  sigio_buffer_stack := (sigio_buffer_stack n)(sigio_buffer_tos n - 1 := b)\<rparr>))"

text \<open>Receiving a request of a type in \<^verbatim>\<open>SIGIO_BUFFER_HOLD\<close>.\<close>

definition sigio_buffer_hold :: "req_arrival \<Rightarrow> 'a snode_scheme \<Rightarrow> 'a snode_scheme tmk_result" where
  "sigio_buffer_hold req n =
     (if NPROCS \<le> sigio_buffer_tos n then Inl Wild_access
      else (let b = sigio_buffer_stack n (sigio_buffer_tos n)
            in Inr (n\<lparr>sigio_buffer := (sigio_buffer n)(b := req), req_from := (req_from n)(rq_from req := b),
                      sigio_buffer_tos := sigio_buffer_tos n + 1\<rparr>)))"

definition Tmk_sigio_initialize :: "'a snode_scheme \<Rightarrow> 'a snode_scheme" where
  "Tmk_sigio_initialize n = n\<lparr>sigio_buffer_stack := (\<lambda>i. if i < NPROCS then i else sigio_buffer_stack n i)\<rparr>"

section \<open>Free and held buffers\<close>

text \<open>\<open>held\<close> is the set of processes whose request occupies a buffer.\<close>

definition free_buffers :: "'a snode_scheme \<Rightarrow> nat list" where
  "free_buffers n = map (sigio_buffer_stack n) [sigio_buffer_tos n..<NPROCS]"

definition buffer_inv :: "'a snode_scheme \<Rightarrow> nat set \<Rightarrow> bool" where
  "buffer_inv n held \<longleftrightarrow>
     finite held \<and> sigio_buffer_tos n = card held \<and> sigio_buffer_tos n \<le> NPROCS \<and>
     distinct (free_buffers n) \<and> inj_on (req_from n) held \<and>
     set (free_buffers n) \<inter> req_from n ` held = {} \<and> set (free_buffers n) \<union> req_from n ` held = {..<NPROCS}"

lemma buffer_inv_cong:
  assumes "sigio_buffer_tos m = sigio_buffer_tos n" "sigio_buffer_stack m = sigio_buffer_stack n" "req_from m = req_from n"
  shows "buffer_inv m held = buffer_inv n held"
  unfolding buffer_inv_def free_buffers_def assms by (rule refl)

lemma free_buffers_top:
  "sigio_buffer_tos n < NPROCS \<Longrightarrow>
   free_buffers n = sigio_buffer_stack n (sigio_buffer_tos n) # map (sigio_buffer_stack n) [sigio_buffer_tos n + 1..<NPROCS]"
  by (simp add: free_buffers_def upt_rec)

lemma initialize_buffers:
  assumes "sigio_buffer_tos n = 0"
  shows "buffer_inv (Tmk_sigio_initialize n) {}"
proof -
  have "free_buffers (Tmk_sigio_initialize n) = map (\<lambda>i. i) [0..<NPROCS]"
    unfolding free_buffers_def by (rule map_cong) (simp_all add: Tmk_sigio_initialize_def assms)
  then show ?thesis using assms by (auto simp: buffer_inv_def Tmk_sigio_initialize_def)
qed

lemma hold_inv:
  assumes inv: "buffer_inv n held" and new: "rq_from req \<notin> held" "card held < NPROCS"
  shows "\<exists>n'. sigio_buffer_hold req n = Inr n' \<and> buffer_inv n' (insert (rq_from req) held) \<and>
    sigio_buffer n' (req_from n' (rq_from req)) = req \<and>
    (\<forall>j \<in> held. req_from n' j = req_from n j \<and> sigio_buffer n' (req_from n' j) = sigio_buffer n (req_from n j))"
proof -
  from inv new(2) have tos: "sigio_buffer_tos n < NPROCS" "sigio_buffer_tos n = card held" "finite held"
    by (simp_all add: buffer_inv_def)
  define b where "b = sigio_buffer_stack n (sigio_buffer_tos n)"
  define n' where "n' = n\<lparr>sigio_buffer := (sigio_buffer n)(b := req), req_from := (req_from n)(rq_from req := b),
      sigio_buffer_tos := sigio_buffer_tos n + 1\<rparr>"
  have top: "free_buffers n = b # free_buffers n'"
    using free_buffers_top [OF tos(1)] by (simp add: n'_def free_buffers_def b_def)
  have rf: "req_from n' j = (if j = rq_from req then b else req_from n j)" for j by (simp add: n'_def)
  have img: "req_from n' ` insert (rq_from req) held = insert b (req_from n ` held)"
    using new(1) by (auto simp: rf)
  have b: "b \<notin> req_from n ` held" "b \<notin> set (free_buffers n')" using inv top by (auto simp: buffer_inv_def)
  have "inj_on (req_from n') (insert (rq_from req) held)"
    using inv new(1) b(1) by (auto simp: buffer_inv_def inj_on_def rf)
  moreover have "distinct (free_buffers n')" "set (free_buffers n') \<inter> insert b (req_from n ` held) = {}"
    "set (free_buffers n') \<union> insert b (req_from n ` held) = {..<NPROCS}"
    using inv b by (auto simp: buffer_inv_def top)
  ultimately have "buffer_inv n' (insert (rq_from req) held)"
    using tos new(1) unfolding buffer_inv_def img by (simp add: n'_def)
  moreover have "sigio_buffer_hold req n = Inr n'"
    using tos(1) by (simp add: sigio_buffer_hold_def Let_def n'_def b_def)
  moreover have "req_from n' j = req_from n j \<and> sigio_buffer n' (req_from n' j) = sigio_buffer n (req_from n j)" if "j \<in> held" for j
    using that new(1) b(1) by (auto simp: n'_def)
  moreover have "sigio_buffer n' (req_from n' (rq_from req)) = req" by (simp add: n'_def)
  ultimately show ?thesis by blast
qed

lemma release_inv:
  assumes inv: "buffer_inv n held" and j: "j \<in> held"
  shows "\<exists>n'. Tmk_sigio_buffer_release (req_from n j) n = Inr n' \<and> buffer_inv n' (held - {j}) \<and>
    req_from n' = req_from n \<and> sigio_buffer n' = sigio_buffer n"
proof -
  from inv j have tos: "0 < sigio_buffer_tos n" "sigio_buffer_tos n \<le> NPROCS" "sigio_buffer_tos n = card held" "finite held"
    by (auto simp: buffer_inv_def card_gt_0_iff)
  define n' where "n' = n\<lparr>sigio_buffer_tos := sigio_buffer_tos n - 1,
      sigio_buffer_stack := (sigio_buffer_stack n)(sigio_buffer_tos n - 1 := req_from n j)\<rparr>"
  have "free_buffers n' = req_from n j # map (sigio_buffer_stack n') [sigio_buffer_tos n..<NPROCS]"
    using free_buffers_top [of n'] tos(1,2) by (simp add: n'_def)
  moreover have "map (sigio_buffer_stack n') [sigio_buffer_tos n..<NPROCS] = free_buffers n"
    unfolding free_buffers_def by (rule map_cong) (use tos(1) in \<open>auto simp: n'_def\<close>)
  ultimately have top: "free_buffers n' = req_from n j # free_buffers n" by simp
  have img: "req_from n ` (held - {j}) = req_from n ` held - {req_from n j}"
    using inv j by (auto simp: buffer_inv_def inj_on_def)
  have "inj_on (req_from n) (held - {j})" using inv by (auto simp: buffer_inv_def inj_on_def)
  moreover have "req_from n j \<notin> set (free_buffers n)" "req_from n j \<in> req_from n ` held" using inv j by (auto simp: buffer_inv_def)
  ultimately have "buffer_inv n' (held - {j})"
    using inv tos j unfolding buffer_inv_def top
    by (auto simp: n'_def img)
  then show ?thesis using tos(1) by (auto simp: Tmk_sigio_buffer_release_def n'_def)
qed

section \<open>Runs\<close>

text \<open>The buffers in a run: \<open>h\<close> maps a process to its request that is held.\<close>

inductive buffers_run :: "'a snode_scheme \<Rightarrow> (nat \<rightharpoonup> req_arrival) \<Rightarrow> bool" where
  Init: "sigio_buffer_tos n = 0 \<Longrightarrow> buffers_run (Tmk_sigio_initialize n) Map.empty"
| Hold: "buffers_run n h \<Longrightarrow> h (rq_from req) = None \<Longrightarrow> rq_from req < nprocs n \<Longrightarrow> rq_from req \<noteq> proc_id n \<Longrightarrow>
    sigio_buffer_hold req n = Inr n' \<Longrightarrow> buffers_run n' (h(rq_from req \<mapsto> req))"
| Release: "buffers_run n h \<Longrightarrow> h j \<noteq> None \<Longrightarrow>
    Tmk_sigio_buffer_release (req_from n j) n = Inr n' \<Longrightarrow> buffers_run n' (h(j := None))"

lemma buffer_ops_frame:
  "sigio_buffer_hold req n = Inr n' \<Longrightarrow> nprocs n' = nprocs n \<and> proc_id n' = proc_id n"
  "Tmk_sigio_buffer_release b n = Inr n' \<Longrightarrow> nprocs n' = nprocs n \<and> proc_id n' = proc_id n"
  by (auto simp: sigio_buffer_hold_def Tmk_sigio_buffer_release_def Let_def split: if_splits)

lemma held_buffers_card:
  assumes "dom h \<subseteq> {..<np} - {me}" "me < np"
  shows "card (dom h) < (np :: nat)"
proof -
  have "card (dom h) \<le> card ({..<np} - {me})" using assms(1) by (intro card_mono) auto
  also have "\<dots> < np" using assms(2) by simp
  finally show ?thesis .
qed

lemma buffers_run_inv:
  assumes "buffers_run n h" "proc_id n < nprocs n" "nprocs n \<le> NPROCS"
  shows "buffer_inv n (dom h) \<and> dom h \<subseteq> {..<nprocs n} - {proc_id n} \<and>
    (\<forall>j req. h j = Some req \<longrightarrow> sigio_buffer n (req_from n j) = req)"
  using assms
proof (induction rule: buffers_run.induct)
  case (Init n)
  then show ?case using initialize_buffers by simp
next
  case (Hold n h req n')
  note fr = buffer_ops_frame(1) [OF Hold.hyps(5)]
  with Hold have ih: "buffer_inv n (dom h)" "dom h \<subseteq> {..<nprocs n} - {proc_id n}"
    "\<forall>j req. h j = Some req \<longrightarrow> sigio_buffer n (req_from n j) = req" by auto
  have "card (dom h) < NPROCS" using held_buffers_card [OF ih(2)] Hold.prems fr by simp
  with hold_inv [OF ih(1), of req] Hold.hyps(2,5) have
    "buffer_inv n' (insert (rq_from req) (dom h))" "sigio_buffer n' (req_from n' (rq_from req)) = req"
    "\<forall>j \<in> dom h. sigio_buffer n' (req_from n' j) = sigio_buffer n (req_from n j)" by auto
  moreover have "dom (h(rq_from req \<mapsto> req)) = insert (rq_from req) (dom h)" by simp
  moreover have "sigio_buffer n' (req_from n' j) = r" if "(h(rq_from req \<mapsto> req)) j = Some r" for j r
  proof (cases "j = rq_from req")
    case False
    with that have "h j = Some r" by simp
    with ih(3) calculation(3) show ?thesis by (metis domI)
  qed (use that calculation(2) in simp)
  moreover have "insert (rq_from req) (dom h) \<subseteq> {..<nprocs n'} - {proc_id n'}" using ih(2) fr Hold.hyps(3,4) by auto
  ultimately show ?case by (simp del: fun_upd_apply)
next
  case (Release n h j n')
  note fr = buffer_ops_frame(2) [OF Release.hyps(3)]
  with Release have ih: "buffer_inv n (dom h)" "dom h \<subseteq> {..<nprocs n} - {proc_id n}"
    "\<forall>j req. h j = Some req \<longrightarrow> sigio_buffer n (req_from n j) = req" by auto
  from release_inv [OF ih(1), of j] Release.hyps(2,3) have
    "buffer_inv n' (dom h - {j})" "req_from n' = req_from n" "sigio_buffer n' = sigio_buffer n" by auto
  moreover have "dom (h(j := None)) = dom h - {j}" by simp
  moreover have "sigio_buffer n' (req_from n' k) = r" if "(h(j := None)) k = Some r" for k r
    using that ih(3) calculation(2,3) by (auto split: if_splits)
  moreover have "dom h - {j} \<subseteq> {..<nprocs n'} - {proc_id n'}" using ih(2) fr by auto
  ultimately show ?case by (simp del: fun_upd_apply)
qed

text \<open>
  C30: The buffer a request is received into exists and is not one that still holds an unanswered
  request, whatever the order in which requests are held and answered: every held request is
  intact, no two share a buffer, and neither the stack nor the array of buffers is ever left.
\<close>

theorem buffers_safe:
  assumes "buffers_run n h" "proc_id n < nprocs n" "nprocs n \<le> NPROCS"
  shows "sigio_buffer_tos n < NPROCS \<and> sigio_buffer_stack n (sigio_buffer_tos n) < NPROCS \<and>
    (\<forall>j req. h j = Some req \<longrightarrow> sigio_buffer n (req_from n j) = req \<and> req_from n j < NPROCS \<and>
       req_from n j \<noteq> sigio_buffer_stack n (sigio_buffer_tos n) \<and>
       (\<forall>k. h k \<noteq> None \<and> k \<noteq> j \<longrightarrow> req_from n k \<noteq> req_from n j) \<and>
       (\<exists>n'. Tmk_sigio_buffer_release (req_from n j) n = Inr n')) \<and>
    (\<forall>req. \<exists>n'. sigio_buffer_hold req n = Inr n')"
proof -
  from buffers_run_inv [OF assms] have inv: "buffer_inv n (dom h)" and d: "dom h \<subseteq> {..<nprocs n} - {proc_id n}"
    and c: "\<And>j req. h j = Some req \<Longrightarrow> sigio_buffer n (req_from n j) = req" by auto
  have tos: "sigio_buffer_tos n < NPROCS"
    using held_buffers_card [OF d assms(2)] assms(3) inv by (simp add: buffer_inv_def)
  have top: "sigio_buffer_stack n (sigio_buffer_tos n) \<in> set (free_buffers n)"
    unfolding free_buffers_top [OF tos] by (rule list.set_intros)
  from inv have parts: "set (free_buffers n) \<inter> req_from n ` dom h = {}" "set (free_buffers n) \<union> req_from n ` dom h = {..<NPROCS}"
    and inj: "inj_on (req_from n) (dom h)" by (simp_all add: buffer_inv_def)
  have req: "req_from n j < NPROCS" "req_from n j \<noteq> sigio_buffer_stack n (sigio_buffer_tos n)"
    "\<exists>n'. Tmk_sigio_buffer_release (req_from n j) n = Inr n'" if "j \<in> dom h" for j
  proof -
    have img: "req_from n j \<in> req_from n ` dom h" using that by (rule imageI)
    then have "req_from n j \<in> {..<NPROCS}" unfolding parts(2) [symmetric] by (rule UnI2)
    then show "req_from n j < NPROCS" by simp
    show "req_from n j \<noteq> sigio_buffer_stack n (sigio_buffer_tos n)"
    proof
      assume "req_from n j = sigio_buffer_stack n (sigio_buffer_tos n)"
      with img top have "req_from n j \<in> set (free_buffers n) \<inter> req_from n ` dom h" by simp
      then show False unfolding parts(1) by simp
    qed
    from release_inv [OF inv that] show "\<exists>n'. Tmk_sigio_buffer_release (req_from n j) n = Inr n'" by (elim exE conjE) (rule exI)
  qed
  have held: "sigio_buffer n (req_from n j) = r \<and> req_from n j < NPROCS \<and>
       req_from n j \<noteq> sigio_buffer_stack n (sigio_buffer_tos n) \<and>
       (\<forall>k. h k \<noteq> None \<and> k \<noteq> j \<longrightarrow> req_from n k \<noteq> req_from n j) \<and>
       (\<exists>n'. Tmk_sigio_buffer_release (req_from n j) n = Inr n')" if "h j = Some r" for j r
  proof (intro conjI allI impI)
    fix k assume "h k \<noteq> None \<and> k \<noteq> j"
    then show "req_from n k \<noteq> req_from n j" using inj_onD [OF inj, of k j] domI [of h j r, OF that] by blast
  qed (use c [OF that] req [OF domI [of h j r, OF that]] in simp_all)
  have "sigio_buffer_stack n (sigio_buffer_tos n) \<in> {..<NPROCS}" unfolding parts(2) [symmetric] using top by (rule UnI1)
  then have "sigio_buffer_stack n (sigio_buffer_tos n) < NPROCS" by simp
  moreover have "\<exists>n'. sigio_buffer_hold r n = Inr n'" for r using tos by (simp add: sigio_buffer_hold_def Let_def)
  ultimately show ?thesis using tos held by simp
qed

definition buffer_demo :: snode where
  "buffer_demo = rnode.extend repo_demo_3
     (snode.fields (\<lambda>_. 0) (\<lambda>_. \<lparr>rq_seqno = 0, rq_from = 0, rq_id = 0, rq_vector_time = (\<lambda>_. 0), rq_repo = False, rq_data = []\<rparr>) (\<lambda>_. 0) 0)"

definition demo_arrival :: "nat \<Rightarrow> req_arrival" where
  "demo_arrival j = \<lparr>rq_seqno = 32, rq_from = j, rq_id = 0, rq_vector_time = (\<lambda>_. 0), rq_repo = False, rq_data = []\<rparr>"

theorem buffers_safe_witness:
  "\<exists>n'. sigio_buffer_hold (demo_arrival 2) (Tmk_sigio_initialize buffer_demo) = Inr n' \<and> sigio_buffer_tos n' = 1 \<and>
     sigio_buffer n' (req_from n' 2) = demo_arrival 2 \<and> sigio_buffer_stack n' 1 \<noteq> req_from n' 2"
proof -
  let ?n = "Tmk_sigio_initialize buffer_demo"
  have n: "sigio_buffer_tos buffer_demo = 0" "nprocs buffer_demo = 3" "proc_id buffer_demo = 0"
    by (simp_all add: buffer_demo_def repo_demo_3_def lnode.defs rnode.defs snode.defs)
  then have fr: "sigio_buffer_tos ?n = 0" "nprocs ?n = 3" "proc_id ?n = 0" by (simp_all add: Tmk_sigio_initialize_def)
  obtain n' where h: "sigio_buffer_hold (demo_arrival 2) ?n = Inr n'" "sigio_buffer_tos n' = 1"
    by (simp add: sigio_buffer_hold_def Let_def fr)
  have f: "rq_from (demo_arrival 2) = 2" by (simp add: demo_arrival_def)
  have "buffers_run n' (Map.empty(rq_from (demo_arrival 2) \<mapsto> demo_arrival 2))"
    by (rule buffers_run.Hold [OF buffers_run.Init [OF n(1)] _ _ _ h(1)]) (simp_all add: f fr)
  note safe = buffers_safe [OF this]
  have "(\<forall>j r. (Map.empty(2 \<mapsto> demo_arrival 2)) j = Some r \<longrightarrow> sigio_buffer n' (req_from n' j) = r \<and> req_from n' j \<noteq> sigio_buffer_stack n' 1)"
    using safe buffer_ops_frame(1) [OF h(1)] fr h(2) unfolding f by simp
  then have "sigio_buffer n' (req_from n' 2) = demo_arrival 2 \<and> req_from n' 2 \<noteq> sigio_buffer_stack n' 1" by simp
  with h show ?thesis by (intro exI [of _ n']) simp
qed

end
