(* ===== verification/Tmk_Gather.thy ===== *)
theory Tmk_Gather
  imports Tmk_Buffer
begin

text \<open>
  Gathering the consistency data of arriving processes, as the managers in \<^verbatim>\<open>barrier.c\<close> and \<^verbatim>\<open>sched.c\<close> do it:
  each request carries the sender's own new intervals, they are incorporated one request after the
  other, and the invalidations are performed once at the end.  The locale states what the two
  managers do with one request; its lemma says what they have gathered in the end.
\<close>

section \<open>Extensions of a process\<close>

text \<open>The invariant and the facts about incorporating intervals concern the fields of \<^typ>\<open>node\<close> only.\<close>

lemma truncate_fields:
  assumes "node.truncate m = node.truncate n"
  shows "proc_id m = proc_id n" "nprocs m = nprocs n" "npages m = npages n" "page_size m = page_size n"
    "mem m = mem n" "protection m = protection n" "page_array m = page_array n"
    "twin_free_list m = twin_free_list n" "twin_mem m = twin_mem n"
    "proc_array m = proc_array n" "proc_vector_time m = proc_vector_time n" "inverse_time m = inverse_time n"
  using assms by (simp_all add: node.truncate_def)

lemma node_inv_truncate:
  assumes "node.truncate m = node.truncate n"
  shows "node_inv m ds is free = node_inv n ds is free"
  using truncate_fields [OF assms] by (simp add: node_inv_def core_defs twin_inv_def)

section \<open>Requests with intervals\<close>

definition carries :: "req_arrival \<Rightarrow> interval list \<Rightarrow> bool" where
  "carries r ivs \<longleftrightarrow> rq_data r = concat (map (\<lambda>iv. encode_interval (iv_id iv) iv) ivs)"

text \<open>A request that process \<open>n\<close> can incorporate: new intervals of the sender.\<close>

definition acceptable :: "'a node_scheme \<Rightarrow> req_arrival \<Rightarrow> interval list \<Rightarrow> bool" where
  "acceptable n r ivs \<longleftrightarrow> carries r ivs \<and> receivable n ivs \<and> (\<forall>iv \<in> set ivs. iv_id iv = rq_from r)"

lemma acceptable_truncate:
  assumes "node.truncate m = node.truncate n"
  shows "acceptable m r ivs = acceptable n r ivs"
  unfolding acceptable_def receivable_def truncate_fields [OF assms] by (rule refl)

definition named_pages :: "interval list \<Rightarrow> nat set" where
  "named_pages ivs = (\<Union>iv \<in> set ivs. range_pages (iv_ranges iv))"

fun accept_all :: "('r \<Rightarrow> 'n \<Rightarrow> 'n tmk_result) \<Rightarrow> 'r list \<Rightarrow> 'n \<Rightarrow> 'n tmk_result" where
  "accept_all f [] n = Inr n"
| "accept_all f (r # rs) n = tmk_bind (f r n) (accept_all f rs)"

lemma incorporate_acceptable:
  assumes inv: "node_inv n [] is free" and r: "acceptable n r ivs"
  shows "\<exists>m is' free'. Tmk_interval_incorporate (rq_data r) Vt_null n = Some (Vt_null, m) \<and>
    node_inv m [] is' free' \<and> base_setup n m \<and> invalidated n is m is' (named_pages ivs) \<and>
    (\<forall>i. i \<noteq> proc_id n \<longrightarrow> proc_array m i = proc_array n i @ (if i = rq_from r then map norm_interval ivs else [])) \<and>
    (\<forall>i. i \<noteq> proc_id n \<and> i \<noteq> rq_from r \<longrightarrow> proc_vector_time m i = proc_vector_time n i)"
proof -
  from r have rec: "receivable n ivs" and ids: "\<And>iv. iv \<in> set ivs \<Longrightarrow> iv_id iv = rq_from r"
    and data: "rq_data r = concat (map (\<lambda>iv. encode_interval (iv_id iv) iv) ivs)"
    by (simp_all add: acceptable_def carries_def)
  have "received Vt_null n is (map norm_interval ivs) (receive_intervals ivs (Vt_null, n))"
    by (rule received_intervals [OF inv _ rec]) simp
  then obtain m is' free' where m: "receive_intervals ivs (Vt_null, n) = Some (Vt_null, m)" "node_inv m [] is' free'" "base_setup n m"
    "invalidated n is m is' (\<Union>iv \<in> set (map norm_interval ivs). range_pages (iv_ranges iv))"
    "\<And>i. i \<noteq> proc_id n \<Longrightarrow> proc_array m i = proc_array n i @ filter (\<lambda>iv. iv_id iv = i) (map norm_interval ivs)"
    "\<And>i. i \<noteq> proc_id n \<Longrightarrow> proc_vector_time m i = (case filter (\<lambda>iv. iv_id iv = i) (map norm_interval ivs) of
        [] \<Rightarrow> proc_vector_time n i | ws \<Rightarrow> iv_vector_time (last ws) i)"
    unfolding received_def by blast
  have fl: "filter (\<lambda>iv. iv_id iv = i) (map norm_interval ivs) = (if i = rq_from r then map norm_interval ivs else [])" for i
    using ids by (auto simp: filter_empty_conv filter_id_conv)
  have "incorporate_loop (rq_data r) (Vt_null, n) = receive_intervals ivs (Vt_null, n)"
    unfolding data by (rule incorporate_loop_message) (use rec in \<open>simp add: receivable_def\<close>)
  then have "Tmk_interval_incorporate (rq_data r) Vt_null n = Some (Vt_null, m)"
    using m(1) by (simp add: Tmk_interval_incorporate_def)
  moreover have "invalidated n is m is' (named_pages ivs)" using m(4) by (simp add: named_pages_def)
  ultimately show ?thesis using m(2,3,5,6) unfolding fl by auto
qed

lemma acceptable_later:
  assumes "acceptable n r ivs" "base_setup n m" "proc_vector_time m (rq_from r) = proc_vector_time n (rq_from r)"
  shows "acceptable m r ivs"
proof -
  have "proc_vector_time m (iv_id iv) = proc_vector_time n (iv_id iv)" if "iv \<in> set ivs" for iv
    using assms that by (simp add: acceptable_def)
  with assms(1,2) have "receivable m ivs" unfolding acceptable_def receivable_def base_setup_def by auto
  with assms(1) show ?thesis by (simp add: acceptable_def)
qed

section \<open>The managers\<close>

text \<open>
  \<open>accept\<close> handles a request, and \<open>ready rs\<close> says that the requests \<open>rs\<close> can be handled one after the other: the data is
  incorporated by a process with the same \<^typ>\<open>node\<close> fields, and nothing else happens to those.
\<close>

locale gathering =
  fixes accept :: "req_arrival \<Rightarrow> 'a node_scheme \<Rightarrow> 'a node_scheme tmk_result"
    and ready :: "req_arrival list \<Rightarrow> 'a node_scheme \<Rightarrow> bool"
  assumes accept_incorporates:
    "ready (r # rs) n \<Longrightarrow> \<exists>k :: 'a node_scheme. node.truncate k = node.truncate n \<and>
       (\<forall>arg m. Tmk_interval_incorporate (rq_data r) Vt_null k = Some (arg, m) \<longrightarrow>
          (\<exists>m'. accept r n = Inr m' \<and> node.truncate m' = node.truncate m \<and> ready rs m'))"
begin

lemma accept_one:
  assumes inv: "node_inv n [] is free" and acc: "acceptable n r ivs" and ready: "ready (r # rs) n"
  shows "\<exists>m is' free'. accept r n = Inr m \<and> ready rs m \<and> node_inv m [] is' free' \<and> base_setup n m \<and>
    invalidated n is m is' (named_pages ivs) \<and>
    (\<forall>i. i \<noteq> proc_id n \<longrightarrow> proc_array m i = proc_array n i @ (if i = rq_from r then map norm_interval ivs else [])) \<and>
    (\<forall>i. i \<noteq> proc_id n \<and> i \<noteq> rq_from r \<longrightarrow> proc_vector_time m i = proc_vector_time n i)"
proof -
  obtain k :: "'a node_scheme" where k: "node.truncate k = node.truncate n"
    "\<And>arg m. Tmk_interval_incorporate (rq_data r) Vt_null k = Some (arg, m) \<Longrightarrow>
       \<exists>m'. accept r n = Inr m' \<and> node.truncate m' = node.truncate m \<and> ready rs m'"
    using accept_incorporates [OF ready] by blast
  note kf = truncate_fields [OF k(1)]
  have "node_inv k [] is free" using inv node_inv_truncate [OF k(1)] by simp
  moreover have "acceptable k r ivs" using acc acceptable_truncate [OF k(1)] by simp
  ultimately obtain m is' free' where m: "Tmk_interval_incorporate (rq_data r) Vt_null k = Some (Vt_null, m)"
    and post: "node_inv m [] is' free' \<and> base_setup k m \<and> invalidated k is m is' (named_pages ivs) \<and>
    (\<forall>i. i \<noteq> proc_id k \<longrightarrow> proc_array m i = proc_array k i @ (if i = rq_from r then map norm_interval ivs else [])) \<and>
    (\<forall>i. i \<noteq> proc_id k \<and> i \<noteq> rq_from r \<longrightarrow> proc_vector_time m i = proc_vector_time k i)"
    by (metis incorporate_acceptable)
  obtain m' where m': "accept r n = Inr m'" "node.truncate m' = node.truncate m" "ready rs m'"
    using k(2) [OF m] by blast
  show ?thesis
    using post m'(1,3) node_inv_truncate [OF m'(2)] truncate_fields [OF m'(2)] kf
    by (intro exI [of _ m'] exI [of _ is'] exI [of _ free']) (simp add: base_setup_def invalidated_def)
qed

text \<open>What has been gathered from a list of requests of different processes.\<close>

lemma gather:
  assumes "node_inv n [] is free" "distinct (map rq_from rs)" "\<And>r. r \<in> set rs \<Longrightarrow> acceptable n r (ivs r)" "ready rs n"
    and "\<And>r. r \<in> set rs \<Longrightarrow> rq_from r \<noteq> proc_id n"
  shows "\<exists>m is' free'. accept_all accept rs n = Inr m \<and> ready [] m \<and> node_inv m [] is' free' \<and> base_setup n m \<and>
    invalidated n is m is' (\<Union>r \<in> set rs. named_pages (ivs r)) \<and>
    (\<forall>i. i \<noteq> proc_id n \<longrightarrow> proc_array m i = proc_array n i @ concat (map (\<lambda>r. if rq_from r = i then map norm_interval (ivs r) else []) rs)) \<and>
    (\<forall>i. i \<noteq> proc_id n \<and> i \<notin> rq_from ` set rs \<longrightarrow> proc_vector_time m i = proc_vector_time n i)"
  using assms
proof (induction rs arbitrary: n "is" free)
  case Nil
  then show ?case by (auto simp: base_setup_def)
next
  case (Cons r rs)
  have "acceptable n r (ivs r)" using Cons.prems(3) by simp
  from accept_one [OF Cons.prems(1) this Cons.prems(4)] obtain k is1 free1 where rk: "ready rs k"
    and k: "accept r n = Inr k" "node_inv k [] is1 free1" "base_setup n k"
    "invalidated n is k is1 (named_pages (ivs r))"
    "\<And>i. i \<noteq> proc_id n \<Longrightarrow> proc_array k i = proc_array n i @ (if i = rq_from r then map norm_interval (ivs r) else [])"
    "\<And>i. i \<noteq> proc_id n \<Longrightarrow> i \<noteq> rq_from r \<Longrightarrow> proc_vector_time k i = proc_vector_time n i"
    by blast
  have "acceptable k r' (ivs r')" if "r' \<in> set rs" for r'
  proof (rule acceptable_later [OF _ k(3)])
    have "rq_from r' \<noteq> rq_from r" using imageI [OF that, of rq_from] Cons.prems(2) by auto
    moreover have acc: "acceptable n r' (ivs r')" using that Cons.prems(3) by simp
    ultimately show "proc_vector_time k (rq_from r') = proc_vector_time n (rq_from r')"
      using k(6) [of "rq_from r'"] Cons.prems(5) that by simp
  qed (use that Cons.prems(3) in simp)
  moreover have "rq_from r' \<noteq> proc_id k" if "r' \<in> set rs" for r'
    using that Cons.prems(5) k(3) by (simp add: base_setup_def)
  moreover have "distinct (map rq_from rs)" using Cons.prems(2) by simp
  ultimately obtain m is2 free2 where rm: "ready [] m"
    and m: "accept_all accept rs k = Inr m" "node_inv m [] is2 free2" "base_setup k m" "invalidated k is1 m is2 (\<Union>r \<in> set rs. named_pages (ivs r))"
    "\<And>i. i \<noteq> proc_id k \<Longrightarrow> proc_array m i = proc_array k i @ concat (map (\<lambda>r. if rq_from r = i then map norm_interval (ivs r) else []) rs)"
    "\<And>i. i \<noteq> proc_id k \<Longrightarrow> i \<notin> rq_from ` set rs \<Longrightarrow> proc_vector_time m i = proc_vector_time k i"
    using Cons.IH [OF k(2) _ _ rk] by blast
  have "invalidated n is m is2 (\<Union>r \<in> set (r # rs). named_pages (ivs r))"
    using invalidated_trans [OF k(4) m(4)] by simp
  moreover have "base_setup n m" "proc_id k = proc_id n" using k(3) m(3) by (simp_all add: base_setup_def)
  ultimately show ?case
    using rm k(1,5,6) m(1,2,5,6) by (intro exI [of _ m] exI [of _ is2] exI [of _ free2]) simp
qed

end

end
