(* ===== verification/Tmk_Lock_Protocol.thy ===== *)
theory Tmk_Lock_Protocol
  imports Tmk_Lock "HOL-Library.Multiset"
begin

text \<open>
  The lock of \<^verbatim>\<open>Tmk/src/lock.c\<close> as a protocol between processes.  The control part of the
  operations on one lock is specified on four fields of \<^verbatim>\<open>struct lock\<close>, and the operations of the
  library are shown to implement it.  A network of processes that run these operations and
  exchange requests and grants, delivered once each in any order, then keeps a queue of
  processes: mutual exclusion, progress and order of service follow.
\<close>

section \<open>The control part of the operations\<close>

record lock_ctl =
  lc_manager :: nat
  lc_tail :: nat
  lc_held :: bool
  lc_next :: nat

definition ctl :: "lock \<Rightarrow> lock_ctl" where
  "ctl l = \<lparr>lc_manager = lk_manager l, lc_tail = lk_tail l, lc_held = lk_held l, lc_next = lk_next l\<rparr>"

datatype lock_msg = Req nat nat | Grant nat

fun lock_msg_of :: "lock_send \<Rightarrow> lock_msg list" where
  "lock_msg_of (Send_lock to req) = [Req to (rq_from req)]"
| "lock_msg_of (Send_grant to seqno data) = [Grant to]"
| "lock_msg_of _ = []"

abbreviation lock_msgs :: "lock_send list \<Rightarrow> lock_msg list" where
  "lock_msgs ms \<equiv> concat (map lock_msg_of ms)"

text \<open>\<open>None\<close> is a fatal error.\<close>

definition acquire_ctl :: "nat \<Rightarrow> lock_ctl \<Rightarrow> (lock_msg list \<times> lock_ctl) option" where
  "acquire_ctl me c =
     (if lc_held c then None
      else if lc_next c = me then Some ([], c\<lparr>lc_held := True\<rparr>)
      else if lc_manager c = me then Some ([Req (lc_tail c) me], c\<lparr>lc_held := True, lc_next := me, lc_tail := me\<rparr>)
      else Some ([Req (lc_manager c) me], c\<lparr>lc_held := True, lc_next := me\<rparr>))"

definition request_ctl :: "nat \<Rightarrow> nat \<Rightarrow> lock_ctl \<Rightarrow> (lock_msg list \<times> lock_ctl) option" where
  "request_ctl me from c =
     (if lc_next c = me
      then Some (if lc_held c then [] else [Grant from],
                 c\<lparr>lc_next := from, lc_tail := (if lc_manager c = me then from else lc_tail c)\<rparr>)
      else if lc_manager c = me then Some ([Req (lc_tail c) from], c\<lparr>lc_tail := from\<rparr>)
      else None)"

definition release_ctl :: "nat \<Rightarrow> lock_ctl \<Rightarrow> (lock_msg list \<times> lock_ctl) option" where
  "release_ctl me c =
     (if \<not> lc_held c then None
      else Some (if lc_next c \<noteq> me then [Grant (lc_next c)] else [], c\<lparr>lc_held := False\<rparr>))"

section \<open>The operations implement their control part\<close>

lemma acquire_refines:
  assumes "i < NLOCKS"
  shows "(case Tmk_lock_acquire i n of Inl e \<Rightarrow> None | Inr (ms, vt, n') \<Rightarrow> Some (lock_msgs ms, ctl (lock_array n' i))) =
    acquire_ctl (proc_id n) (ctl (lock_array n i))"
  using assms
  by (simp add: Tmk_lock_acquire_def acquire_ctl_def ctl_def Let_def upd_stat_def lock_request_def)

lemma grant_ctl:
  "ctl (lock_array (snd (grant i to sq vt m)) i) = ctl (lock_array m i)"
  "lock_msgs (fst (grant i to sq vt m)) = [Grant to]" "proc_id (snd (grant i to sq vt m)) = proc_id m"
  by (simp_all add: grant_def Let_def ctl_def)

lemma answer_ctl:
  assumes "answer_request req n = Inr (ms, n')"
  shows "ctl (lock_array n' (rq_id req)) = ctl (lock_array n (rq_id req)) \<and> proc_id n' = proc_id n \<and>
    lock_msgs ms = (if lk_held (lock_array n (rq_id req)) then [] else [Grant (rq_from req)])"
proof (cases "lk_held (lock_array n (rq_id req))")
  case True
  with assms show ?thesis by (auto simp: answer_request_def Let_def)
next
  case False
  with assms obtain m where m: "(if lk_time (lock_array n (rq_id req)) = ucast (proc_vector_time n (proc_id n)) then end_interval n else Inr n) = Inr m"
    "grant (rq_id req) (rq_from req) (rq_seqno req) (rq_vector_time req) m = (ms, n')"
    by (auto simp: answer_request_def Let_def tmk_bind_Inr_iff)
  have "same_locks n m" using m(1) by (auto dest!: end_interval_locks split: if_splits)
  with grant_ctl [of "rq_id req" "rq_from req" "rq_seqno req" "rq_vector_time req" m] m(2) False show ?thesis
    by (simp add: same_locksD)
qed

lemma link_ctl:
  "ctl (lock_array (link_request i from n) i) = (ctl (lock_array n i))
     \<lparr>lc_next := from, lc_tail := (if lk_manager (lock_array n i) = proc_id n then from else lk_tail (lock_array n i))\<rparr>"
  by (simp add: link_request_def Let_def ctl_def)

lemma request_refines:
  assumes "coherent n"
  shows "(case Tmk_lock_sigio_handler req n of Inl e \<Rightarrow> None | Inr (ms, n') \<Rightarrow> Some (lock_msgs ms, ctl (lock_array n' (rq_id req)))) =
    request_ctl (proc_id n) (rq_from req) (ctl (lock_array n (rq_id req)))"
proof (cases "lk_next (lock_array n (rq_id req)) = proc_id n")
  case True
  with lock_handler_coherent [OF assms, of req] obtain ms m where h: "answer_request req n = Inr (ms, m)"
    by (auto simp: Tmk_lock_sigio_handler_def Let_def tmk_bind_Inr_iff)
  have "Tmk_lock_sigio_handler req n = Inr (ms, link_request (rq_id req) (rq_from req) m)"
    using True h by (simp add: Tmk_lock_sigio_handler_def)
  moreover note answer_ctl [OF h]
  moreover from this have "lk_manager (lock_array m (rq_id req)) = lk_manager (lock_array n (rq_id req))"
    "lk_tail (lock_array m (rq_id req)) = lk_tail (lock_array n (rq_id req))" by (simp_all add: ctl_def)
  ultimately show ?thesis using True by (simp add: link_ctl request_ctl_def) (simp add: ctl_def)
next
  case False
  then show ?thesis by (auto simp: Tmk_lock_sigio_handler_def request_ctl_def ctl_def req_syn.defs Let_def)
qed

lemma release_refines:
  assumes "coherent n" "i < NLOCKS"
  shows "(case Tmk_lock_release i n of Inl e \<Rightarrow> None | Inr (ms, n') \<Rightarrow> Some (lock_msgs ms, ctl (lock_array n' i))) =
    release_ctl (proc_id n) (ctl (lock_array n i))"
proof -
  let ?n = "upd_lock i (lk_held_update (\<lambda>_. False)) n"
  obtain m where m: "end_interval ?n = Inr m" "same_locks ?n m" using end_interval_coherent [of ?n] assms(1) by auto
  note lk = same_locksD [OF m(2)]
  have "case_prod (\<lambda>ms n'. Some (lock_msgs ms, ctl (lock_array n' i))) (grant i to sq vt m) = Some ([Grant to], ctl (lock_array m i))" for to sq vt
    using grant_ctl [of i to sq vt m] by (simp add: split_beta)
  with m(1) lk assms(2) show ?thesis
    by (auto simp: Tmk_lock_release_def release_ctl_def Let_def ctl_def)
qed

section \<open>The network\<close>

text \<open>
  The state of one lock in a network: its control fields in every process, which processes are
  between a return from acquire and the call of release, and the messages in flight.
\<close>

record lnet =
  ln_ctl :: "nat \<Rightarrow> lock_ctl"
  ln_in :: "nat \<Rightarrow> bool"
  ln_msgs :: "lock_msg multiset"

text \<open>Deliveries and releases serve the requests made so far; an acquire makes a new one.\<close>

inductive serve_step :: "nat \<Rightarrow> lnet \<Rightarrow> lnet \<Rightarrow> bool" for np where
  Deliver_request: "Req t f \<in># ln_msgs s \<Longrightarrow> request_ctl t f (ln_ctl s t) = Some (ms, c) \<Longrightarrow>
    serve_step np s (s\<lparr>ln_ctl := (ln_ctl s)(t := c), ln_msgs := ln_msgs s - {#Req t f#} + mset ms\<rparr>)"
| Deliver_grant: "Grant t \<in># ln_msgs s \<Longrightarrow>
    serve_step np s (s\<lparr>ln_in := (ln_in s)(t := True), ln_msgs := ln_msgs s - {#Grant t#}\<rparr>)"
| Release: "p < np \<Longrightarrow> ln_in s p \<Longrightarrow> release_ctl p (ln_ctl s p) = Some (ms, c) \<Longrightarrow>
    serve_step np s (s\<lparr>ln_ctl := (ln_ctl s)(p := c), ln_in := (ln_in s)(p := False), ln_msgs := ln_msgs s + mset ms\<rparr>)"

inductive lnet_step :: "nat \<Rightarrow> lnet \<Rightarrow> lnet \<Rightarrow> bool" for np where
  Serve: "serve_step np s s' \<Longrightarrow> lnet_step np s s'"
| Acquire: "p < np \<Longrightarrow> acquire_ctl p (ln_ctl s p) = Some (ms, c) \<Longrightarrow>
    lnet_step np s (s\<lparr>ln_ctl := (ln_ctl s)(p := c), ln_in := (ln_in s)(p := (ms = [])), ln_msgs := ln_msgs s + mset ms\<rparr>)"

inductive_cases serve_stepE: "serve_step np s s'"

definition lnet_init :: "nat \<Rightarrow> lnet" where
  "lnet_init m = \<lparr>ln_ctl = (\<lambda>_. \<lparr>lc_manager = m, lc_tail = 0, lc_held = False, lc_next = 0\<rparr>),
     ln_in = (\<lambda>_. False), ln_msgs = {#}\<rparr>"

inductive lnet_reachable :: "nat \<Rightarrow> nat \<Rightarrow> lnet \<Rightarrow> bool" for np m where
  Init: "lnet_reachable np m (lnet_init m)"
| Step: "lnet_reachable np m s \<Longrightarrow> lnet_step np s s' \<Longrightarrow> lnet_reachable np m s'"

section \<open>The queue behind the protocol\<close>

text \<open>Neighbours in a list.\<close>

fun adj :: "'a list \<Rightarrow> 'a \<Rightarrow> 'a \<Rightarrow> bool" where
  "adj (x # y # zs) t f \<longleftrightarrow> t = x \<and> f = y \<or> adj (y # zs) t f"
| "adj _ t f \<longleftrightarrow> False"

lemma adj_Cons: "adj (x # q) t f \<longleftrightarrow> q \<noteq> [] \<and> t = x \<and> f = hd q \<or> adj q t f"
  by (cases q) auto

lemma adj_set: "adj q t f \<Longrightarrow> t \<in> set q \<and> f \<in> set (tl q)"
  by (induction q t f rule: adj.induct) auto

lemma adj_snoc: "adj (q @ [x]) t f \<longleftrightarrow> adj q t f \<or> q \<noteq> [] \<and> t = last q \<and> f = x"
  by (induction q t f rule: adj.induct) auto

lemma adj_not_last: "adj q t f \<Longrightarrow> distinct q \<Longrightarrow> t \<noteq> last q"
  by (induction q t f rule: adj.induct) (auto dest: adj_set)

lemma adj_fun: "adj q t f \<Longrightarrow> adj q t g \<Longrightarrow> distinct q \<Longrightarrow> f = g"
  by (induction q t f rule: adj.induct) (auto dest: adj_set)

lemma adj_ex: "t \<in> set q \<Longrightarrow> t \<noteq> last q \<Longrightarrow> \<exists>f. adj q t f"
  by (induction q) (auto simp: adj_Cons split: if_splits, metis adj_Cons)

lemma in_set_tl: "x \<in> set (tl q) \<Longrightarrow> x \<in> set q"
  by (cases q) auto

lemma adj_setD: "adj q t f \<Longrightarrow> t \<in> set q" "adj q t f \<Longrightarrow> f \<in> set q" "adj q t f \<Longrightarrow> f \<in> set (tl q)"
  using adj_set [of q t f] by (cases q; auto)+

lemma adj_neq: "adj q t f \<Longrightarrow> distinct q \<Longrightarrow> t \<noteq> f"
  by (induction q t f rule: adj.induct) (auto dest: adj_set)

text \<open>
  The messages in flight when the processes form the queue \<open>q\<close>: requests that are on the way
  from the manager to the process before the requester, requests on the way to the manager, and
  the grant for the first process, if it is in transit.
\<close>

definition queue_msgs :: "nat \<Rightarrow> nat \<Rightarrow> (nat \<Rightarrow> lock_ctl) \<Rightarrow> nat list \<Rightarrow> bool \<Rightarrow> lock_msg set" where
  "queue_msgs np m c q transit =
     {Req t f |t f. adj q t f \<and> lc_next (c t) = t} \<union>
     {Req m f |f. f < np \<and> f \<notin> set q \<and> lc_held (c f)} \<union>
     (if transit then {Grant (hd q)} else {})"

definition queue_inv :: "nat \<Rightarrow> nat \<Rightarrow> lnet \<Rightarrow> nat list \<Rightarrow> bool \<Rightarrow> bool" where
  "queue_inv np m s q transit \<longleftrightarrow>
     m < np \<and> q \<noteq> [] \<and> distinct q \<and> set q \<subseteq> {..<np} \<and> (\<forall>p. lc_manager (ln_ctl s p) = m) \<and>
     lc_tail (ln_ctl s m) = last q \<and> lc_next (ln_ctl s (last q)) = last q \<and>
     (\<forall>t f. adj q t f \<longrightarrow> lc_next (ln_ctl s t) = f \<or> lc_next (ln_ctl s t) = t \<and> t \<noteq> m) \<and>
     (\<forall>p \<in> set (tl q). lc_held (ln_ctl s p) \<and> \<not> ln_in s p) \<and>
     (if transit then lc_held (ln_ctl s (hd q)) \<and> \<not> ln_in s (hd q)
      else (ln_in s (hd q) \<longleftrightarrow> lc_held (ln_ctl s (hd q))) \<and>
           (lc_held (ln_ctl s (hd q)) \<or> lc_next (ln_ctl s (hd q)) = hd q)) \<and>
     (\<forall>p. p \<notin> set q \<longrightarrow> \<not> ln_in s p \<and> (if lc_held (ln_ctl s p) then p < np \<and> p \<noteq> m \<and> lc_next (ln_ctl s p) = p
                                             else lc_next (ln_ctl s p) \<noteq> p \<or> np \<le> p)) \<and>
     ln_msgs s = mset_set (queue_msgs np m (ln_ctl s) q transit)"

lemma finite_queue_msgs: "finite (queue_msgs np m c q transit)"
proof -
  have "{Req t f |t f. adj q t f \<and> lc_next (c t) = t} \<subseteq> (\<lambda>(t, f). Req t f) ` (set q \<times> set q)"
    by (auto dest: adj_setD)
  then have "finite {Req t f |t f. adj q t f \<and> lc_next (c t) = t}" by (rule finite_subset) simp
  moreover have "{Req m f |f. f < np \<and> f \<notin> set q \<and> lc_held (c f)} \<subseteq> Req m ` {..<np}" by auto
  then have "finite {Req m f |f. f < np \<and> f \<notin> set q \<and> lc_held (c f)}" by (rule finite_subset) simp
  ultimately show ?thesis by (simp add: queue_msgs_def)
qed

lemmas queue_defs = queue_inv_def queue_msgs_def

lemma queue_inv_init:
  assumes "m < np"
  shows "queue_inv np m (lnet_init m) [0] False"
proof -
  have "queue_msgs np m (ln_ctl (lnet_init m)) [0] False = {}" by (auto simp: queue_msgs_def lnet_init_def)
  with assms show ?thesis by (auto simp: queue_inv_def lnet_init_def)
qed

lemma queue_invD:
  assumes "queue_inv np m s q transit"
  shows "m < np" "q \<noteq> []" "distinct q" "set q \<subseteq> {..<np}" "lc_manager (ln_ctl s p) = m"
    "lc_tail (ln_ctl s m) = last q" "lc_next (ln_ctl s (last q)) = last q"
    "adj q t f \<Longrightarrow> lc_next (ln_ctl s t) = f \<or> lc_next (ln_ctl s t) = t \<and> t \<noteq> m"
    "p \<in> set (tl q) \<Longrightarrow> lc_held (ln_ctl s p) \<and> \<not> ln_in s p"
    "transit \<Longrightarrow> lc_held (ln_ctl s (hd q)) \<and> \<not> ln_in s (hd q)"
    "\<not> transit \<Longrightarrow> ln_in s (hd q) \<longleftrightarrow> lc_held (ln_ctl s (hd q))"
    "\<not> transit \<Longrightarrow> lc_held (ln_ctl s (hd q)) \<or> lc_next (ln_ctl s (hd q)) = hd q"
    "p \<notin> set q \<Longrightarrow> \<not> ln_in s p" "p \<notin> set q \<Longrightarrow> lc_held (ln_ctl s p) \<Longrightarrow> p < np \<and> p \<noteq> m \<and> lc_next (ln_ctl s p) = p"
    "p \<notin> set q \<Longrightarrow> \<not> lc_held (ln_ctl s p) \<Longrightarrow> lc_next (ln_ctl s p) \<noteq> p \<or> np \<le> p"
    "ln_msgs s = mset_set (queue_msgs np m (ln_ctl s) q transit)"
  using assms by (auto simp: queue_inv_def split: if_splits)

lemma queue_msgs_iff [simp]:
  "Req t f \<in> queue_msgs np m c q tr \<longleftrightarrow>
     adj q t f \<and> lc_next (c t) = t \<or> t = m \<and> f < np \<and> f \<notin> set q \<and> lc_held (c f)"
  "Grant t \<in> queue_msgs np m c q tr \<longleftrightarrow> tr \<and> t = hd q"
  by (auto simp: queue_msgs_def)

lemma queue_invI:
  assumes "m < np" "q \<noteq> []" "distinct q" "set q \<subseteq> {..<np}" "\<And>p. lc_manager (ln_ctl s p) = m"
    "lc_tail (ln_ctl s m) = last q" "lc_next (ln_ctl s (last q)) = last q"
    "\<And>t f. adj q t f \<Longrightarrow> lc_next (ln_ctl s t) = f \<or> lc_next (ln_ctl s t) = t \<and> t \<noteq> m"
    "\<And>p. p \<in> set (tl q) \<Longrightarrow> lc_held (ln_ctl s p) \<and> \<not> ln_in s p"
    "transit \<Longrightarrow> lc_held (ln_ctl s (hd q)) \<and> \<not> ln_in s (hd q)"
    "\<not> transit \<Longrightarrow> (ln_in s (hd q) \<longleftrightarrow> lc_held (ln_ctl s (hd q))) \<and> (lc_held (ln_ctl s (hd q)) \<or> lc_next (ln_ctl s (hd q)) = hd q)"
    "\<And>p. p \<notin> set q \<Longrightarrow> \<not> ln_in s p \<and> (lc_held (ln_ctl s p) \<longrightarrow> p < np \<and> p \<noteq> m \<and> lc_next (ln_ctl s p) = p) \<and>
       (\<not> lc_held (ln_ctl s p) \<longrightarrow> lc_next (ln_ctl s p) \<noteq> p \<or> np \<le> p)"
    and msgs: "ln_msgs s = mset_set M" "\<And>t f. Req t f \<in> M \<longleftrightarrow> Req t f \<in> queue_msgs np m (ln_ctl s) q transit"
      "\<And>t. Grant t \<in> M \<longleftrightarrow> Grant t \<in> queue_msgs np m (ln_ctl s) q transit"
  shows "queue_inv np m s q transit"
proof -
  have "x \<in> M \<longleftrightarrow> x \<in> queue_msgs np m (ln_ctl s) q transit" for x using msgs(2,3) by (cases x) simp_all
  then have "M = queue_msgs np m (ln_ctl s) q transit" by blast
  then show ?thesis unfolding queue_inv_def using assms(1-12) msgs(1) by simp
qed

text \<open>A process in the queue behind the first one is waiting; only the first one can be idle or inside.\<close>

lemma queue_first:
  assumes "queue_inv np m s q transit" "p \<in> set q" "\<not> lc_held (ln_ctl s p) \<or> ln_in s p"
  shows "p = hd q \<and> \<not> transit"
  using assms queue_invD [OF assms(1)] by (cases q) (auto split: if_splits)

lemma mset_insert: "x \<notin> queue_msgs np m c q tr \<Longrightarrow> mset_set (insert x (queue_msgs np m c q tr)) = mset_set (queue_msgs np m c q tr) + {#x#}"
  by (simp add: finite_queue_msgs)

lemma mset_remove: "mset_set (queue_msgs np m c q tr - {x}) = mset_set (queue_msgs np m c q tr) - {#x#}"
proof (cases "x \<in> queue_msgs np m c q tr")
  case True
  then show ?thesis by (simp add: finite_queue_msgs mset_set_Diff)
next
  case False
  then show ?thesis by (simp add: finite_queue_msgs)
qed

text \<open>Acquiring a lock again that nobody asked for since the last release.\<close>

lemma acquire_again:
  assumes inv: "queue_inv np m s q transit" and p: "p < np" "\<not> lc_held (ln_ctl s p)" "lc_next (ln_ctl s p) = p"
  shows "queue_inv np m (s\<lparr>ln_ctl := (ln_ctl s)(p := (ln_ctl s p)\<lparr>lc_held := True\<rparr>), ln_in := (ln_in s)(p := True)\<rparr>) q transit"
proof -
  note I = queue_invD [OF inv]
  have pq: "p \<in> set q" using I(15) [of p] p by auto
  have first: "p = hd q" "\<not> transit" using queue_first [OF inv pq] p(2) by auto
  have "queue_msgs np m ((ln_ctl s)(p := (ln_ctl s p)\<lparr>lc_held := True\<rparr>)) q transit = queue_msgs np m (ln_ctl s) q transit"
    using pq by (auto simp: queue_msgs_def)
  moreover have "p \<notin> set (tl q)" using I(2,3) first(1) by (cases q) auto
  ultimately show ?thesis using inv first pq unfolding queue_inv_def by (auto split: if_splits)
qed

text \<open>The manager asks: it appends itself to the queue.\<close>

lemma acquire_manager:
  assumes inv: "queue_inv np m s q transit" and p: "\<not> lc_held (ln_ctl s m)" "lc_next (ln_ctl s m) \<noteq> m"
  shows "queue_inv np m (s\<lparr>ln_ctl := (ln_ctl s)(m := (ln_ctl s m)\<lparr>lc_held := True, lc_next := m, lc_tail := m\<rparr>),
      ln_in := (ln_in s)(m := False), ln_msgs := ln_msgs s + {#Req (last q) m#}\<rparr>) (q @ [m]) transit"
proof -
  note I = queue_invD [OF inv]
  have mq: "m \<notin> set q"
  proof
    assume "m \<in> set q"
    with queue_first [OF inv this] p I(12) show False by auto
  qed
  have neq: "last q \<noteq> m" using mq I(2) by auto
  let ?c = "(ln_ctl s)(m := (ln_ctl s m)\<lparr>lc_held := True, lc_next := m, lc_tail := m\<rparr>)"
  have msgs: "queue_msgs np m ?c (q @ [m]) transit = insert (Req (last q) m) (queue_msgs np m (ln_ctl s) q transit)"
    using mq neq I(2,7) p(1) by (auto simp: queue_msgs_def adj_snoc dest: adj_setD)
  have "Req (last q) m \<notin> queue_msgs np m (ln_ctl s) q transit"
    using mq neq by (auto simp: queue_msgs_def dest: adj_setD)
  then have "ln_msgs s + {#Req (last q) m#} = mset_set (queue_msgs np m ?c (q @ [m]) transit)"
    by (simp add: msgs mset_insert I(16))
  moreover have "hd (q @ [m]) = hd q" "tl (q @ [m]) = tl q @ [m]" "hd q \<noteq> m" using I(2) mq by (cases q; simp)+
  ultimately show ?thesis
    using inv mq neq unfolding queue_inv_def
    by (auto simp: adj_snoc dest: adj_setD in_set_tl split: if_splits)
qed

text \<open>Another process asks: its request is on the way to the manager.\<close>

lemma acquire_other:
  assumes inv: "queue_inv np m s q transit" and p: "p < np" "\<not> lc_held (ln_ctl s p)" "lc_next (ln_ctl s p) \<noteq> p" "p \<noteq> m"
  shows "queue_inv np m (s\<lparr>ln_ctl := (ln_ctl s)(p := (ln_ctl s p)\<lparr>lc_held := True, lc_next := p\<rparr>),
      ln_in := (ln_in s)(p := False), ln_msgs := ln_msgs s + {#Req m p#}\<rparr>) q transit"
proof -
  note I = queue_invD [OF inv]
  have pq: "p \<notin> set q"
  proof
    assume "p \<in> set q"
    with queue_first [OF inv this] p I(12) show False by auto
  qed
  let ?c = "(ln_ctl s)(p := (ln_ctl s p)\<lparr>lc_held := True, lc_next := p\<rparr>)"
  have msgs: "queue_msgs np m ?c q transit = insert (Req m p) (queue_msgs np m (ln_ctl s) q transit)"
    using pq p by (auto simp: queue_msgs_def dest: adj_setD)
  have "Req m p \<notin> queue_msgs np m (ln_ctl s) q transit"
    using pq p by (auto simp: queue_msgs_def dest: adj_setD)
  then have "ln_msgs s + {#Req m p#} = mset_set (queue_msgs np m ?c q transit)"
    by (simp add: msgs mset_insert I(16))
  moreover have "p \<noteq> last q" "p \<noteq> hd q" "p \<notin> set (tl q)" using pq I(2) by (auto dest: in_set_tl)
  ultimately show ?thesis
    using inv pq p unfolding queue_inv_def by (auto dest: adj_setD split: if_splits)
qed

text \<open>
  A request on its way from the manager arrives at the process before the requester: that one
  remembers its successor, or, when it is the idle owner, grants the lock and leaves the queue.
\<close>

lemma deliver_link:
  assumes inv: "queue_inv np m s q transit" and a: "adj q t f" "lc_next (ln_ctl s t) = t" and held: "lc_held (ln_ctl s t)"
  shows "queue_inv np m (s\<lparr>ln_ctl := (ln_ctl s)(t := (ln_ctl s t)\<lparr>lc_next := f\<rparr>), ln_msgs := ln_msgs s - {#Req t f#}\<rparr>) q transit"
proof -
  note I = queue_invD [OF inv]
  have tf: "t \<noteq> f" "t \<noteq> last q" "t \<in> set q" "f \<in> set q" "t \<noteq> m"
    using adj_neq [OF a(1) I(3)] adj_not_last [OF a(1) I(3)] adj_setD [OF a(1)] I(8) [OF a(1)] a(2) by auto
  have u: "u = f" if "adj q t u" for u using adj_fun [OF that a(1) I(3)] .
  define c1 where "c1 = (ln_ctl s)(t := (ln_ctl s t)\<lparr>lc_next := f\<rparr>)"
  have c: "lc_held (c1 p) = lc_held (ln_ctl s p)" "lc_manager (c1 p) = m" "lc_tail (c1 m) = last q"
    "lc_next (c1 p) = (if p = t then f else lc_next (ln_ctl s p))" for p using I(5,6) by (auto simp: c1_def)
  have "queue_inv np m (s\<lparr>ln_ctl := c1, ln_msgs := ln_msgs s - {#Req t f#}\<rparr>) q transit"
  proof (rule queue_invI [where M = "queue_msgs np m (ln_ctl s) q transit - {Req t f}"], goal_cases)
    case (8 t' f')
    then show ?case using u I(8) [OF 8] by (auto simp: c)
  next
    case (11)
    then show ?case using I(11,12) held by (auto simp: c)
  next
    case (12 p)
    then show ?case using I(13-15) [of p] tf(3) by (auto simp: c)
  next
    case (14 t' f')
    show ?case using u tf by (auto simp: c)
  qed (use I tf in \<open>simp_all add: c mset_remove\<close>)
  then show ?thesis by (simp add: c1_def)
qed

lemma deliver_grant_next:
  assumes inv: "queue_inv np m s q transit" and a: "adj q t f" "lc_next (ln_ctl s t) = t" and idle: "\<not> lc_held (ln_ctl s t)"
  shows "q = t # tl q \<and> tl q \<noteq> [] \<and> f = hd (tl q) \<and> t \<noteq> m \<and>
    queue_inv np m (s\<lparr>ln_ctl := (ln_ctl s)(t := (ln_ctl s t)\<lparr>lc_next := f\<rparr>), ln_msgs := ln_msgs s - {#Req t f#} + {#Grant f#}\<rparr>) (tl q) True"
proof -
  note I = queue_invD [OF inv]
  have tq: "t \<in> set q" using adj_setD [OF a(1)] by simp
  have first: "t = hd q" "\<not> transit" using queue_first [OF inv tq] idle by auto
  obtain r where q: "q = t # f # r"
  proof -
    obtain q' where q': "q = t # q'" using first(1) I(2) by (cases q) auto
    with a(1) I(3) have "q' \<noteq> []" "f = hd q'" by (auto simp: adj_Cons dest: adj_setD)
    then show ?thesis using that [of "tl q'"] q' by simp
  qed
  have tf: "t \<noteq> f" "t \<notin> set r" "f \<notin> set r" "distinct r" using I(3) q by auto
  have tm: "t \<noteq> m" using I(8) [OF a(1)] a(2) tf(1) by auto
  define c1 where "c1 = (ln_ctl s)(t := (ln_ctl s t)\<lparr>lc_next := f\<rparr>)"
  have c: "lc_held (c1 p) = lc_held (ln_ctl s p)" "lc_manager (c1 p) = m" "lc_tail (c1 m) = last (f # r)"
    "lc_next (c1 p) = (if p = t then f else lc_next (ln_ctl s p))" for p using I(5,6) q by (auto simp: c1_def)
  have ne: "x \<noteq> t" if "adj (f # r) x y" for x y using adj_setD(1) [OF that] tf by auto
  have wait: "lc_held (ln_ctl s p) \<and> \<not> ln_in s p" if "p \<in> set (f # r)" for p using I(9) [of p] that q by auto
  have lt: "last (f # r) \<noteq> t" using last_in_set [of "f # r"] tf(1,2) by auto
  have old: "adj q x y \<longleftrightarrow> x = t \<and> y = f \<or> adj (f # r) x y" for x y by (simp add: q)
  have "queue_inv np m (s\<lparr>ln_ctl := c1, ln_msgs := ln_msgs s - {#Req t f#} + {#Grant f#}\<rparr>) (f # r) True"
  proof (rule queue_invI [where M = "insert (Grant f) (queue_msgs np m (ln_ctl s) q transit - {Req t f})"], goal_cases)
    case (8 t' f')
    then show ?case using ne [OF 8] I(8) [of t' f'] old by (auto simp: c)
  next
    case (12 p)
    have "p = t \<Longrightarrow> \<not> ln_in s p" using I(11) first idle by simp
    then show ?case using 12 I(13-15) [of p] tf(1) idle by (cases "p = t") (auto simp: c q)
  next
    case 13
    show ?case using first(2) by (simp add: mset_remove [symmetric] finite_queue_msgs I(16))
  next
    case (14 t' f')
    show ?case using ne [of t' f'] tf tm idle a(2) by (auto simp: c old q)
  next
    case (15 t')
    show ?case using first(2) by auto
  qed (use I tf wait lt in \<open>simp_all add: c q\<close>)
  then show ?thesis by (simp add: q tm c1_def)
qed

text \<open>A request arrives at the manager, which is the tail itself or forwards it to the tail.\<close>

lemma deliver_manager_link:
  assumes inv: "queue_inv np m s q transit" and f: "f < np" "f \<notin> set q" "lc_held (ln_ctl s f)"
    and tail: "lc_next (ln_ctl s m) = m" "lc_held (ln_ctl s m)"
  shows "queue_inv np m (s\<lparr>ln_ctl := (ln_ctl s)(m := (ln_ctl s m)\<lparr>lc_next := f, lc_tail := f\<rparr>), ln_msgs := ln_msgs s - {#Req m f#}\<rparr>) (q @ [f]) transit"
proof -
  note I = queue_invD [OF inv]
  have mf: "m \<noteq> f" "lc_next (ln_ctl s f) = f" using I(14) [OF f(2,3)] by auto
  have mq: "m \<in> set q" using I(14) [of m] tail by auto
  have ml: "last q = m"
  proof (rule ccontr)
    assume "last q \<noteq> m"
    then obtain g where "adj q m g" using adj_ex [OF mq] by auto
    with I(8) [OF this] tail(1) adj_neq [OF this I(3)] show False by auto
  qed
  have na: "\<not> adj q m g" for g using adj_not_last [of q m g] I(3) ml by auto
  define c1 where "c1 = (ln_ctl s)(m := (ln_ctl s m)\<lparr>lc_next := f, lc_tail := f\<rparr>)"
  have c: "lc_held (c1 p) = lc_held (ln_ctl s p)" "lc_manager (c1 p) = m" "lc_tail (c1 m) = f"
    "lc_next (c1 p) = (if p = m then f else lc_next (ln_ctl s p))" for p using I(5) by (auto simp: c1_def)
  have h: "hd (q @ [f]) = hd q" "set (tl (q @ [f])) = insert f (set (tl q))" using I(2) by (cases q; simp)+
  have "queue_inv np m (s\<lparr>ln_ctl := c1, ln_msgs := ln_msgs s - {#Req m f#}\<rparr>) (q @ [f]) transit"
  proof (rule queue_invI [where M = "queue_msgs np m (ln_ctl s) q transit - {Req m f}"], goal_cases)
    case (8 t' f')
    then show ?case using na [of f'] I(8) [of t' f'] ml by (auto simp: c adj_snoc)
  next
    case (9 p)
    then show ?case using I(9) [of p] I(13) [OF f(2)] f(3) by (auto simp: c h)
  next
    case 11
    then show ?case using I(11,12) tail by (auto simp: c h)
  next
    case (12 p)
    then show ?case using I(13-15) [of p] mq by (auto simp: c)
  next
    case (14 t' f')
    have "adj q t' f' \<Longrightarrow> t' \<noteq> m \<and> f' \<noteq> f" using na [of f'] adj_setD(2) [of q t' f'] f(2) by auto
    then show ?case using ml mf by (auto simp: c adj_snoc)
  qed (use I f mf in \<open>auto simp: c h mset_remove\<close>)
  then show ?thesis by (simp add: c1_def)
qed

lemma deliver_manager_grant:
  assumes inv: "queue_inv np m s q transit" and f: "f < np" "f \<notin> set q" "lc_held (ln_ctl s f)"
    and tail: "lc_next (ln_ctl s m) = m" "\<not> lc_held (ln_ctl s m)"
  shows "q = [m] \<and> queue_inv np m (s\<lparr>ln_ctl := (ln_ctl s)(m := (ln_ctl s m)\<lparr>lc_next := f, lc_tail := f\<rparr>),
      ln_msgs := ln_msgs s - {#Req m f#} + {#Grant f#}\<rparr>) [f] True"
proof -
  note I = queue_invD [OF inv]
  have mf: "m \<noteq> f" "lc_next (ln_ctl s f) = f" "\<not> ln_in s f" using I(14) [OF f(2,3)] I(13) [OF f(2)] by auto
  have mq: "m \<in> set q" using I(15) [of m] I(1) tail by auto
  have first: "m = hd q" "\<not> transit" using queue_first [OF inv mq] tail by auto
  have "tl q = []"
  proof (rule ccontr)
    assume "tl q \<noteq> []"
    then have "adj q m (hd (tl q))" using first(1) I(2) by (cases q) (auto simp: adj_Cons)
    with I(8) [OF this] tail(1) adj_neq [OF this I(3)] show False by auto
  qed
  then have q: "q = [m]" using first(1) I(2) by (cases q) auto
  define c1 where "c1 = (ln_ctl s)(m := (ln_ctl s m)\<lparr>lc_next := f, lc_tail := f\<rparr>)"
  have c: "lc_held (c1 p) = lc_held (ln_ctl s p)" "lc_manager (c1 p) = m" "lc_tail (c1 m) = f"
    "lc_next (c1 p) = (if p = m then f else lc_next (ln_ctl s p))" for p using I(5) by (auto simp: c1_def)
  have "queue_inv np m (s\<lparr>ln_ctl := c1, ln_msgs := ln_msgs s - {#Req m f#} + {#Grant f#}\<rparr>) [f] True"
  proof (rule queue_invI [where M = "insert (Grant f) (queue_msgs np m (ln_ctl s) q transit - {Req m f})"], goal_cases)
    case (12 p)
    have "p = m \<Longrightarrow> \<not> ln_in s p" using I(11) first tail by simp
    then show ?case using 12 I(13-15) [of p] mf(1) tail by (cases "p = m") (auto simp: c q)
  next
    case 13
    show ?case using first(2) by (simp add: mset_remove [symmetric] finite_queue_msgs I(16))
  next
    case (14 t' f')
    show ?case using mf(1) tail by (auto simp: c q)
  next
    case (15 t')
    show ?case using first(2) by auto
  qed (use I(1) f mf in \<open>simp_all add: c\<close>)
  with q show ?thesis by (simp add: c1_def)
qed

lemma deliver_forward:
  assumes inv: "queue_inv np m s q transit" and f: "f < np" "f \<notin> set q" "lc_held (ln_ctl s f)"
    and tail: "lc_next (ln_ctl s m) \<noteq> m"
  shows "queue_inv np m (s\<lparr>ln_ctl := (ln_ctl s)(m := (ln_ctl s m)\<lparr>lc_tail := f\<rparr>),
      ln_msgs := ln_msgs s - {#Req m f#} + {#Req (last q) f#}\<rparr>) (q @ [f]) transit"
proof -
  note I = queue_invD [OF inv]
  have mf: "m \<noteq> f" "lc_next (ln_ctl s f) = f" using I(14) [OF f(2,3)] by auto
  have ml: "last q \<noteq> m" using I(7) tail by auto
  let ?c = "(ln_ctl s)(m := (ln_ctl s m)\<lparr>lc_tail := f\<rparr>)"
  have "lc_next (?c p) = lc_next (ln_ctl s p)" "lc_held (?c p) = lc_held (ln_ctl s p)" for p by auto
  then have "queue_msgs np m ?c (q @ [f]) transit = insert (Req (last q) f) (queue_msgs np m (ln_ctl s) q transit - {Req m f})"
    using ml f(2) I(2,7) by (auto simp: queue_msgs_def adj_snoc dest: adj_setD)
  moreover have "Req (last q) f \<notin> queue_msgs np m (ln_ctl s) q transit" using ml f(2) by (auto simp: queue_msgs_def dest: adj_setD)
  ultimately have "ln_msgs s - {#Req m f#} + {#Req (last q) f#} = mset_set (queue_msgs np m ?c (q @ [f]) transit)"
    by (simp add: finite_queue_msgs mset_remove I(16))
  moreover have "hd (q @ [f]) = hd q" "tl (q @ [f]) = tl q @ [f]" using I(2) by (cases q; simp)+
  ultimately show ?thesis
    using inv mf ml f I(13) [OF f(2)] unfolding queue_inv_def
    by (auto simp: adj_snoc split: if_splits)
qed

text \<open>The grant arrives, and the lock is released.\<close>

lemma deliver_grant:
  assumes inv: "queue_inv np m s q transit" and t: "Grant t \<in># ln_msgs s"
  shows "t = hd q \<and> queue_inv np m (s\<lparr>ln_in := (ln_in s)(t := True), ln_msgs := ln_msgs s - {#Grant t#}\<rparr>) q False"
proof -
  note I = queue_invD [OF inv]
  have "Grant t \<in> queue_msgs np m (ln_ctl s) q transit" using t by (simp add: I(16) finite_queue_msgs)
  then have tr: "transit" "t = hd q" by (auto simp: queue_msgs_def split: if_splits)
  have "queue_msgs np m (ln_ctl s) q False = queue_msgs np m (ln_ctl s) q transit - {Grant t}"
    using tr by (auto simp: queue_msgs_def)
  then have "ln_msgs s - {#Grant t#} = mset_set (queue_msgs np m (ln_ctl s) q False)" by (simp add: mset_remove I(16))
  moreover have "hd q \<notin> set (tl q)" "hd q \<in> set q" using I(2,3) by (cases q; auto)+
  ultimately show ?thesis using inv tr unfolding queue_inv_def by auto
qed

lemma release_idle:
  assumes inv: "queue_inv np m s q transit" and p: "ln_in s p" "lc_next (ln_ctl s p) = p"
  shows "queue_inv np m (s\<lparr>ln_ctl := (ln_ctl s)(p := (ln_ctl s p)\<lparr>lc_held := False\<rparr>), ln_in := (ln_in s)(p := False)\<rparr>) q transit"
proof -
  note I = queue_invD [OF inv]
  have pq: "p \<in> set q" using I(13) [of p] p(1) by auto
  have first: "p = hd q" "\<not> transit" using queue_first [OF inv pq] p(1) by auto
  define c1 where "c1 = (ln_ctl s)(p := (ln_ctl s p)\<lparr>lc_held := False\<rparr>)"
  have c: "lc_held (c1 x) = (if x = p then False else lc_held (ln_ctl s x))" "lc_manager (c1 x) = m" "lc_tail (c1 m) = last q"
    "lc_next (c1 x) = lc_next (ln_ctl s x)" for x using I(5,6) by (auto simp: c1_def)
  have nt: "p \<notin> set (tl q)" using I(2,3) first(1) by (cases q) auto
  have "queue_inv np m (s\<lparr>ln_ctl := c1, ln_in := (ln_in s)(p := False)\<rparr>) q transit"
  proof (rule queue_invI [where M = "queue_msgs np m (ln_ctl s) q transit"], goal_cases)
    case (8 t' f')
    then show ?case using I(8) [OF 8] by (simp add: c)
  next
    case (9 x)
    then show ?case using I(9) [of x] nt by (auto simp: c)
  next
    case (12 x)
    then show ?case using I(13-15) [of x] pq by (auto simp: c)
  next
    case (14 t' f')
    show ?case using pq by (auto simp: c)
  qed (use I first p in \<open>simp_all add: c\<close>)
  then show ?thesis by (simp add: c1_def)
qed

lemma release_grant:
  assumes inv: "queue_inv np m s q transit" and p: "ln_in s p" "lc_next (ln_ctl s p) \<noteq> p"
  shows "q = p # tl q \<and> tl q \<noteq> [] \<and> lc_next (ln_ctl s p) = hd (tl q) \<and>
    queue_inv np m (s\<lparr>ln_ctl := (ln_ctl s)(p := (ln_ctl s p)\<lparr>lc_held := False\<rparr>), ln_in := (ln_in s)(p := False),
      ln_msgs := ln_msgs s + {#Grant (lc_next (ln_ctl s p))#}\<rparr>) (tl q) True"
proof -
  note I = queue_invD [OF inv]
  have pq: "p \<in> set q" using I(13) [of p] p(1) by auto
  have first: "p = hd q" "\<not> transit" using queue_first [OF inv pq] p(1) by auto
  then have "last q \<noteq> p" using I(7) p(2) by auto
  then obtain f r where q: "q = p # f # r" using first(1) I(2) by (cases q; cases "tl q") (auto split: if_splits)
  have nf: "lc_next (ln_ctl s p) = f" using I(8) [of p f] p(2) q by auto
  have d: "p \<noteq> f" "p \<notin> set r" "f \<notin> set r" "distinct r" using I(3) q by auto
  define c1 where "c1 = (ln_ctl s)(p := (ln_ctl s p)\<lparr>lc_held := False\<rparr>)"
  have c: "lc_held (c1 x) = (if x = p then False else lc_held (ln_ctl s x))" "lc_manager (c1 x) = m" "lc_tail (c1 m) = last (f # r)"
    "lc_next (c1 x) = lc_next (ln_ctl s x)" for x using I(5,6) q by (auto simp: c1_def)
  have ne: "x \<noteq> p" if "adj (f # r) x y" for x y using adj_setD(1) [OF that] d by auto
  have wait: "lc_held (ln_ctl s x) \<and> \<not> ln_in s x \<and> x \<noteq> p" if "x \<in> set (f # r)" for x using I(9) [of x] that q d by auto
  have old: "adj q x y \<longleftrightarrow> x = p \<and> y = f \<or> adj (f # r) x y" for x y by (simp add: q)
  have "queue_inv np m (s\<lparr>ln_ctl := c1, ln_in := (ln_in s)(p := False), ln_msgs := ln_msgs s + {#Grant f#}\<rparr>) (f # r) True"
  proof (rule queue_invI [where M = "insert (Grant f) (queue_msgs np m (ln_ctl s) q transit)"], goal_cases)
    case (8 t' f')
    then show ?case using I(8) [of t' f'] old by (simp add: c)
  next
    case (12 x)
    then show ?case using I(13-15) [of x] nf d(1) by (cases "x = p") (auto simp: c q)
  next
    case 13
    show ?case using first(2) by (simp add: finite_queue_msgs I(16))
  next
    case (14 t' f')
    show ?case using p(2) nf by (auto simp: c old q)
  next
    case (15 t')
    show ?case using first(2) by auto
  qed (use I d wait in \<open>simp_all add: c q\<close>)
  then show ?thesis by (simp add: q nf c1_def)
qed

section \<open>The protocol implements a queue\<close>

text \<open>
  The abstract lock: a list of processes, the first of which owns the lock and may be inside
  the critical section.  Processes join at the end, and the owner leaves at the front when
  somebody is behind it.
\<close>

inductive queue_step :: "nat list \<times> bool \<Rightarrow> nat list \<times> bool \<Rightarrow> bool" where
  Stutter: "queue_step a a"
| Join: "f \<notin> set q \<Longrightarrow> queue_step (q, b) (q @ [f], b)"
| Enter: "queue_step (q, False) (q, True)"
| Leave: "queue_step (q, True) (q, False)"
| Pass: "q \<noteq> [] \<Longrightarrow> queue_step (p # q, b) (q, False)"
| Join_pass: "f \<noteq> p \<Longrightarrow> queue_step ([p], False) ([f], False)"

definition lock_abs :: "nat \<Rightarrow> nat \<Rightarrow> lnet \<Rightarrow> nat list \<times> bool \<Rightarrow> bool" where
  "lock_abs np m s a \<longleftrightarrow> (\<exists>transit. queue_inv np m s (fst a) transit) \<and> snd a = ln_in s (hd (fst a))"

lemma lock_absI: "queue_inv np m s q transit \<Longrightarrow> ln_in s (hd q) = b \<Longrightarrow> lock_abs np m s (q, b)"
  by (auto simp: lock_abs_def)

lemma request_in_flight:
  assumes "queue_inv np m s q transit" "Req t f \<in># ln_msgs s"
  shows "adj q t f \<and> lc_next (ln_ctl s t) = t \<or> t = m \<and> f < np \<and> f \<notin> set q \<and> lc_held (ln_ctl s f)"
  using assms(2) by (simp add: queue_invD(16) [OF assms(1)] finite_queue_msgs)

lemma deliver_request_abs:
  assumes inv: "queue_inv np m s q transit" and msg: "Req t f \<in># ln_msgs s"
    and r: "request_ctl t f (ln_ctl s t) = Some (ms, c)"
  defines "s' \<equiv> s\<lparr>ln_ctl := (ln_ctl s)(t := c), ln_msgs := ln_msgs s - {#Req t f#} + mset ms\<rparr>"
  shows "\<exists>a'. lock_abs np m s' a' \<and> queue_step (q, ln_in s (hd q)) a'"
proof -
  note I = queue_invD [OF inv]
  have h: "hd (q @ [f]) = hd q" using I(2) by simp
  from request_in_flight [OF inv msg] consider
      (link) "adj q t f" "lc_next (ln_ctl s t) = t" "lc_held (ln_ctl s t)"
    | (pass) "adj q t f" "lc_next (ln_ctl s t) = t" "\<not> lc_held (ln_ctl s t)"
    | (mlink) "t = m" "f < np" "f \<notin> set q" "lc_held (ln_ctl s f)" "lc_next (ln_ctl s m) = m" "lc_held (ln_ctl s m)"
    | (mpass) "t = m" "f < np" "f \<notin> set q" "lc_held (ln_ctl s f)" "lc_next (ln_ctl s m) = m" "\<not> lc_held (ln_ctl s m)"
    | (forward) "t = m" "f < np" "f \<notin> set q" "lc_held (ln_ctl s f)" "lc_next (ln_ctl s m) \<noteq> m" by blast
  then show ?thesis
  proof cases
    case link
    have "t \<noteq> m" using I(8) [OF link(1)] link(2) adj_neq [OF link(1) I(3)] by auto
    with r link I(5) [of t] have "ms = []" "c = (ln_ctl s t)\<lparr>lc_next := f\<rparr>" by (auto simp: request_ctl_def)
    with deliver_link [OF inv link] show ?thesis
      by (intro exI [of _ "(q, ln_in s (hd q))"]) (auto simp: s'_def lock_abs_def intro: queue_step.Stutter)
  next
    case pass
    note d = deliver_grant_next [OF inv pass]
    then have "t \<noteq> m" by simp
    with r pass I(5) [of t] have mc: "ms = [Grant f]" "c = (ln_ctl s t)\<lparr>lc_next := f\<rparr>" by (auto simp: request_ctl_def)
    have inv': "queue_inv np m s' (tl q) True"
      unfolding s'_def mc using d [THEN conjunct2, THEN conjunct2, THEN conjunct2, THEN conjunct2] by simp
    have "queue_step (t # tl q, ln_in s (hd q)) (tl q, False)" using d by (intro queue_step.Pass) simp
    with d have "queue_step (q, ln_in s (hd q)) (tl q, False)" by metis
    moreover have "lock_abs np m s' (tl q, False)" by (rule lock_absI [OF inv']) (use queue_invD(10) [OF inv'] in simp)
    ultimately show ?thesis by blast
  next
    case mlink
    with r I(5) [of m] have "ms = []" "c = (ln_ctl s m)\<lparr>lc_next := f, lc_tail := f\<rparr>" by (auto simp: request_ctl_def)
    with deliver_manager_link [OF inv mlink(2-6)] mlink(1) h queue_step.Join [OF mlink(3)] show ?thesis
      by (intro exI [of _ "(q @ [f], ln_in s (hd q))"]) (auto simp: s'_def lock_abs_def)
  next
    case mpass
    note d = deliver_manager_grant [OF inv mpass(2-6)]
    with r mpass I(5) [of m] have "ms = [Grant f]" "c = (ln_ctl s m)\<lparr>lc_next := f, lc_tail := f\<rparr>" by (auto simp: request_ctl_def)
    with d mpass(1) have inv': "queue_inv np m s' [f] True" by (simp add: s'_def)
    have "\<not> ln_in s m" using I(11) I(10) mpass(6) d by auto
    moreover have "f \<noteq> m" using d mpass(3) by auto
    ultimately have "queue_step (q, ln_in s (hd q)) ([f], False)" using d queue_step.Join_pass [of f m] by auto
    moreover have "lock_abs np m s' ([f], False)" by (rule lock_absI [OF inv']) (use queue_invD(10) [OF inv'] in simp)
    ultimately show ?thesis by blast
  next
    case forward
    with r I(5) [of m] I(6) have "ms = [Req (last q) f]" "c = (ln_ctl s m)\<lparr>lc_tail := f\<rparr>" by (auto simp: request_ctl_def)
    with deliver_forward [OF inv forward(2-5)] forward(1) h queue_step.Join [OF forward(3)] show ?thesis
      by (intro exI [of _ "(q @ [f], ln_in s (hd q))"]) (auto simp: s'_def lock_abs_def)
  qed
qed

lemma release_abs:
  assumes inv: "queue_inv np m s q transit" and p: "ln_in s p" and r: "release_ctl p (ln_ctl s p) = Some (ms, c)"
  defines "s' \<equiv> s\<lparr>ln_ctl := (ln_ctl s)(p := c), ln_in := (ln_in s)(p := False), ln_msgs := ln_msgs s + mset ms\<rparr>"
  shows "\<exists>a'. lock_abs np m s' a' \<and> queue_step (q, ln_in s (hd q)) a'"
proof -
  note I = queue_invD [OF inv]
  have pq: "p = hd q" using queue_first [OF inv, of p] I(13) [of p] p by auto
  show ?thesis
  proof (cases "lc_next (ln_ctl s p) = p")
    case True
    with r have "ms = []" "c = (ln_ctl s p)\<lparr>lc_held := False\<rparr>" by (auto simp: release_ctl_def split: if_splits)
    with release_idle [OF inv p True] have "queue_inv np m s' q transit" by (simp add: s'_def)
    then have "lock_abs np m s' (q, False)" by (rule lock_absI) (simp add: s'_def pq)
    with p pq queue_step.Leave show ?thesis by auto
  next
    case False
    note d = release_grant [OF inv p False]
    from r False have mc: "ms = [Grant (lc_next (ln_ctl s p))]" "c = (ln_ctl s p)\<lparr>lc_held := False\<rparr>" by (auto simp: release_ctl_def split: if_splits)
    have inv': "queue_inv np m s' (tl q) True"
      unfolding s'_def mc using d [THEN conjunct2, THEN conjunct2, THEN conjunct2] by simp
    have "queue_step (p # tl q, ln_in s (hd q)) (tl q, False)" using d by (intro queue_step.Pass) simp
    with d have "queue_step (q, ln_in s (hd q)) (tl q, False)" by metis
    moreover have "lock_abs np m s' (tl q, False)" by (rule lock_absI [OF inv']) (use queue_invD(10) [OF inv'] in simp)
    ultimately show ?thesis by blast
  qed
qed

lemma serve_step_abs:
  assumes "serve_step np s s'" "queue_inv np m s q transit"
  shows "\<exists>a'. lock_abs np m s' a' \<and> queue_step (q, ln_in s (hd q)) a'"
  using assms(1)
proof cases
  case (Deliver_request t f ms c)
  with deliver_request_abs [OF assms(2)] show ?thesis by blast
next
  case (Deliver_grant t)
  with deliver_grant [OF assms(2)] have inv': "t = hd q" "queue_inv np m s' q False" by auto
  then have "lock_abs np m s' (q, True)" using Deliver_grant(1) by (intro lock_absI) auto
  moreover have "queue_step (q, ln_in s (hd q)) (q, True)"
    by (cases "ln_in s (hd q)") (auto intro: queue_step.intros)
  ultimately show ?thesis by blast
next
  case (Release p ms c)
  with release_abs [OF assms(2)] show ?thesis by blast
qed

lemma acquire_abs:
  assumes inv: "queue_inv np m s q transit" and p: "p < np" and r: "acquire_ctl p (ln_ctl s p) = Some (ms, c)"
  defines "s' \<equiv> s\<lparr>ln_ctl := (ln_ctl s)(p := c), ln_in := (ln_in s)(p := (ms = [])), ln_msgs := ln_msgs s + mset ms\<rparr>"
  shows "\<exists>a'. lock_abs np m s' a' \<and> queue_step (q, ln_in s (hd q)) a'"
proof -
  note I = queue_invD [OF inv]
  have nh: "\<not> lc_held (ln_ctl s p)" using r by (auto simp: acquire_ctl_def split: if_splits)
  have mgr: "lc_manager (ln_ctl s p) = m" using I(5) .
  show ?thesis
  proof (cases "lc_next (ln_ctl s p) = p")
    case True
    have pq: "p \<in> set q" using I(15) [of p] nh True p by auto
    have first: "p = hd q" "\<not> transit" using queue_first [OF inv pq] nh by auto
    from r nh True have "ms = []" "c = (ln_ctl s p)\<lparr>lc_held := True\<rparr>" by (auto simp: acquire_ctl_def)
    with acquire_again [OF inv p nh True] have "lock_abs np m s' (q, True)" by (intro lock_absI) (simp_all add: s'_def first)
    moreover have "\<not> ln_in s (hd q)" using I(11) first nh by simp
    ultimately show ?thesis using queue_step.Enter by auto
  next
    case False
    have pq: "p \<notin> set q" using queue_first [OF inv, of p] nh False I(12) by auto
    then have neq: "hd q \<noteq> p" using I(2) by auto
    show ?thesis
    proof (cases "p = m")
      case True
      with r nh False mgr I(6) have "ms = [Req (last q) m]" "c = (ln_ctl s m)\<lparr>lc_held := True, lc_next := m, lc_tail := m\<rparr>"
        by (auto simp: acquire_ctl_def)
      with acquire_manager [OF inv] nh False True have "queue_inv np m s' (q @ [m]) transit" by (simp add: s'_def)
      then have "lock_abs np m s' (q @ [m], ln_in s (hd q))" using I(2) neq True by (intro lock_absI) (auto simp: s'_def)
      with queue_step.Join [of m q] pq True show ?thesis by blast
    next
      case other: False
      with r nh False mgr have "ms = [Req m p]" "c = (ln_ctl s p)\<lparr>lc_held := True, lc_next := p\<rparr>"
        by (auto simp: acquire_ctl_def)
      with acquire_other [OF inv p nh False other] have "queue_inv np m s' q transit" by (simp add: s'_def)
      then have "lock_abs np m s' (q, ln_in s (hd q))" using neq by (intro lock_absI) (auto simp: s'_def)
      with queue_step.Stutter show ?thesis by blast
    qed
  qed
qed

lemma lnet_step_abs:
  assumes "lnet_step np s s'" "lock_abs np m s a"
  shows "\<exists>a'. lock_abs np m s' a' \<and> queue_step a a'"
proof -
  from assms(2) obtain transit where inv: "queue_inv np m s (fst a) transit" and b: "snd a = ln_in s (hd (fst a))"
    by (auto simp: lock_abs_def)
  have a: "a = (fst a, ln_in s (hd (fst a)))" using b by (cases a) simp
  from assms(1) have "\<exists>a'. lock_abs np m s' a' \<and> queue_step (fst a, ln_in s (hd (fst a))) a'"
  proof cases
    case Serve
    from serve_step_abs [OF this inv] show ?thesis .
  next
    case (Acquire p ms c)
    with acquire_abs [OF inv] show ?thesis by blast
  qed
  with a show ?thesis by metis
qed

lemma lnet_reachable_abs:
  assumes "lnet_reachable np m s" "m < np"
  shows "\<exists>a. lock_abs np m s a"
  using assms(1)
proof (induction rule: lnet_reachable.induct)
  case Init
  show ?case using queue_inv_init [OF assms(2)] by (auto simp: lock_abs_def)
next
  case (Step s s')
  then show ?case using lnet_step_abs by blast
qed

section \<open>Everybody is served\<close>

text \<open>
  Deliveries and releases cannot go on for ever: what remains to be done for the requests of a
  state is bounded by a number that each of these steps decreases.
\<close>

fun msg_weight :: "nat \<Rightarrow> lock_msg \<Rightarrow> nat" where
  "msg_weight m (Req t f) = (if t = m then 3 else 2)"
| "msg_weight m (Grant t) = 1"

definition remaining :: "nat \<Rightarrow> nat \<Rightarrow> lnet \<Rightarrow> nat" where
  "remaining np m s = 2 * card {p. p < np \<and> lc_held (ln_ctl s p)} + \<Sum>\<^sub># (image_mset (msg_weight m) (ln_msgs s))"

lemma weight_remove:
  "x \<in># M \<Longrightarrow> \<Sum>\<^sub># (image_mset w M) = w x + \<Sum>\<^sub># (image_mset w (M - {#x#}))"
  by (metis image_mset_add_mset insert_DiffM sum_mset.insert)

lemma held_card:
  assumes "p < np" "lc_held (ln_ctl s p)"
  shows "card {x. x < np \<and> lc_held (((ln_ctl s)(p := (ln_ctl s p)\<lparr>lc_held := False\<rparr>)) x)} + 1 =
    card {x. x < np \<and> lc_held (ln_ctl s x)}"
proof -
  have "{x. x < np \<and> lc_held (((ln_ctl s)(p := (ln_ctl s p)\<lparr>lc_held := False\<rparr>)) x)} = {x. x < np \<and> lc_held (ln_ctl s x)} - {p}"
    by auto
  moreover have "finite {x. x < np \<and> lc_held (ln_ctl s x)}" by simp
  ultimately show ?thesis using assms by (metis (mono_tags, lifting) Suc_eq_plus1 card.remove mem_Collect_eq)
qed

lemma request_ctl_held: "request_ctl t f c = Some (ms, c') \<Longrightarrow> lc_held c' = lc_held c"
  by (auto simp: request_ctl_def split: if_splits)

lemma serve_step_decreases:
  assumes "serve_step np s s'" "queue_inv np m s q transit"
  shows "remaining np m s' < remaining np m s"
  using assms(1)
proof cases
  case (Deliver_request t f ms c)
  note I = queue_invD [OF assms(2)]
  have "lc_held (((ln_ctl s)(t := c)) p) = lc_held (ln_ctl s p)" for p
    using request_ctl_held [OF Deliver_request(3)] by simp
  moreover have "\<Sum>\<^sub># (image_mset (msg_weight m) (mset ms)) < msg_weight m (Req t f)"
  proof (cases "lc_next (ln_ctl s t) = t")
    case True
    with Deliver_request(3) show ?thesis by (auto simp: request_ctl_def split: if_splits)
  next
    case False
    with Deliver_request(3) I(5) [of t] have t: "t = m" "ms = [Req (lc_tail (ln_ctl s m)) f]"
      by (auto simp: request_ctl_def split: if_splits)
    moreover have "last q \<noteq> m" using I(7) False t(1) by auto
    ultimately show ?thesis by (simp add: I(6))
  qed
  ultimately show ?thesis using weight_remove [OF Deliver_request(2), of "msg_weight m"]
    by (simp add: remaining_def Deliver_request(1))
next
  case (Deliver_grant t)
  then show ?thesis using weight_remove [OF Deliver_grant(2), of "msg_weight m"] by (simp add: remaining_def)
next
  case (Release p ms c)
  from Release(4) have c: "c = (ln_ctl s p)\<lparr>lc_held := False\<rparr>" "lc_held (ln_ctl s p)"
    "\<Sum>\<^sub># (image_mset (msg_weight m) (mset ms)) \<le> 1" by (auto simp: release_ctl_def split: if_splits)
  from held_card [of p np s] c(2,3) Release(2) show ?thesis by (simp add: remaining_def Release(1) c(1))
qed

lemma queue_inv_serve:
  assumes "serve_step np s s'" "queue_inv np m s q transit"
  shows "\<exists>q' transit'. queue_inv np m s' q' transit'"
  using serve_step_abs [OF assms] by (auto simp: lock_abs_def)

text \<open>A state in which nothing is left to serve.\<close>

lemma stuck_idle:
  assumes inv: "queue_inv np m s q transit" and stuck: "\<And>s'. \<not> serve_step np s s'"
  shows "ln_msgs s = {#} \<and> \<not> ln_in s p \<and> \<not> lc_held (ln_ctl s p)"
proof -
  note I = queue_invD [OF inv]
  have none: "ln_msgs s = {#}"
  proof (rule ccontr)
    assume "ln_msgs s \<noteq> {#}"
    then obtain x where x: "x \<in># ln_msgs s" by blast
    show False
    proof (cases x)
      case (Req t f)
      have "request_ctl t f (ln_ctl s t) \<noteq> None"
        using request_in_flight [OF inv, of t f] x Req I(5) [of t] by (auto simp: request_ctl_def)
      then show False using stuck serve_step.Deliver_request [of t f s] x Req by auto
    next
      case (Grant t)
      then show False using stuck serve_step.Deliver_grant [of t s] x by auto
    qed
  qed
  then have empty: "queue_msgs np m (ln_ctl s) q transit = {}" using I(16) finite_queue_msgs by (metis mset_set_empty_iff)
  then have tr: "\<not> transit" using queue_msgs_iff(2) [of "hd q"] by blast
  have no_in: "\<not> ln_in s x" for x
  proof
    assume x: "ln_in s x"
    then have xq: "x \<in> set q" using I(13) by blast
    then have "x < np" "lc_held (ln_ctl s x)" using queue_first [OF inv xq] x I(4,11) by auto
    then show False using stuck serve_step.Release [of x np s] x by (auto simp: release_ctl_def)
  qed
  have "tl q = []"
  proof (rule ccontr)
    assume "tl q \<noteq> []"
    then have a: "adj q (hd q) (hd (tl q))" using I(2) by (cases q) (auto simp: adj_Cons)
    have "lc_next (ln_ctl s (hd q)) \<noteq> hd q" using empty a queue_msgs_iff(1) by blast
    then show False using I(11,12) tr no_in by auto
  qed
  then have "q = [hd q]" using I(2) by (cases q) auto
  moreover have "\<not> lc_held (ln_ctl s (hd q))" using I(11) tr no_in by simp
  moreover have "\<not> lc_held (ln_ctl s x)" if "x \<notin> set q" for x
    using empty I(14) [OF that] that queue_msgs_iff(1) [of m x np m "ln_ctl s" q transit] by auto
  ultimately have "\<not> lc_held (ln_ctl s p)" by (metis list.set(1) list.set(2) singletonD)
  with none no_in show ?thesis by simp
qed

end
