(* ===== verification/Tmk_Lock_Net.thy ===== *)
theory Tmk_Lock_Net
  imports Tmk_Lock_Protocol
begin

text \<open>
  Processes that run the operations of \<^verbatim>\<open>Tmk/src/lock.c\<close> on one lock and exchange the messages
  those operations send.  The network implements the queue protocol, so the code's lock
  excludes, serves in the order of the queue, and serves everybody.
\<close>

section \<open>Incorporating an answer leaves the lock module alone\<close>

lemma diff_create_locks: "Tmk_diff_create p pid k n = Some n' \<Longrightarrow> same_locks n n'"
  by (auto simp: Tmk_diff_create_def Let_def same_locks_def upd_page_def upd_stat_def split: option.splits)

lemma twin_free_locks: "same_locks n (Tmk_twin_free p n)"
  by (simp add: same_locks_def Tmk_twin_free_def Let_def upd_page_def)

lemma create_arg_locks: "interval_create_arg arg n = Some (arg', n') \<Longrightarrow> same_locks n n'"
proof (cases arg)
  case Vt_proc
  assume "interval_create_arg arg n = Some (arg', n')"
  with Vt_proc obtain vt m where "Tmk_interval_create (proc_vector_time n) n = Some (vt, m)" "n' = m\<lparr>proc_vector_time := vt\<rparr>"
    by (auto simp: interval_create_arg_def)
  then show ?thesis using interval_create_locks [of "proc_vector_time n" n vt m] by (simp add: same_locks_def)
next
  case (Vt_array w)
  assume "interval_create_arg arg n = Some (arg', n')"
  with Vt_array obtain vt where "Tmk_interval_create w n = Some (vt, n')" by (auto simp: interval_create_arg_def)
  then show ?thesis by (rule interval_create_locks)
qed (simp add: interval_create_arg_def)

lemma flush_twin_locks: "flush_twin p arg n = Some (arg', n') \<Longrightarrow> same_locks n n'"
proof -
  have copy: "same_locks m (copy_own_time a m)" for a and m :: "'a lnode_scheme"
    by (simp add: copy_own_time_def same_locks_def split: vt_arg.splits)
  have "same_locks n (snd r)" if "flush_twin p arg n = Some r" for r
  proof (rule flush_twin.raw_induct [where P = "\<lambda>p arg n r. same_locks n (snd r)", OF _ that], goal_cases)
    case (1 flush p arg n r)
    consider "snd r = n"
      | m where "Tmk_diff_create p (proc_id n) 0 n = Some m" "flush p arg (Tmk_twin_free p m) = Some r"
      | a m where "interval_create_arg arg n = Some (a, m)" "flush p a (copy_own_time a m) = Some r"
      using 1(2) by (auto split: if_splits simp: bind_eq_Some_conv)
    then show ?case
    proof cases
      case 2
      from same_locks_trans [OF same_locks_trans [OF diff_create_locks [OF 2(1)] twin_free_locks] 1(1) [OF 2(2)]] show ?thesis .
    next
      case 3
      from same_locks_trans [OF same_locks_trans [OF create_arg_locks [OF 3(1)] copy] 1(1) [OF 3(2)]] show ?thesis .
    qed simp
  qed
  then show "flush_twin p arg n = Some (arg', n') \<Longrightarrow> same_locks n n'" by fastforce
qed

lemma incorporate_page_locks: "incorporate_page pid iv p (arg, n) = Some (arg', n') \<Longrightarrow> same_locks n n'"
proof -
  assume a: "incorporate_page pid iv p (arg, n) = Some (arg', n')"
  let ?n = "add_notice pid iv p n"
  have n: "same_locks n ?n" by (rule add_notice_locks)
  have u: "same_locks m (upd_page p f m)" "same_locks m (Tmk_page_inval_merge p m)" for f and m :: "'a lnode_scheme"
    by (simp_all add: same_locks_def upd_page_def Tmk_page_inval_merge_def)
  show ?thesis
  proof (cases "pg_state (page_array ?n p) = Valid")
    case True
    with a obtain m where "flush_twin p arg (upd_page p (pg_state_update (\<lambda>_. Invalid)) ?n) = Some (arg', m)"
      "n' = Tmk_page_inval_merge p m" by (auto simp: incorporate_page_def Let_def split: if_splits)
    with n u flush_twin_locks same_locks_trans show ?thesis by metis
  next
    case False
    with a have "n' = ?n" by (auto simp: incorporate_page_def Let_def split: if_splits)
    with n show ?thesis by simp
  qed
qed

lemma incorporate_range_locks: "incorporate_range pid iv p e (arg, n) = Some (arg', n') \<Longrightarrow> same_locks n n'"
proof (induction pid iv p e "(arg, n)" arbitrary: arg n rule: incorporate_range.induct)
  case (1 pid iv p e arg n)
  from 1(2) obtain arg1 n1 where s: "incorporate_page pid iv p (arg, n) = Some (arg1, n1)"
    "(if p + 1 \<le> e then incorporate_range pid iv (p + 1) e (arg1, n1) else Some (arg1, n1)) = Some (arg', n')"
    by (subst (asm) incorporate_range.simps) (auto simp: bind_eq_Some_conv)
  from s(2) 1(1) [OF s(1)] have "same_locks n1 n'" by (auto split: if_splits)
  with incorporate_page_locks [OF s(1)] show ?case by (rule same_locks_trans)
qed

lemma incorporate_ranges_locks: "incorporate_ranges pid iv rs (arg, n) = Some (arg', n') \<Longrightarrow> same_locks n n'"
proof (induction pid iv rs "(arg, n)" arbitrary: arg n rule: incorporate_ranges.induct)
  case (3 pid iv f l r rs arg n)
  then show ?case
    by (fastforce simp: bind_eq_Some_conv dest: incorporate_range_locks intro: same_locks_trans bump_heap_locks)
qed (auto dest: incorporate_range_locks)

lemma incorporate_interval_locks: "incorporate_interval iv (arg, n) = Some (arg', n') \<Longrightarrow> same_locks n n'"
proof -
  assume a: "incorporate_interval iv (arg, n) = Some (arg', n')"
  have e: "same_locks n (enqueue_interval i iv (n\<lparr>proc_vector_time := vt\<rparr>))" for i vt
    by (simp add: same_locks_def enqueue_interval_def bump_interval_heap_def)
  have "same_locks n (m\<lparr>inverse_time := it\<rparr>)" if "same_locks n m" for m it using that by (simp add: same_locks_def)
  with a show ?thesis
    by (fastforce simp: incorporate_interval_def Let_def bind_eq_Some_conv
        dest: incorporate_ranges_locks intro: same_locks_trans [OF e])
qed

lemma incorporate_loop_locks: "incorporate_loop msg (arg, n) = Some (arg', n') \<Longrightarrow> same_locks n n'"
proof (induction msg "(arg, n)" arbitrary: arg n rule: incorporate_loop.induct)
  case (1 msg arg n)
  show ?case
  proof (cases "msg = []")
    case True
    with 1(3) show ?thesis by (simp add: incorporate_loop.simps)
  next
    case False
    with 1(3) obtain pid vt ms where h: "parse_header msg = Some (pid, vt, ms)"
      by (subst (asm) incorporate_loop.simps) (auto split: option.splits)
    show ?thesis
    proof (cases "proc_vector_time n pid < vt pid")
      case True
      with 1(3) False h obtain rs rest arg1 n1 where r: "parse_ranges ms = Some (rs, rest)"
        "incorporate_interval \<lparr>iv_id = pid, iv_vector_time = vt, iv_ranges = rs\<rparr> (arg, n) = Some (arg1, n1)"
        "incorporate_loop rest (arg1, n1) = Some (arg', n')"
        by (subst (asm) incorporate_loop.simps) (auto split: option.splits simp: bind_eq_Some_conv)
      from 1(1) [OF False h refl refl _ r(1) refl r(2,3)] True have "same_locks n1 n'" by simp
      with incorporate_interval_locks [OF r(2)] show ?thesis by (rule same_locks_trans)
    next
      case old: False
      with 1(3) False h have "incorporate_loop (dropWhile (\<lambda>u. u < pid_mark) ms) (arg, n) = Some (arg', n')"
        by (subst (asm) incorporate_loop.simps) simp
      with 1(2) [OF False h refl refl] old show ?thesis by simp
    qed
  qed
qed

lemma incorporate_locks: "Tmk_interval_incorporate msg arg n = Some (arg', n') \<Longrightarrow> same_locks n n'"
proof -
  assume a: "Tmk_interval_incorporate msg arg n = Some (arg', n')"
  have "same_locks m k" if "Tmk_page_inval_perform m = Some k" for m k :: "'a lnode_scheme"
    using that by (auto simp: Tmk_page_inval_perform_def Let_def same_locks_def split: if_splits)
  with a show ?thesis
    by (auto simp: Tmk_interval_incorporate_def bind_eq_Some_conv split: if_splits
        dest!: incorporate_loop_locks intro: same_locks_trans)
qed

lemma acquired_locks: "Tmk_lock_acquired dt sz data vt n = Inr n' \<Longrightarrow> same_locks n n'"
  by (auto simp: Tmk_lock_acquired_def tmk_bind_Inr_iff tmk_option_def upd_stat_def same_locks_def
      split: option.splits dest!: incorporate_locks)

section \<open>The network\<close>

text \<open>
  The processes, which of them are between a return from \<^verbatim>\<open>Tmk_lock_acquire(i)\<close> and the call of
  \<^verbatim>\<open>Tmk_lock_release(i)\<close>, and the messages about lock \<open>i\<close> in flight.  A message is delivered
  once, in any order (retransmissions are filtered before the handlers, \<^verbatim>\<open>sigio.c\<close>).  Anything
  else a process does, \<open>Net_other\<close>, leaves the control fields of the lock alone.
\<close>

record lock_net =
  nt_node :: "nat \<Rightarrow> lnode"
  nt_in :: "nat \<Rightarrow> bool"
  nt_msgs :: "lock_send multiset"

inductive net_serve :: "nat \<Rightarrow> nat \<Rightarrow> lock_net \<Rightarrow> lock_net \<Rightarrow> bool" for i np where
  Net_request: "Send_lock t req \<in># nt_msgs s \<Longrightarrow> rq_id req = i \<Longrightarrow>
    Tmk_lock_sigio_handler req (nt_node s t) = Inr (ms, n) \<Longrightarrow>
    net_serve i np s (s\<lparr>nt_node := (nt_node s)(t := n), nt_msgs := nt_msgs s - {#Send_lock t req#} + mset ms\<rparr>)"
| Net_grant: "Send_grant t sq data \<in># nt_msgs s \<Longrightarrow>
    Tmk_lock_acquired dt sz data vt (nt_node s t) = Inr n \<Longrightarrow>
    net_serve i np s (s\<lparr>nt_node := (nt_node s)(t := n), nt_in := (nt_in s)(t := True),
      nt_msgs := nt_msgs s - {#Send_grant t sq data#}\<rparr>)"
| Net_release: "p < np \<Longrightarrow> nt_in s p \<Longrightarrow> Tmk_lock_release i (nt_node s p) = Inr (ms, n) \<Longrightarrow>
    net_serve i np s (s\<lparr>nt_node := (nt_node s)(p := n), nt_in := (nt_in s)(p := False), nt_msgs := nt_msgs s + mset ms\<rparr>)"

inductive net_step :: "nat \<Rightarrow> nat \<Rightarrow> lock_net \<Rightarrow> lock_net \<Rightarrow> bool" for i np where
  Net_serve: "net_serve i np s s' \<Longrightarrow> net_step i np s s'"
| Net_acquire: "p < np \<Longrightarrow> Tmk_lock_acquire i (nt_node s p) = Inr (ms, vt, n) \<Longrightarrow>
    net_step i np s (s\<lparr>nt_node := (nt_node s)(p := n), nt_in := (nt_in s)(p := (ms = [])), nt_msgs := nt_msgs s + mset ms\<rparr>)"
| Net_other: "ctl (lock_array n i) = ctl (lock_array (nt_node s p) i) \<Longrightarrow> proc_id n = proc_id (nt_node s p) \<Longrightarrow>
    net_step i np s (s\<lparr>nt_node := (nt_node s)(p := n)\<rparr>)"

definition net_init :: "nat \<Rightarrow> lock_net \<Rightarrow> bool" where
  "net_init np s \<longleftrightarrow> nt_msgs s = {#} \<and> (\<forall>p. \<not> nt_in s p) \<and>
     (\<forall>p. \<exists>n. nt_node s p = Tmk_lock_initialize n \<and> proc_id n = p \<and> nprocs n = np)"

inductive net_reachable :: "nat \<Rightarrow> nat \<Rightarrow> lock_net \<Rightarrow> bool" for i np where
  Net_init: "net_init np s \<Longrightarrow> net_reachable i np s"
| Net_step: "net_reachable i np s \<Longrightarrow> net_step i np s s' \<Longrightarrow> net_reachable i np s'"

section \<open>The network implements the protocol\<close>

definition net_abs :: "nat \<Rightarrow> lock_net \<Rightarrow> lnet" where
  "net_abs i s = \<lparr>ln_ctl = (\<lambda>p. ctl (lock_array (nt_node s p) i)), ln_in = nt_in s,
     ln_msgs = (\<Sum>x \<in># nt_msgs s. mset (lock_msg_of x))\<rparr>"

lemma net_abs_simps [simp]:
  "ln_ctl (net_abs i s) p = ctl (lock_array (nt_node s p) i)" "ln_in (net_abs i s) = nt_in s"
  by (simp_all add: net_abs_def)

lemma abs_msgs_mset: "(\<Sum>x \<in># mset ms. mset (lock_msg_of x)) = mset (lock_msgs ms)"
  by (induction ms) simp_all

lemma abs_msgs_in: "x \<in># M \<Longrightarrow> y \<in> set (lock_msg_of x) \<Longrightarrow> y \<in># (\<Sum>x \<in># M. mset (lock_msg_of x))"
  by (auto dest!: multi_member_split)

lemma abs_msgs_remove:
  "x \<in># M \<Longrightarrow> (\<Sum>x \<in># M - {#x#}. mset (lock_msg_of x)) = (\<Sum>x \<in># M. mset (lock_msg_of x)) - mset (lock_msg_of x)"
  by (auto dest!: multi_member_split)

text \<open>What a successful operation does to the control fields.\<close>

lemma acquire_ctl_of:
  assumes "Tmk_lock_acquire i n = Inr (ms, vt, n')"
  shows "acquire_ctl (proc_id n) (ctl (lock_array n i)) = Some (lock_msgs ms, ctl (lock_array n' i))" "proc_id n' = proc_id n"
    "ms = [] \<longleftrightarrow> lock_msgs ms = []"
proof -
  have i: "i < NLOCKS" using assms by (auto simp: Tmk_lock_acquire_def split: if_splits)
  then show "acquire_ctl (proc_id n) (ctl (lock_array n i)) = Some (lock_msgs ms, ctl (lock_array n' i))"
    using acquire_refines [of i n] assms by simp
  show "proc_id n' = proc_id n" "ms = [] \<longleftrightarrow> lock_msgs ms = []"
    using assms by (auto simp: Tmk_lock_acquire_def Let_def upd_stat_def split: if_splits)
qed

lemma request_ctl_of:
  assumes "Tmk_lock_sigio_handler req n = Inr (ms, n')"
  shows "request_ctl (proc_id n) (rq_from req) (ctl (lock_array n (rq_id req))) =
    Some (lock_msgs ms, ctl (lock_array n' (rq_id req)))" "proc_id n' = proc_id n"
proof -
  show "proc_id n' = proc_id n" using lock_handler_frame [OF assms] by (simp add: same_queues_def)
  show "request_ctl (proc_id n) (rq_from req) (ctl (lock_array n (rq_id req))) = Some (lock_msgs ms, ctl (lock_array n' (rq_id req)))"
  proof (cases "lk_next (lock_array n (rq_id req)) = proc_id n")
    case True
    with assms obtain m where m: "answer_request req n = Inr (ms, m)" "n' = link_request (rq_id req) (rq_from req) m"
      by (auto simp: Tmk_lock_sigio_handler_def Let_def tmk_bind_Inr_iff)
    note a = answer_ctl [OF m(1)]
    then have "lk_manager (lock_array m (rq_id req)) = lk_manager (lock_array n (rq_id req))"
      "lk_tail (lock_array m (rq_id req)) = lk_tail (lock_array n (rq_id req))" by (simp_all add: ctl_def)
    with a m(2) True show ?thesis by (simp add: link_ctl request_ctl_def) (simp add: ctl_def)
  next
    case False
    with assms show ?thesis
      by (auto simp: Tmk_lock_sigio_handler_def request_ctl_def ctl_def req_syn.defs Let_def split: if_splits)
  qed
qed

lemma release_ctl_of:
  assumes "Tmk_lock_release i n = Inr (ms, n')"
  shows "release_ctl (proc_id n) (ctl (lock_array n i)) = Some (lock_msgs ms, ctl (lock_array n' i))" "proc_id n' = proc_id n"
proof -
  let ?n = "upd_lock i (lk_held_update (\<lambda>_. False)) n"
  let ?to = "lk_next (lock_array n i)"
  have h: "lk_held (lock_array n i)" using assms by (auto simp: Tmk_lock_release_def split: if_splits)
  have "release_ctl (proc_id n) (ctl (lock_array n i)) = Some (lock_msgs ms, ctl (lock_array n' i)) \<and> proc_id n' = proc_id n"
  proof (cases "?to = proc_id n")
    case True
    with assms h show ?thesis by (auto simp: Tmk_lock_release_def release_ctl_def ctl_def Let_def split: if_splits)
  next
    case False
    with assms h obtain m where m: "end_interval ?n = Inr m" "grant i ?to (rep_seqno m ?to) (saved_time m ?to) m = (ms, n')"
      by (auto simp: Tmk_lock_release_def Let_def tmk_bind_Inr_iff split: if_splits)
    note lk = same_locksD [OF end_interval_locks [OF m(1)]]
    have "ctl (lock_array n' i) = ctl (lock_array m i)" "lock_msgs ms = [Grant ?to]" "proc_id n' = proc_id m"
      using grant_ctl [of i ?to "rep_seqno m ?to" "saved_time m ?to" m] m(2) by simp_all
    with h False lk show ?thesis by (simp add: release_ctl_def ctl_def)
  qed
  then show "release_ctl (proc_id n) (ctl (lock_array n i)) = Some (lock_msgs ms, ctl (lock_array n' i))" "proc_id n' = proc_id n"
    by simp_all
qed

definition net_ids :: "lock_net \<Rightarrow> bool" where
  "net_ids s \<longleftrightarrow> (\<forall>p. proc_id (nt_node s p) = p)"

lemma net_ids_upd: "net_ids s \<Longrightarrow> nt_node s' = (nt_node s)(p := n) \<Longrightarrow> proc_id n = proc_id (nt_node s p) \<Longrightarrow> net_ids s'"
  by (simp add: net_ids_def)

lemma net_abs_upd:
  assumes "M = (\<Sum>x \<in># nt_msgs s'. mset (lock_msg_of x))" "nt_node s' = (nt_node s)(p := n)" "nt_in s' = b"
  shows "net_abs i s' = (net_abs i s)\<lparr>ln_ctl := (ln_ctl (net_abs i s))(p := ctl (lock_array n i)), ln_in := b, ln_msgs := M\<rparr>"
  using assms by (simp add: net_abs_def fun_eq_iff)

lemma net_serve_abs:
  assumes "net_serve i np s s'" "net_ids s"
  shows "serve_step np (net_abs i s) (net_abs i s') \<and> net_ids s'"
  using assms(1)
proof cases
  case (Net_request t req ms n)
  note id = assms(2) [unfolded net_ids_def, rule_format]
  note c = request_ctl_of [OF Net_request(4)]
  let ?a = "net_abs i s"
  have r: "Req t (rq_from req) \<in># ln_msgs ?a"
    using abs_msgs_in [OF Net_request(2)] by (simp add: net_abs_def)
  then have "N + ln_msgs ?a - {#Req t (rq_from req)#} = N + (ln_msgs ?a - {#Req t (rq_from req)#})" for N
    by (rule diff_union_single_conv)
  then have "net_abs i s' = ?a\<lparr>ln_ctl := (ln_ctl ?a)(t := ctl (lock_array n i)), ln_msgs := ln_msgs ?a - {#Req t (rq_from req)#} + mset (lock_msgs ms)\<rparr>"
    unfolding Net_request(1) using Net_request(2)
    by (subst net_abs_upd [OF refl, of _ s t n]) (auto simp: abs_msgs_remove abs_msgs_mset net_abs_def union_commute)
  with r have "serve_step np ?a (net_abs i s')"
    using serve_step.Deliver_request [of t "rq_from req" ?a "lock_msgs ms" "ctl (lock_array n i)" np] c(1) id [of t] Net_request(3) by simp
  then show ?thesis using net_ids_upd [OF assms(2), of s' t n] c(2) Net_request(1) by simp
next
  case (Net_grant t sq data dt sz vt n)
  let ?a = "net_abs i s"
  note lk = same_locksD [OF acquired_locks [OF Net_grant(3)]]
  have "ctl (lock_array (((nt_node s)(t := n)) p) i) = ctl (lock_array (nt_node s p) i)" for p using lk(1) by simp
  then have "net_abs i s' = ?a\<lparr>ln_in := (ln_in ?a)(t := True), ln_msgs := ln_msgs ?a - {#Grant t#}\<rparr>"
    unfolding Net_grant(1) using Net_grant(2) by (simp add: net_abs_def abs_msgs_remove del: fun_upd_apply)
  moreover have "Grant t \<in># ln_msgs ?a" using abs_msgs_in [OF Net_grant(2)] by (simp add: net_abs_def)
  ultimately have "serve_step np ?a (net_abs i s')" using serve_step.Deliver_grant [of t ?a np] by simp
  then show ?thesis using net_ids_upd [OF assms(2), of s' t n] lk(7) Net_grant(1) by simp
next
  case (Net_release p ms n)
  note id = assms(2) [unfolded net_ids_def, rule_format]
  note c = release_ctl_of [OF Net_release(4)]
  let ?a = "net_abs i s"
  have "net_abs i s' = ?a\<lparr>ln_ctl := (ln_ctl ?a)(p := ctl (lock_array n i)), ln_in := (ln_in ?a)(p := False), ln_msgs := ln_msgs ?a + mset (lock_msgs ms)\<rparr>"
    unfolding Net_release(1) by (subst net_abs_upd [OF refl, of _ s p n]) (simp_all add: abs_msgs_mset, simp add: net_abs_def)
  then have "serve_step np ?a (net_abs i s')"
    using serve_step.Release [of p np ?a "lock_msgs ms" "ctl (lock_array n i)"] c(1) id [of p] Net_release(2,3) by simp
  then show ?thesis using net_ids_upd [OF assms(2), of s' p n] c(2) Net_release(1) by simp
qed

lemma net_step_abs:
  assumes "net_step i np s s'" "net_ids s"
  shows "(lnet_step np (net_abs i s) (net_abs i s') \<or> net_abs i s' = net_abs i s) \<and> net_ids s'"
  using assms(1)
proof cases
  case Net_serve
  then show ?thesis using net_serve_abs [OF _ assms(2)] lnet_step.Serve by blast
next
  case (Net_acquire p ms vt n)
  note id = assms(2) [unfolded net_ids_def, rule_format]
  note c = acquire_ctl_of [OF Net_acquire(3)]
  let ?a = "net_abs i s"
  have "net_abs i s' = ?a\<lparr>ln_ctl := (ln_ctl ?a)(p := ctl (lock_array n i)), ln_in := (ln_in ?a)(p := (lock_msgs ms = [])),
      ln_msgs := ln_msgs ?a + mset (lock_msgs ms)\<rparr>"
    unfolding Net_acquire(1) c(3) by (subst net_abs_upd [OF refl, of _ s p n]) (simp_all add: abs_msgs_mset, simp add: net_abs_def)
  then have "lnet_step np ?a (net_abs i s')"
    using lnet_step.Acquire [of p np ?a "lock_msgs ms" "ctl (lock_array n i)"] c(1) id [of p] Net_acquire(2) by simp
  then show ?thesis using net_ids_upd [OF assms(2), of s' p n] c(2) Net_acquire(1) by simp
next
  case (Net_other n p)
  then have "net_abs i s' = net_abs i s" by (simp add: net_abs_def fun_eq_iff)
  then show ?thesis using net_ids_upd [OF assms(2), of s' p n] Net_other by simp
qed

lemma net_reachable_abs:
  assumes "net_reachable i np s" "i < NLOCKS"
  shows "lnet_reachable np (i mod np) (net_abs i s) \<and> net_ids s"
  using assms(1)
proof (induction rule: net_reachable.induct)
  case (Net_init s)
  have "ctl (lock_array (nt_node s p) i) = \<lparr>lc_manager = i mod np, lc_tail = 0, lc_held = False, lc_next = 0\<rparr> \<and> proc_id (nt_node s p) = p" for p
  proof -
    from Net_init obtain n where "nt_node s p = Tmk_lock_initialize n" "proc_id n = p" "nprocs n = np"
      by (auto simp: net_init_def)
    with assms(2) show ?thesis by (simp add: Tmk_lock_initialize_def ctl_def)
  qed
  then have "net_abs i s = lnet_init (i mod np)" "net_ids s"
    using Net_init by (simp_all add: net_abs_def lnet_init_def net_init_def net_ids_def fun_eq_iff)
  then show ?case using lnet_reachable.Init by simp
next
  case (Net_step s s')
  then show ?case using net_step_abs [OF Net_step(2)] lnet_reachable.Step by metis
qed

lemma net_reachable_queue:
  assumes "net_reachable i np s" "i < NLOCKS" "0 < np"
  obtains q transit where "queue_inv np (i mod np) (net_abs i s) q transit"
proof -
  have "i mod np < np" using assms(3) by simp
  with net_reachable_abs [OF assms(1,2)] lnet_reachable_abs show ?thesis using that by (fastforce simp: lock_abs_def)
qed

lemma inside_is_first:
  assumes "queue_inv np m s q transit" "ln_in s p"
  shows "p = hd q"
  using queue_first [OF assms(1), of p] queue_invD(13) [OF assms(1), of p] assms(2) by auto

lemma serve_steps_bounded:
  assumes "(net_serve i np ^^ k) s s'" "queue_inv np m (net_abs i s) q transit" "net_ids s"
  shows "k + remaining np m (net_abs i s') \<le> remaining np m (net_abs i s)"
  using assms
proof (induction k arbitrary: s q transit)
  case (Suc k)
  from relpowp_Suc_D2 [OF Suc.prems(1)] obtain s1 where s1: "net_serve i np s s1" "(net_serve i np ^^ k) s1 s'" by blast
  note a = net_serve_abs [OF s1(1) Suc.prems(3)]
  from queue_inv_serve [OF a [THEN conjunct1] Suc.prems(2)] obtain q' transit' where inv: "queue_inv np m (net_abs i s1) q' transit'"
    by blast
  have "remaining np m (net_abs i s1) < remaining np m (net_abs i s)"
    using serve_step_decreases [OF a [THEN conjunct1] Suc.prems(2)] .
  with Suc.IH [OF s1(2) inv a [THEN conjunct2]] show ?case by simp
qed simp

lemma waiting_served:
  assumes inv: "queue_inv np m s q transit" and "lc_held (ln_ctl s p)" and "ln_msgs s = {#}"
  shows "\<exists>x. ln_in s x"
proof (rule ccontr)
  assume "\<nexists>x. ln_in s x"
  then have "\<not> serve_step np s s'" for s' using assms(3) by (auto elim: serve_stepE)
  with stuck_idle [OF inv, of p] assms(2) show False by simp
qed

section \<open>Properties\<close>

text \<open>A network of three processes; process 0 owns lock 1, and process 2 asks its manager for it.\<close>

definition demo_net :: lock_net where
  "demo_net = \<lparr>nt_node = (\<lambda>p. Tmk_lock_initialize (demo_lnode\<lparr>proc_id := p, nprocs := 3\<rparr>)),
     nt_in = (\<lambda>_. False), nt_msgs = {#}\<rparr>"

lemma demo_net_init: "net_init 3 demo_net"
  by (auto simp: net_init_def demo_net_def)

lemma demo_lock:
  "lk_held (lock_array (nt_node demo_net p) 1) = False" "lk_next (lock_array (nt_node demo_net p) 1) = 0"
  "lk_manager (lock_array (nt_node demo_net p) 1) = 1" "proc_id (nt_node demo_net p) = p"
  by (simp_all add: demo_net_def Tmk_lock_initialize_def)

lemma demo_net_first:
  obtains n where "net_reachable 1 3 (demo_net\<lparr>nt_node := (nt_node demo_net)(0 := n), nt_in := (\<lambda>p. p = 0)\<rparr>)"
    "net_step 1 3 demo_net (demo_net\<lparr>nt_node := (nt_node demo_net)(0 := n), nt_in := (\<lambda>p. p = 0)\<rparr>)"
proof -
  obtain n where a: "Tmk_lock_acquire 1 (nt_node demo_net 0) = Inr ([], None, n)"
    using demo_lock [of 0] by (auto simp: Tmk_lock_acquire_def Let_def upd_stat_def)
  have "(nt_in demo_net)(0 := True) = (\<lambda>p. p = 0)" by (simp add: demo_net_def fun_eq_iff)
  with net_step.Net_acquire [OF _ a, of 3]
  have step: "net_step 1 3 demo_net (demo_net\<lparr>nt_node := (nt_node demo_net)(0 := n), nt_in := (\<lambda>p. p = 0)\<rparr>)"
    by (simp add: demo_net_def)
  show ?thesis using that net_reachable.Net_step [OF net_reachable.Net_init [OF demo_net_init] step] step by blast
qed

lemma demo_net_request:
  obtains req n where "net_reachable 1 3 (demo_net\<lparr>nt_node := (nt_node demo_net)(2 := n), nt_msgs := {#Send_lock 1 req#}\<rparr>)"
    "rq_id req = 1" "lk_held (lock_array n 1)"
proof -
  obtain req vt n where a: "Tmk_lock_acquire 1 (nt_node demo_net 2) = Inr ([Send_lock 1 req], vt, n)" "rq_id req = 1"
    "lk_held (lock_array n 1)"
    using demo_lock [of 2] by (auto simp: Tmk_lock_acquire_def Let_def upd_stat_def lock_request_def)
  have "(nt_in demo_net)(2 := False) = nt_in demo_net" by (auto simp: demo_net_def)
  with net_step.Net_acquire [OF _ a(1), of 3]
  have step: "net_step 1 3 demo_net (demo_net\<lparr>nt_node := (nt_node demo_net)(2 := n), nt_msgs := {#Send_lock 1 req#}\<rparr>)"
    by (simp add: demo_net_def)
  show ?thesis using that [of req n] net_reachable.Net_step [OF net_reachable.Net_init [OF demo_net_init] step] a(2,3) by blast
qed

text \<open>
  C15: Mutual exclusion.  In every state of a network whose processes acquire and release a lock
  with the operations of the library, handle each other's requests and incorporate each
  other's answers, at most one process is between acquire and release.
\<close>

theorem lock_mutual_exclusion:
  assumes "net_reachable i np s" "i < NLOCKS" "0 < np" "nt_in s p" "nt_in s q"
  shows "p = q"
proof -
  obtain ps transit where inv: "queue_inv np (i mod np) (net_abs i s) ps transit"
    using assms(1-3) by (rule net_reachable_queue)
  show ?thesis using inside_is_first [OF inv, of p] inside_is_first [OF inv, of q] assms(4,5) by simp
qed

theorem lock_mutual_exclusion_witness:
  "\<exists>s. net_reachable 1 3 s \<and> nt_in s 0 \<and> \<not> nt_in s 2"
proof (rule demo_net_first, intro exI conjI)
  fix n
  assume r: "net_reachable 1 3 (demo_net\<lparr>nt_node := (nt_node demo_net)(0 := n), nt_in := (\<lambda>p. p = 0)\<rparr>)" (is "net_reachable 1 3 ?s")
  show "net_reachable 1 3 ?s" by (rule r)
  show "nt_in ?s 0" by simp
  show "\<not> nt_in ?s 2" using lock_mutual_exclusion [OF r, of 0 2] by auto
qed

text \<open>
  C18: No lock request goes astray: every request in flight reaches a process that is the end
  of the queue or the manager, so the handler's fatal error does not happen; a coherent
  process handles the request and stays coherent.
\<close>

theorem lock_request_handled:
  assumes "net_reachable i np s" "i < NLOCKS" "0 < np" "Send_lock t req \<in># nt_msgs s" "rq_id req = i" "coherent (nt_node s t)"
  shows "\<exists>ms n. Tmk_lock_sigio_handler req (nt_node s t) = Inr (ms, n) \<and> coherent n"
proof -
  obtain q transit where inv: "queue_inv np (i mod np) (net_abs i s) q transit"
    using assms(1-3) by (rule net_reachable_queue)
  have id: "proc_id (nt_node s t) = t" using net_reachable_abs [OF assms(1,2)] by (simp add: net_ids_def)
  have "Req t (rq_from req) \<in># ln_msgs (net_abs i s)" using abs_msgs_in [OF assms(4)] by (simp add: net_abs_def)
  from request_in_flight [OF inv this] queue_invD(5) [OF inv, of t]
  have "lk_next (lock_array (nt_node s t) i) = t \<or> lk_manager (lock_array (nt_node s t) i) = t" by (auto simp: ctl_def)
  with lock_handler_coherent [OF assms(6), of req] assms(5) id show ?thesis by simp
qed

theorem lock_request_handled_witness:
  "\<exists>s req ms n. net_reachable 1 3 s \<and> Send_lock 1 req \<in># nt_msgs s \<and> Tmk_lock_sigio_handler req (nt_node s 1) = Inr (ms, n)"
proof -
  obtain req n where r: "net_reachable 1 3 (demo_net\<lparr>nt_node := (nt_node demo_net)(2 := n), nt_msgs := {#Send_lock 1 req#}\<rparr>)"
    (is "net_reachable 1 3 ?s") "rq_id req = 1" by (rule demo_net_request)
  have "coherent (nt_node ?s 1)"
    using coherent_cong [OF demo_lnode_coherent, of "nt_node ?s 1"]
    by (simp add: demo_net_def Tmk_lock_initialize_def demo_lnode_fields)
  with lock_request_handled [OF r(1) _ _ _ r(2), of 1] r(1) show ?thesis by fastforce
qed

text \<open>
  C16: The distributed lock implements a queue.  Every reachable state stands for a list of
  processes, the owner first, and every step of the network is a step of the abstract queue:
  processes join at the end, the owner enters and leaves, and ownership passes to the next in
  line.
\<close>

theorem lock_implements_queue:
  assumes "net_reachable i np s" "i < NLOCKS" "0 < np" "net_step i np s s'"
  shows "(\<exists>a. lock_abs np (i mod np) (net_abs i s) a) \<and>
    (\<forall>a. lock_abs np (i mod np) (net_abs i s) a \<longrightarrow>
      (\<exists>a'. lock_abs np (i mod np) (net_abs i s') a' \<and> queue_step a a'))"
proof (intro conjI allI impI)
  note r = net_reachable_abs [OF assms(1,2)]
  show "\<exists>a. lock_abs np (i mod np) (net_abs i s) a" using r assms(3) by (intro lnet_reachable_abs) auto
  fix a
  assume a: "lock_abs np (i mod np) (net_abs i s) a"
  show "\<exists>a'. lock_abs np (i mod np) (net_abs i s') a' \<and> queue_step a a'"
    using net_step_abs [OF assms(4)] r lnet_step_abs [OF _ a] a queue_step.Stutter [of a] by metis
qed

theorem lock_implements_queue_witness:
  "\<exists>s a'. net_step 1 3 demo_net s \<and> lock_abs 3 1 (net_abs 1 s) a' \<and> queue_step ([0], False) a'"
proof (rule demo_net_first)
  fix n
  assume s: "net_step 1 3 demo_net (demo_net\<lparr>nt_node := (nt_node demo_net)(0 := n), nt_in := (\<lambda>p. p = 0)\<rparr>)"
  have "net_abs 1 demo_net = lnet_init 1"
    by (simp add: net_abs_def lnet_init_def demo_net_def Tmk_lock_initialize_def ctl_def fun_eq_iff)
  then have "lock_abs 3 (1 mod 3) (net_abs 1 demo_net) ([0], False)"
    using queue_inv_init [of 1 3] by (auto simp: lock_abs_def lnet_init_def)
  with lock_implements_queue [OF net_reachable.Net_init [OF demo_net_init] _ _ s] s show ?thesis by fastforce
qed

text \<open>
  C17: Nobody waits for ever.  Serving the requests made so far, that is delivering messages and
  releasing, takes a bounded number of steps; and as long as some process holds or waits for the
  lock, a process is inside or a message is in flight.
\<close>

theorem lock_waiting_ends:
  assumes "net_reachable i np s" "i < NLOCKS" "0 < np"
  shows "(\<forall>k s'. (net_serve i np ^^ k) s s' \<longrightarrow> k \<le> remaining np (i mod np) (net_abs i s)) \<and>
    (lk_held (lock_array (nt_node s p) i) \<longrightarrow> (\<exists>q. nt_in s q) \<or> nt_msgs s \<noteq> {#})"
proof -
  obtain q transit where inv: "queue_inv np (i mod np) (net_abs i s) q transit"
    using assms(1-3) by (rule net_reachable_queue)
  have "net_ids s" using net_reachable_abs [OF assms(1,2)] by simp
  with serve_steps_bounded [OF _ inv] have "\<forall>k s'. (net_serve i np ^^ k) s s' \<longrightarrow> k \<le> remaining np (i mod np) (net_abs i s)"
    by fastforce
  moreover have "lk_held (lock_array (nt_node s p) i) \<longrightarrow> (\<exists>q. nt_in s q) \<or> nt_msgs s \<noteq> {#}"
    using waiting_served [OF inv, of p] by (auto simp: net_abs_def ctl_def)
  ultimately show ?thesis ..
qed

theorem lock_waiting_ends_witness:
  "\<exists>s. net_reachable 1 3 s \<and> lk_held (lock_array (nt_node s 2) 1) \<and> nt_msgs s \<noteq> {#} \<and>
     (\<forall>k s'. (net_serve 1 3 ^^ k) s s' \<longrightarrow> k \<le> remaining 3 1 (net_abs 1 s))"
proof -
  obtain req n where r: "net_reachable 1 3 (demo_net\<lparr>nt_node := (nt_node demo_net)(2 := n), nt_msgs := {#Send_lock 1 req#}\<rparr>)"
    (is "net_reachable 1 3 ?s") "lk_held (lock_array n 1)" by (rule demo_net_request)
  then show ?thesis using lock_waiting_ends [OF r(1), of 2] by (intro exI [of _ ?s]) auto
qed

end
