(* ===== verification/Tmk_Barrier.thy ===== *)
theory Tmk_Barrier
  imports Tmk_Gather Tmk_Lock_Net
begin

text \<open>
  Barriers, \<^verbatim>\<open>Tmk/src/barrier.c\<close>.  Every barrier has a manager.  Other processes send it their new
  intervals; the manager incorporates what it receives, waits until all have arrived, answers each
  with the intervals it has not seen, and performs the invalidations.  If some process is short of
  memory, a reclamation follows (\<^verbatim>\<open>repo.c\<close>).  Requests that arrive before the manager does are held in
  their buffers and incorporated when it arrives.
\<close>

section \<open>State\<close>

record barrier =
  br_manager :: nat
  br_mask :: u32

text \<open>\<^verbatim>\<open>br_repo\<close> is \<^verbatim>\<open>rep.repo\<close> of this file, which outlives the barrier.\<close>

record bnode = snode +
  barrier_array :: "nat \<Rightarrow> barrier"
  br_repo :: bool

definition upd_barrier :: "nat \<Rightarrow> (barrier \<Rightarrow> barrier) \<Rightarrow> 'a bnode_scheme \<Rightarrow> 'a bnode_scheme" where
  "upd_barrier i f n = n\<lparr>barrier_array := (barrier_array n)(i := f (barrier_array n i))\<rparr>"

datatype barrier_send = Send_arrival nat req_arrival | Send_departure nat u32 bool "u16 list"

section \<open>The manager\<close>

definition others :: "'a node_scheme \<Rightarrow> nat list" where
  "others n = filter (\<lambda>j. j \<noteq> proc_id n) [0..<nprocs n]"

definition repo_wanted :: "'a node_scheme \<Rightarrow> bool" where
  "repo_wanted n \<longleftrightarrow> Tmk_diff_repo_test n \<or> Tmk_interval_repo_test n"

text \<open>The beginning of \<^verbatim>\<open>Tmk_barrier\<close>, on every process; the result also tells whether the process is short of memory.\<close>

definition barrier_enter :: "nat \<Rightarrow> 'a bnode_scheme \<Rightarrow> (bool \<times> 'a bnode_scheme) tmk_result" where
  "barrier_enter bid n =
     (let n = upd_stat (\<lambda>s. s\<lparr>arrivals := arrivals s + 1\<rparr>) n
      in if bid < NBARRIERS then tmk_bind (end_interval n) (\<lambda>n. Inr (repo_wanted n, n))
         else Inl (Errexit ''Tmk_barrier: id''))"

definition incorporate_arrival :: "req_arrival \<Rightarrow> 'a bnode_scheme \<Rightarrow> 'a bnode_scheme tmk_result" where
  "incorporate_arrival req n =
     tmk_bind (tmk_option (Tmk_interval_incorporate (rq_data req) Vt_null n)) (\<lambda>(arg, n).
       Inr (if rq_repo req then n\<lparr>br_repo := True\<rparr> else n))"

text \<open>The manager on arrival: what was held, then its own bit.\<close>

fun barrier_early :: "nat \<Rightarrow> nat list \<Rightarrow> 'a bnode_scheme \<Rightarrow> 'a bnode_scheme tmk_result" where
  "barrier_early bid [] n = Inr n"
| "barrier_early bid (j # js) n =
     (if proc_bit j AND br_mask (barrier_array n bid) \<noteq> 0
      then tmk_bind (incorporate_arrival (sigio_buffer n (req_from n j)) n) (barrier_early bid js)
      else barrier_early bid js n)"

definition barrier_gather :: "nat \<Rightarrow> bool \<Rightarrow> 'a bnode_scheme \<Rightarrow> 'a bnode_scheme tmk_result" where
  "barrier_gather bid repo n =
     tmk_bind (barrier_early bid (others n) (n\<lparr>br_repo := repo\<rparr>)) (\<lambda>n.
       Inr (upd_barrier bid (\<lambda>b. b\<lparr>br_mask := br_mask b OR proc_bit (proc_id n)\<rparr>) n))"

text \<open>The answers; each gives the buffer of the request back.\<close>

fun barrier_answers :: "nat list \<Rightarrow> 'a bnode_scheme \<Rightarrow> (barrier_send list \<times> 'a bnode_scheme) tmk_result" where
  "barrier_answers [] n = Inr ([], n)"
| "barrier_answers (j # js) n =
     (let req = sigio_buffer n (req_from n j);
          m = Send_departure j (rq_seqno req) (br_repo n) (Tmk_interval_request n (rq_vector_time req))
      in tmk_bind (Tmk_sigio_buffer_release (req_from n j) n) (\<lambda>n.
           tmk_bind (barrier_answers js n) (\<lambda>(ms, n). Inr (m # ms, n))))"

text \<open>After the spinning, which goes on while \<^verbatim>\<open>barrier->mask ^ Tmk_spinmask\<close> is not zero (\<open>None\<close>).\<close>

definition barrier_depart :: "nat \<Rightarrow> 'a bnode_scheme \<Rightarrow> (barrier_send list \<times> 'a bnode_scheme) tmk_result option" where
  "barrier_depart bid n =
     (if br_mask (barrier_array n bid) XOR Tmk_spinmask (nprocs n) \<noteq> 0 then None
      else Some (let n = upd_barrier bid (br_mask_update (\<lambda>_. 0)) n
        in tmk_bind (barrier_answers (others n) n) (\<lambda>(ms, n).
             tmk_bind (tmk_option (Tmk_page_inval_perform n)) (\<lambda>n. Inr (ms, n)))))"

section \<open>The other processes\<close>

definition barrier_arrive :: "nat \<Rightarrow> bool \<Rightarrow> 'a bnode_scheme \<Rightarrow> barrier_send list \<times> req_arrival \<times> 'a bnode_scheme" where
  "barrier_arrive bid repo n =
     (let manager = br_manager (barrier_array n bid);
          n = n\<lparr>req_seqno := req_seqno n + SEQNO_INCR\<rparr>;
          req = \<lparr>rq_seqno = req_seqno n, rq_from = proc_id n, rq_id = bid, rq_vector_time = proc_vector_time n,
                 rq_repo = repo, rq_data = Tmk_interval_request_proc n (proc_id n) (inverse_time n manager)\<rparr>
      in ([Send_arrival manager req], req, n))"

text \<open>The wait; a repeated request carries the vector time of that moment.  An answer has the flag and the intervals.\<close>

definition barrier_receive ::
  "nat \<Rightarrow> req_arrival \<Rightarrow> (nat \<Rightarrow> u16, bool \<times> u16 list) recv_event list \<Rightarrow>
   (barrier_send list \<times> u32 \<times> bool \<times> u16 list) tmk_result option" where
  "barrier_receive manager req es =
     map_option (\<lambda>r. tmk_bind r (\<lambda>(vs, sz, d). Inr (map (\<lambda>vt. Send_arrival manager (req\<lparr>rq_vector_time := vt\<rparr>)) vs, sz, d)))
       (recv_loop ''Tmk_barrier<recv>'' (rq_seqno req) es [])"

definition barrier_departed :: "u32 \<Rightarrow> bool \<Rightarrow> u16 list \<Rightarrow> 'a bnode_scheme \<Rightarrow> 'a bnode_scheme tmk_result" where
  "barrier_departed sz repo data n =
     tmk_bind (tmk_option (Tmk_interval_incorporate data Vt_proc
       (upd_stat (\<lambda>s. s\<lparr>messages := messages s + 1, bytes := bytes s + sz\<rparr>) (n\<lparr>br_repo := repo\<rparr>))))
       (\<lambda>(arg, n). Inr n)"

text \<open>The end, on every process; the result tells whether \<^verbatim>\<open>Tmk_repo\<close> is called.\<close>

definition sync_inverse :: "'a node_scheme \<Rightarrow> 'a node_scheme" where
  "sync_inverse n = n\<lparr>inverse_time := (\<lambda>j. if j < nprocs n \<and> j \<noteq> proc_id n then proc_vector_time n (proc_id n) else inverse_time n j)\<rparr>"

definition barrier_leave :: "'a bnode_scheme \<Rightarrow> bool \<times> 'a bnode_scheme" where
  "barrier_leave n = (br_repo n, sync_inverse n)"

section \<open>Requests\<close>

definition Tmk_barrier_sigio_handler :: "req_arrival \<Rightarrow> 'a bnode_scheme \<Rightarrow> 'a bnode_scheme tmk_result" where
  "Tmk_barrier_sigio_handler req n =
     (let n = upd_barrier (rq_id req) (\<lambda>b. b\<lparr>br_mask := br_mask b OR proc_bit (rq_from req)\<rparr>) n
      in if br_mask (barrier_array n (rq_id req)) AND proc_bit (proc_id n) \<noteq> 0
         then incorporate_arrival req n else Inr n)"

definition Tmk_barrier_sigio_duplicate_handler :: "req_arrival \<Rightarrow> 'a bnode_scheme \<Rightarrow> barrier_send list" where
  "Tmk_barrier_sigio_duplicate_handler req n =
     (if br_mask (barrier_array n (rq_id req)) AND proc_bit (rq_from req) = 0
      then [Send_departure (rq_from req) (rq_seqno req) (br_repo n) (Tmk_interval_request n (rq_vector_time req))] else [])"

definition Tmk_barrier_initialize :: "'a bnode_scheme \<Rightarrow> 'a bnode_scheme" where
  "Tmk_barrier_initialize n =
     n\<lparr>barrier_array := (\<lambda>i. if i < NBARRIERS then (barrier_array n i)\<lparr>br_manager := i mod nprocs n\<rparr> else barrier_array n i)\<rparr>"

text \<open>A request to arrive, as it is delivered: its buffer is kept, then it is handled (\<^verbatim>\<open>sigio_handler\<close>).\<close>

definition barrier_deliver :: "req_arrival \<Rightarrow> 'a bnode_scheme \<Rightarrow> 'a bnode_scheme tmk_result" where
  "barrier_deliver req n = tmk_bind (sigio_buffer_hold req n) (Tmk_barrier_sigio_handler req)"

section \<open>What the parts leave alone\<close>

lemma same_locks_barrier:
  assumes "same_locks n n'"
  shows "barrier_array n' = barrier_array n" "br_repo n' = br_repo n" "sigio_buffer n' = sigio_buffer n"
    "req_from n' = req_from n" "sigio_buffer_stack n' = sigio_buffer_stack n" "sigio_buffer_tos n' = sigio_buffer_tos n"
    "proc_id n' = proc_id n" "nprocs n' = nprocs n"
  using assms by (cases n; cases n'; simp add: same_locks_def)+

lemma incorporate_arrival_frame:
  assumes "incorporate_arrival req n = Inr n'"
  shows "barrier_array n' = barrier_array n" "br_repo n' = (br_repo n \<or> rq_repo req)" "sigio_buffer n' = sigio_buffer n"
    "req_from n' = req_from n" "sigio_buffer_stack n' = sigio_buffer_stack n" "sigio_buffer_tos n' = sigio_buffer_tos n"
    "proc_id n' = proc_id n" "nprocs n' = nprocs n"
proof -
  obtain arg m where m: "Tmk_interval_incorporate (rq_data req) Vt_null n = Some (arg, m)"
    "n' = (if rq_repo req then m\<lparr>br_repo := True\<rparr> else m)"
    using assms by (cases "Tmk_interval_incorporate (rq_data req) Vt_null n") (auto simp: incorporate_arrival_def)
  note fr = same_locks_barrier [OF incorporate_locks [OF m(1)]]
  show "barrier_array n' = barrier_array n" "br_repo n' = (br_repo n \<or> rq_repo req)" "sigio_buffer n' = sigio_buffer n"
    "req_from n' = req_from n" "sigio_buffer_stack n' = sigio_buffer_stack n" "sigio_buffer_tos n' = sigio_buffer_tos n"
    "proc_id n' = proc_id n" "nprocs n' = nprocs n"
    using fr by (simp_all add: m(2))
qed

lemma incorporate_arrival_mask:
  "incorporate_arrival req n = Inr n' \<Longrightarrow> barrier_array n' = barrier_array n \<and> proc_id n' = proc_id n \<and> nprocs n' = nprocs n"
  using incorporate_arrival_frame(1,7,8) by blast

lemma barrier_early_mask:
  "barrier_early bid js n = Inr n' \<Longrightarrow> barrier_array n' = barrier_array n \<and> proc_id n' = proc_id n \<and> nprocs n' = nprocs n"
proof (induction js arbitrary: n)
  case (Cons j js)
  then show ?case
    by (auto simp: tmk_bind_Inr_iff dest: incorporate_arrival_mask split: if_splits)
qed simp

section \<open>When the manager leaves\<close>

text \<open>What happens at a barrier of process \<open>me\<close>: a request is handled, or the manager itself arrives.\<close>

datatype barrier_event = Request req_arrival | Arrive bool

fun event_source :: "nat \<Rightarrow> barrier_event \<Rightarrow> nat" where
  "event_source me (Request req) = rq_from req"
| "event_source me (Arrive repo) = me"

fun barrier_event_step :: "nat \<Rightarrow> nat \<Rightarrow> barrier_event \<Rightarrow> 'a bnode_scheme \<Rightarrow> 'a bnode_scheme \<Rightarrow> bool" where
  "barrier_event_step bid me (Request req) n n' \<longleftrightarrow> rq_id req = bid \<and> Tmk_barrier_sigio_handler req n = Inr n'"
| "barrier_event_step bid me (Arrive repo) n n' \<longleftrightarrow> proc_id n = me \<and> barrier_gather bid repo n = Inr n'"

lemma barrier_event_mask:
  assumes "barrier_event_step bid me e n n'"
  shows "br_mask (barrier_array n' bid) = br_mask (barrier_array n bid) OR proc_bit (event_source me e)"
    "proc_id n' = proc_id n" "nprocs n' = nprocs n"
proof -
  have "br_mask (barrier_array n' bid) = br_mask (barrier_array n bid) OR proc_bit (event_source me e) \<and>
    proc_id n' = proc_id n \<and> nprocs n' = nprocs n"
  proof (cases e)
    case (Request req)
    with assms show ?thesis
      by (auto simp: Tmk_barrier_sigio_handler_def Let_def upd_barrier_def
          dest!: incorporate_arrival_mask split: if_splits)
  next
    case (Arrive repo)
    with assms show ?thesis
      by (auto simp: barrier_gather_def tmk_bind_Inr_iff upd_barrier_def dest!: barrier_early_mask)
  qed
  then show "br_mask (barrier_array n' bid) = br_mask (barrier_array n bid) OR proc_bit (event_source me e)"
    "proc_id n' = proc_id n" "nprocs n' = nprocs n" by simp_all
qed

interpretation barrier_spin: spinning "\<lambda>n. br_mask (barrier_array n bid)" "event_source me" "barrier_event_step bid me" for bid me
  by unfold_locales (rule barrier_event_mask)

lemma barrier_events_nprocs: "arrive_seq (barrier_event_step bid me) es n n' \<Longrightarrow> nprocs n' = nprocs n"
  by (induction rule: arrive_seq.induct) (simp_all add: barrier_event_mask(3))

text \<open>
  C26: The manager leaves a barrier exactly when every process has arrived: it has itself called
  \<^verbatim>\<open>Tmk_barrier\<close>, and a request of every other process has been handled, in whatever order.
\<close>

theorem barrier_waits:
  assumes "arrive_seq (barrier_event_step bid me) es n n'" "br_mask (barrier_array n bid) = 0"
    and "1 \<le> nprocs n" "nprocs n \<le> NPROCS" "event_source me ` set es \<subseteq> {..<nprocs n}"
  shows "barrier_depart bid n' \<noteq> None \<longleftrightarrow> event_source me ` set es = {..<nprocs n}"
proof -
  have "br_mask (barrier_array n' bid) XOR Tmk_spinmask (nprocs n) = 0 \<longleftrightarrow>
      {k. k < nprocs n \<and> \<not> bit (br_mask (barrier_array n bid)) k} \<subseteq> event_source me ` set es"
    by (rule barrier_spin.spin_ends_iff [OF assms(1,5,3,4)]) (simp add: assms(2))
  then show ?thesis
    using assms(5) barrier_events_nprocs [OF assms(1)] by (auto simp: barrier_depart_def assms(2))
qed

section \<open>What the manager gathers\<close>

interpretation arrival_gather: gathering incorporate_arrival "\<lambda>rs n. True"
proof unfold_locales
  fix r rs and n :: "'a bnode_scheme"
  show "\<exists>k :: 'a bnode_scheme. node.truncate k = node.truncate n \<and>
     (\<forall>arg m. Tmk_interval_incorporate (rq_data r) Vt_null k = Some (arg, m) \<longrightarrow>
        (\<exists>m'. incorporate_arrival r n = Inr m' \<and> node.truncate m' = node.truncate m \<and> True))"
    by (intro exI [of _ n]) (auto simp: incorporate_arrival_def node.truncate_def)
qed

text \<open>
  The requests that have arrived: \<open>H\<close> maps a process to its request, which is in its buffer; the mask has
  the bits of these processes and possibly that of the manager.
\<close>

definition arrived_at :: "nat \<Rightarrow> 'a bnode_scheme \<Rightarrow> (nat \<rightharpoonup> req_arrival) \<Rightarrow> bool" where
  "arrived_at bid n H \<longleftrightarrow> buffer_inv n (dom H) \<and> dom H \<subseteq> set (others n) \<and>
     (\<forall>j r. H j = Some r \<longrightarrow> sigio_buffer n (req_from n j) = r \<and> rq_from r = j) \<and>
     (\<forall>k. k \<noteq> proc_id n \<longrightarrow> bit (br_mask (barrier_array n bid)) k = (k \<in> dom H))"

lemma set_others: "set (others n) = {..<nprocs n} - {proc_id n}"
  by (auto simp: others_def)

lemma arrived_at_cong:
  assumes "arrived_at bid n H" "proc_id m = proc_id n" "nprocs m = nprocs n" "barrier_array m = barrier_array n"
    "sigio_buffer m = sigio_buffer n" "req_from m = req_from n" "sigio_buffer_stack m = sigio_buffer_stack n"
    "sigio_buffer_tos m = sigio_buffer_tos n"
  shows "arrived_at bid m H"
  using assms(1) unfolding arrived_at_def others_def buffer_inv_def free_buffers_def assms(2-) .

lemma incorporate_arrived_at:
  assumes "incorporate_arrival req n = Inr n'" "arrived_at bid n H"
  shows "arrived_at bid n' H"
  using incorporate_arrival_frame [OF assms(1)] by (intro arrived_at_cong [OF assms(2)]) simp_all

lemma barrier_early_eq:
  assumes "arrived_at bid n H" "set js \<subseteq> set (others n)" "nprocs n \<le> NPROCS"
  shows "barrier_early bid js n = accept_all incorporate_arrival (map (\<lambda>j. the (H j)) (filter (\<lambda>j. j \<in> dom H) js)) n"
  using assms
proof (induction js arbitrary: n)
  case (Cons j js)
  have j: "j < NPROCS" "j \<noteq> proc_id n" using Cons.prems by (auto simp: set_others)
  have bit: "proc_bit j AND br_mask (barrier_array n bid) \<noteq> 0 \<longleftrightarrow> j \<in> dom H"
    using and_proc_bit [OF j(1), of "br_mask (barrier_array n bid)"] Cons.prems(1) j(2) by (simp add: arrived_at_def and.commute)
  show ?case
  proof (cases "j \<in> dom H")
    case True
    then have buf: "sigio_buffer n (req_from n j) = the (H j)" using Cons.prems(1) by (auto simp: arrived_at_def)
    have "barrier_early bid js m = accept_all incorporate_arrival (map (\<lambda>j. the (H j)) (filter (\<lambda>j. j \<in> dom H) js)) m"
      if "incorporate_arrival (the (H j)) n = Inr m" for m
      using incorporate_arrived_at [OF that Cons.prems(1)] incorporate_arrival_frame(7,8) [OF that] Cons.prems(2,3)
      by (intro Cons.IH) (simp_all add: others_def)
    then show ?thesis
      using True bit buf by (cases "incorporate_arrival (the (H j)) n") simp_all
  next
    case False
    with bit Cons show ?thesis by simp
  qed
qed simp

text \<open>Requests that are delivered while the manager waits.\<close>

definition late_ready :: "nat \<Rightarrow> (nat \<rightharpoonup> req_arrival) \<Rightarrow> bool \<Rightarrow> req_arrival list \<Rightarrow> 'a bnode_scheme \<Rightarrow> bool" where
  "late_ready bid F flag rs n \<longleftrightarrow> nprocs n \<le> NPROCS \<and> proc_id n < nprocs n \<and>
     bit (br_mask (barrier_array n bid)) (proc_id n) \<and> distinct (map rq_from rs) \<and>
     (\<forall>r \<in> set rs. rq_id r = bid \<and> rq_from r \<in> set (others n)) \<and>
     (\<exists>H. arrived_at bid n H \<and> dom H \<inter> rq_from ` set rs = {} \<and> F = H ++ map_of (map (\<lambda>r. (rq_from r, r)) rs)) \<and>
     (br_repo n \<or> (\<exists>r \<in> set rs. rq_repo r) \<longleftrightarrow> flag)"

lemma hold_frame:
  assumes "sigio_buffer_hold req n = Inr n'"
  shows "node.truncate n' = node.truncate n" "barrier_array n' = barrier_array n" "br_repo n' = br_repo n"
  using assms by (auto simp: sigio_buffer_hold_def Let_def node.truncate_def split: if_splits)

lemma arrived_at_hold:
  assumes at: "arrived_at bid n H" and r: "rq_from r \<notin> dom H" "rq_from r \<in> set (others n)" and np: "nprocs n \<le> NPROCS" "proc_id n < nprocs n"
  obtains n1 where "sigio_buffer_hold r n = Inr n1"
    "arrived_at bid (upd_barrier bid (\<lambda>b. b\<lparr>br_mask := br_mask b OR proc_bit (rq_from r)\<rparr>) n1) (H(rq_from r \<mapsto> r))"
proof -
  from at have inv: "buffer_inv n (dom H)" and d: "dom H \<subseteq> set (others n)"
    and bits: "\<And>k. k \<noteq> proc_id n \<Longrightarrow> bit (br_mask (barrier_array n bid)) k = (k \<in> dom H)"
    and own: "\<And>j s. H j = Some s \<Longrightarrow> sigio_buffer n (req_from n j) = s \<and> rq_from s = j" by (auto simp: arrived_at_def)
  have "card (dom H) < NPROCS" using held_buffers_card [where h = H and np = "nprocs n" and me = "proc_id n"] d np by (simp add: set_others)
  from hold_inv [OF inv r(1) this] obtain n1 where h: "sigio_buffer_hold r n = Inr n1"
    "buffer_inv n1 (insert (rq_from r) (dom H))" "sigio_buffer n1 (req_from n1 (rq_from r)) = r"
    "\<And>j. j \<in> dom H \<Longrightarrow> sigio_buffer n1 (req_from n1 j) = sigio_buffer n (req_from n j)" by blast
  note fr = hold_frame [OF h(1)] truncate_fields(1,2) [OF hold_frame(1) [OF h(1)]]
  let ?n = "upd_barrier bid (\<lambda>b. b\<lparr>br_mask := br_mask b OR proc_bit (rq_from r)\<rparr>) n1" and ?H = "H(rq_from r \<mapsto> r)"
  have dom: "dom ?H = insert (rq_from r) (dom H)" by simp
  have f: "rq_from r < NPROCS" using r(2) np by (auto simp: set_others)
  have "buffer_inv ?n (dom ?H)" using h(2) buffer_inv_cong [of ?n n1] unfolding dom by (simp add: upd_barrier_def)
  moreover have "dom ?H \<subseteq> set (others ?n)" using d r(2) fr unfolding dom by (simp add: others_def upd_barrier_def)
  moreover have "sigio_buffer ?n (req_from ?n j) = s \<and> rq_from s = j" if "?H j = Some s" for j s
    using that h(3,4) own by (cases "j = rq_from r") (auto simp: upd_barrier_def domI)
  moreover have "bit (br_mask (barrier_array ?n bid)) k = (k \<in> dom ?H)" if "k \<noteq> proc_id ?n" for k
    using that bits fr f unfolding dom by (auto simp: upd_barrier_def bit_or_iff bit_proc_bit)
  ultimately have "arrived_at bid ?n ?H" unfolding arrived_at_def by blast
  with h(1) show ?thesis by (rule that)
qed

lemma late_deliver:
  fixes n :: "'a bnode_scheme"
  assumes ready: "late_ready bid F flag (r # rs) n"
  shows "\<exists>k :: 'a bnode_scheme. node.truncate k = node.truncate n \<and>
     (\<forall>arg m. Tmk_interval_incorporate (rq_data r) Vt_null k = Some (arg, m) \<longrightarrow>
        (\<exists>m'. barrier_deliver r n = Inr m' \<and> node.truncate m' = node.truncate m \<and> late_ready bid F flag rs m'))"
proof -
  from ready obtain H where at: "arrived_at bid n H" and dj: "dom H \<inter> rq_from ` set (r # rs) = {}"
    and F: "F = H ++ map_of (map (\<lambda>r. (rq_from r, r)) (r # rs))" and np: "nprocs n \<le> NPROCS" "proc_id n < nprocs n"
    and own: "bit (br_mask (barrier_array n bid)) (proc_id n)" and dist: "distinct (map rq_from (r # rs))"
    and rs: "\<And>s. s \<in> set (r # rs) \<Longrightarrow> rq_id s = bid \<and> rq_from s \<in> set (others n)"
    and flag: "br_repo n \<or> (\<exists>s \<in> set (r # rs). rq_repo s) \<longleftrightarrow> flag"
    unfolding late_ready_def by blast
  obtain n1 where n1: "sigio_buffer_hold r n = Inr n1"
    "arrived_at bid (upd_barrier bid (\<lambda>b. b\<lparr>br_mask := br_mask b OR proc_bit (rq_from r)\<rparr>) n1) (H(rq_from r \<mapsto> r))"
    by (rule arrived_at_hold [OF at _ _ np]) (use dj rs in auto)
  define k where "k = upd_barrier bid (\<lambda>b. b\<lparr>br_mask := br_mask b OR proc_bit (rq_from r)\<rparr>) n1"
  note fr = hold_frame [OF n1(1)]
  have tk: "node.truncate k = node.truncate n" using fr(1) by (simp add: k_def upd_barrier_def node.truncate_def)
  have kf: "proc_id k = proc_id n" "nprocs k = nprocs n" "br_repo k = br_repo n"
    using truncate_fields(1,2) [OF tk] fr(3) by (simp_all add: k_def upd_barrier_def)
  have ownk: "bit (br_mask (barrier_array k bid)) (proc_id k)"
    using own fr(2) kf(1) by (simp add: k_def upd_barrier_def bit_or_iff)
  have "br_mask (barrier_array k bid) AND proc_bit (proc_id k) \<noteq> 0"
    using ownk and_proc_bit [of "proc_id k"] np kf by simp
  then have del: "barrier_deliver r n = incorporate_arrival r k"
    using rs [of r] by (simp add: barrier_deliver_def n1(1) Tmk_barrier_sigio_handler_def Let_def flip: k_def)
  have "\<exists>m'. barrier_deliver r n = Inr m' \<and> node.truncate m' = node.truncate m \<and> late_ready bid F flag rs m'"
    if m: "Tmk_interval_incorporate (rq_data r) Vt_null k = Some (arg, m)" for arg m
  proof -
    define m' where "m' = (if rq_repo r then m\<lparr>br_repo := True\<rparr> else m)"
    have acc: "incorporate_arrival r k = Inr m'" using m by (simp add: incorporate_arrival_def m'_def)
    note mf = incorporate_arrival_frame [OF acc]
    have "arrived_at bid m' (H(rq_from r \<mapsto> r))" using incorporate_arrived_at [OF acc] n1(2) by (simp add: k_def)
    moreover have "dom (H(rq_from r \<mapsto> r)) \<inter> rq_from ` set rs = {}" using dj dist by auto
    moreover have "F = H(rq_from r \<mapsto> r) ++ map_of (map (\<lambda>r. (rq_from r, r)) rs)"
    proof -
      have "map_of (map (\<lambda>r. (rq_from r, r)) rs) (rq_from r) = None"
        using dist by (auto simp: map_of_eq_None_iff image_image)
      then show ?thesis unfolding F by (auto simp: map_add_def fun_eq_iff split: option.splits)
    qed
    ultimately have "\<exists>H. arrived_at bid m' H \<and> dom H \<inter> rq_from ` set rs = {} \<and> F = H ++ map_of (map (\<lambda>r. (rq_from r, r)) rs)"
      by blast
    moreover have "br_repo m' \<or> (\<exists>s \<in> set rs. rq_repo s) \<longleftrightarrow> flag" using flag mf(2) kf(3) by auto
    moreover have "rq_id s = bid \<and> rq_from s \<in> set (others m')" if "s \<in> set rs" for s
      using rs [of s] that mf(7,8) kf by (simp add: others_def)
    ultimately have "late_ready bid F flag rs m'"
      using np ownk dist mf(1,7,8) kf unfolding late_ready_def by simp
    moreover have "node.truncate m' = node.truncate m" by (simp add: m'_def node.truncate_def)
    ultimately show ?thesis using acc del by simp
  qed
  with tk show ?thesis by blast
qed

interpretation late_gather: gathering barrier_deliver "late_ready bid F flag" for bid F flag
  by unfold_locales (rule late_deliver)

text \<open>The answers, when every other process has a request in its buffer.\<close>

lemma interval_request_cong:
  "nprocs m = nprocs n \<Longrightarrow> proc_array m = proc_array n \<Longrightarrow> Tmk_interval_request m vt = Tmk_interval_request n vt"
  by (simp add: Tmk_interval_request_def Tmk_interval_request_proc_def intervals_after_def)

definition departure :: "'a bnode_scheme \<Rightarrow> nat \<Rightarrow> req_arrival \<Rightarrow> barrier_send" where
  "departure n j r = Send_departure j (rq_seqno r) (br_repo n) (Tmk_interval_request n (rq_vector_time r))"

lemma release_frame:
  assumes "Tmk_sigio_buffer_release b n = Inr n'"
  shows "node.truncate n' = node.truncate n" "barrier_array n' = barrier_array n" "br_repo n' = br_repo n"
  using assms by (auto simp: Tmk_sigio_buffer_release_def node.truncate_def split: if_splits)

lemma barrier_answers_eq:
  assumes "buffer_inv n held" "set js \<subseteq> held" "distinct js"
  shows "\<exists>n'. barrier_answers js n = Inr (map (\<lambda>j. departure n j (sigio_buffer n (req_from n j))) js, n') \<and>
    node.truncate n' = node.truncate n \<and> buffer_inv n' (held - set js) \<and> barrier_array n' = barrier_array n \<and> br_repo n' = br_repo n"
  using assms
proof (induction js arbitrary: n held)
  case Nil
  then show ?case by simp
next
  case (Cons j js)
  obtain m where m: "Tmk_sigio_buffer_release (req_from n j) n = Inr m" "buffer_inv m (held - {j})"
    "req_from m = req_from n" "sigio_buffer m = sigio_buffer n"
    using release_inv [OF Cons.prems(1), of j] Cons.prems(2) by auto
  note fr = release_frame [OF m(1)]
  have sub: "set js \<subseteq> held - {j}" and dist: "distinct js" using Cons.prems(2,3) by auto
  from Cons.IH [OF m(2) sub dist] obtain n' where
    n': "barrier_answers js m = Inr (map (\<lambda>j. departure m j (sigio_buffer m (req_from m j))) js, n')"
      "node.truncate n' = node.truncate m" "buffer_inv n' (held - {j} - set js)" "barrier_array n' = barrier_array m" "br_repo n' = br_repo m"
    by blast
  have "departure m = departure n" by (intro ext) (simp add: departure_def fr(3) interval_request_cong [OF truncate_fields(2,10) [OF fr(1)]])
  moreover have "held - {j} - set js = held - set (j # js)" by auto
  ultimately show ?case
    using n' m(1,3,4) fr by (intro exI [of _ n']) (simp add: Let_def departure_def)
qed

lemma accept_all_frame:
  "accept_all incorporate_arrival rs n = Inr n' \<Longrightarrow>
   (arrived_at bid n H \<longrightarrow> arrived_at bid n' H) \<and> (br_repo n' \<longleftrightarrow> br_repo n \<or> (\<exists>r \<in> set rs. rq_repo r)) \<and>
   barrier_array n' = barrier_array n \<and> proc_id n' = proc_id n \<and> nprocs n' = nprocs n"
proof (induction rs arbitrary: n)
  case (Cons r rs)
  then obtain m where m: "incorporate_arrival r n = Inr m" "accept_all incorporate_arrival rs m = Inr n'"
    by (auto simp: tmk_bind_Inr_iff)
  with Cons.IH [OF m(2)] incorporate_arrival_frame(1,2,7,8) [OF m(1)] incorporate_arrived_at [OF m(1)] show ?case by auto
qed simp

lemma concat_single: "distinct js \<Longrightarrow> concat (map (\<lambda>j. if j = i then f j else []) js) = (if i \<in> set js then f i else [])"
  by (induction js) auto

text \<open>The manager arrives: the requests in \<open>H\<close> are incorporated, and the later ones can be handled.\<close>

lemma barrier_gather_inv:
  fixes repo :: bool
  assumes inv: "node_inv n [] is free" and np: "nprocs n \<le> NPROCS" "proc_id n < nprocs n" and at: "arrived_at bid n H"
    and late: "distinct (map rq_from rs)" "rq_from ` set rs \<subseteq> set (others n) - dom H" "\<forall>r \<in> set rs. rq_id r = bid"
    and acc: "\<And>r. r \<in> ran H \<union> set rs \<Longrightarrow> acceptable n r (ivs r)"
  defines "F \<equiv> H ++ map_of (map (\<lambda>r. (rq_from r, r)) rs)" and "flag \<equiv> repo \<or> (\<exists>r \<in> ran H \<union> set rs. rq_repo r)"
  shows "\<exists>n1 is' free'. barrier_gather bid repo n = Inr n1 \<and> late_ready bid F flag rs n1 \<and> node_inv n1 [] is' free' \<and>
    base_setup n n1 \<and> invalidated n is n1 is' (\<Union>r \<in> ran H. named_pages (ivs r)) \<and>
    (\<forall>r \<in> set rs. acceptable n1 r (ivs r)) \<and>
    (\<forall>i. i \<noteq> proc_id n \<longrightarrow> proc_array n1 i = proc_array n i @ (case H i of None \<Rightarrow> [] | Some r \<Rightarrow> map norm_interval (ivs r)))"
proof -
  let ?n = "n\<lparr>br_repo := repo\<rparr>"
  define js where "js = filter (\<lambda>j. j \<in> dom H) (others n)"
  define early where "early = map (\<lambda>j. the (H j)) js"
  have tr: "node.truncate ?n = node.truncate n" by (simp add: node.truncate_def)
  have at0: "arrived_at bid ?n H" by (rule arrived_at_cong [OF at]) simp_all
  have from_j: "rq_from (the (H j)) = j" if "j \<in> dom H" for j using at that by (auto simp: arrived_at_def)
  have sj: "set js = dom H" using at by (auto simp: arrived_at_def js_def)
  have froms: "map rq_from early = js" unfolding early_def map_map by (rule map_idI) (use sj from_j in auto)
  have dist: "distinct (map rq_from early)" unfolding froms by (simp add: js_def others_def)
  have early: "set early = ran H" unfolding early_def set_map sj by (force simp: ran_def image_iff)
  have me: "rq_from r \<noteq> proc_id n" "rq_from r \<in> dom H" if "r \<in> ran H" for r
    using that at from_j by (auto simp: arrived_at_def ran_def set_others)
  have be: "barrier_early bid (others n) ?n = accept_all incorporate_arrival early ?n"
    using barrier_early_eq [OF at0] np by (simp add: others_def early_def js_def)
  have "\<exists>m is' free'. accept_all incorporate_arrival early ?n = Inr m \<and> True \<and> node_inv m [] is' free' \<and> base_setup ?n m \<and>
    invalidated ?n is m is' (\<Union>r \<in> set early. named_pages (ivs r)) \<and>
    (\<forall>i. i \<noteq> proc_id ?n \<longrightarrow> proc_array m i = proc_array ?n i @ concat (map (\<lambda>r. if rq_from r = i then map norm_interval (ivs r) else []) early)) \<and>
    (\<forall>i. i \<noteq> proc_id ?n \<and> i \<notin> rq_from ` set early \<longrightarrow> proc_vector_time m i = proc_vector_time ?n i)"
  proof (rule arrival_gather.gather)
    show "node_inv ?n [] is free" using inv node_inv_truncate [OF tr] by simp
    show "acceptable ?n r (ivs r)" if "r \<in> set early" for r
      using acc [of r] that acceptable_truncate [OF tr] unfolding early by simp
    show "rq_from r \<noteq> proc_id ?n" if "r \<in> set early" for r using me that early by simp
  qed (use dist in simp_all)
  moreover have bs: "base_setup ?n k = base_setup n k" and iv: "invalidated ?n is k is1 S = invalidated n is k is1 S"
    for k is1 S by (simp_all add: base_setup_def invalidated_def)
  moreover have flds: "proc_id ?n = proc_id n" "proc_array ?n = proc_array n" "proc_vector_time ?n = proc_vector_time n" by simp_all
  moreover have img: "rq_from ` ran H = dom H" using froms sj early by (metis set_map)
  ultimately obtain m is' free' where m: "accept_all incorporate_arrival early ?n = Inr m" "node_inv m [] is' free'" "base_setup n m"
    "invalidated n is m is' (\<Union>r \<in> ran H. named_pages (ivs r))"
    "\<And>i. i \<noteq> proc_id n \<Longrightarrow> proc_array m i = proc_array n i @ concat (map (\<lambda>r. if rq_from r = i then map norm_interval (ivs r) else []) early)"
    "\<And>i. i \<noteq> proc_id n \<Longrightarrow> i \<notin> dom H \<Longrightarrow> proc_vector_time m i = proc_vector_time n i"
    unfolding bs iv flds early img by blast
  note fr = accept_all_frame [OF m(1), of bid H]
  define n1 where "n1 = upd_barrier bid (\<lambda>b. b\<lparr>br_mask := br_mask b OR proc_bit (proc_id m)\<rparr>) m"
  have g: "barrier_gather bid repo n = Inr n1" using be m(1) by (simp add: barrier_gather_def n1_def)
  have t1: "node.truncate n1 = node.truncate m" by (simp add: n1_def upd_barrier_def node.truncate_def)
  note f1 = truncate_fields [OF t1]
  have pm: "proc_id m = proc_id n" "nprocs m = nprocs n" using fr by simp_all
  have mask: "bit (br_mask (barrier_array n1 bid)) k \<longleftrightarrow> bit (br_mask (barrier_array m bid)) k \<or> k < NPROCS \<and> k = proc_id n" for k
    by (simp add: n1_def upd_barrier_def bit_or_iff bit_proc_bit pm)
  have "arrived_at bid m H" using fr at0 by blast
  then have "arrived_at bid n1 H"
    using mask f1(1,2) pm buffer_inv_cong [of n1 m]
    by (simp add: arrived_at_def others_def) (simp add: n1_def upd_barrier_def)
  moreover have "bit (br_mask (barrier_array n1 bid)) (proc_id n1)" using mask np f1(1) pm by simp
  moreover have "br_repo n1 \<or> (\<exists>r \<in> set rs. rq_repo r) \<longleftrightarrow> flag"
    using fr unfolding early by (auto simp: flag_def n1_def upd_barrier_def)
  moreover have "rq_id r = bid \<and> rq_from r \<in> set (others n1)" if "r \<in> set rs" for r
    using that late f1 pm by (auto simp: others_def)
  ultimately have "late_ready bid F flag rs n1"
    unfolding late_ready_def F_def using np late f1(1,2) pm by (auto intro!: exI [of _ H])
  moreover have "base_setup n n1" using m(3) f1 by (simp add: base_setup_def)
  moreover have "acceptable n1 r (ivs r)" if "r \<in> set rs" for r
  proof (rule acceptable_later [OF acc \<open>base_setup n n1\<close>])
    have "rq_from r \<in> set (others n) - dom H" using that late(2) by blast
    then show "proc_vector_time n1 (rq_from r) = proc_vector_time n (rq_from r)" using m(6) f1(11) by (simp add: set_others)
  qed (use that in simp)
  moreover have "concat (map (\<lambda>r. if rq_from r = i then map norm_interval (ivs r) else []) early) =
      (case H i of None \<Rightarrow> [] | Some r \<Rightarrow> map norm_interval (ivs r))" for i
  proof -
    have "map (\<lambda>r. if rq_from r = i then map norm_interval (ivs r) else []) early =
        map (\<lambda>j. if j = i then map norm_interval (ivs (the (H j))) else []) js"
      unfolding early_def map_map by (rule map_cong) (use sj from_j in auto)
    then have "concat (map (\<lambda>r. if rq_from r = i then map norm_interval (ivs r) else []) early) =
        (if i \<in> dom H then map norm_interval (ivs (the (H i))) else [])"
      using concat_single [of js i "\<lambda>j. map norm_interval (ivs (the (H j)))"] dist unfolding froms sj by simp
    then show ?thesis by (cases "H i") (auto simp: domI)
  qed
  ultimately show ?thesis
    using g m(2,4,5) f1 node_inv_truncate [OF t1]
    by (intro exI [of _ n1] exI [of _ is'] exI [of _ free']) (simp add: invalidated_def)
qed

lemma inval_perform_locks: "Tmk_page_inval_perform n = Some n' \<Longrightarrow> same_locks n n'"
  by (auto simp: Tmk_page_inval_perform_def Let_def same_locks_def split: if_splits)

text \<open>The last request has been handled: the manager answers and performs the invalidations.\<close>

lemma barrier_depart_inv:
  assumes inv: "node_inv n [] is free" and ready: "late_ready bid F flag [] n" and all: "dom F = set (others n)"
  shows "\<exists>n'. barrier_depart bid n = Some (Inr (map (\<lambda>j. departure n' j (the (F j))) (others n), n')) \<and>
    node_inv n' [] [] free \<and> arrived_at bid n' Map.empty \<and> br_repo n' = flag \<and> proc_array n' = proc_array n \<and> mem n' = mem n \<and>
    (\<forall>q. pg_state (page_array n' q) = pg_state (page_array n q)) \<and>
    (\<forall>q. protection n' q = (if q \<in> covered is then PROT_NONE else protection n q))"
proof -
  from ready have at: "arrived_at bid n F" and np: "nprocs n \<le> NPROCS" "proc_id n < nprocs n"
    and own: "bit (br_mask (barrier_array n bid)) (proc_id n)" and flag: "br_repo n = flag" by (auto simp: late_ready_def)
  have "bit (br_mask (barrier_array n bid)) k \<longleftrightarrow> k < nprocs n" for k
    using at own all np by (cases "k = proc_id n") (auto simp: arrived_at_def set_others)
  then have mask: "br_mask (barrier_array n bid) XOR Tmk_spinmask (nprocs n) = 0"
    using np unfolding xor_eq_0_iff by (intro bit_word_eqI) (simp add: bit_spinmask)
  define m where "m = upd_barrier bid (br_mask_update (\<lambda>_. 0)) n"
  have tm: "node.truncate m = node.truncate n" by (simp add: m_def upd_barrier_def node.truncate_def)
  have om: "others m = others n" using truncate_fields(1,2) [OF tm] by (simp add: others_def)
  have buf: "buffer_inv m (set (others n))"
    using at all buffer_inv_cong [of m n] by (simp add: arrived_at_def m_def upd_barrier_def)
  have "distinct (others n)" by (simp add: others_def)
  from barrier_answers_eq [OF buf order_refl this] obtain k where
    k: "barrier_answers (others n) m = Inr (map (\<lambda>j. departure m j (sigio_buffer m (req_from m j))) (others n), k)"
      "node.truncate k = node.truncate m" "buffer_inv k {}" "barrier_array k = barrier_array m" "br_repo k = br_repo m" by auto
  have inv_k: "node_inv k [] is free" using inv node_inv_truncate [OF k(2)] node_inv_truncate [OF tm] by simp
  obtain n' where n': "Tmk_page_inval_perform k = Some n'" "node_inv n' [] [] free"
    "\<And>q. pg_state (page_array n' q) = pg_state (page_array k q)"
    "\<And>q. protection n' q = (if q \<in> covered is then PROT_NONE else protection k q)" "mem n' = mem k" "proc_array n' = proc_array k"
    by (rule inval_perform_inv [OF inv_k]) (rule that)
  have "same_locks k n'" using n'(1) by (rule inval_perform_locks)
  note fr = same_locks_barrier [OF this] and kf = truncate_fields [OF k(2)] and mf = truncate_fields [OF tm]
  have "sigio_buffer m (req_from m j) = the (F j)" if "j \<in> set (others n)" for j
  proof -
    have "j \<in> dom F" using that all by simp
    then obtain r where r: "F j = Some r" by (auto simp: dom_def)
    moreover from at r have "sigio_buffer n (req_from n j) = r" unfolding arrived_at_def by blast
    ultimately show ?thesis by (simp add: m_def upd_barrier_def)
  qed
  moreover have "departure m j r = departure n' j r" for j r
  proof -
    have "nprocs n' = nprocs m" "proc_array n' = proc_array m" "br_repo n' = br_repo m"
      using fr(2,8) k(5) n'(6) kf(2,10) by simp_all
    from interval_request_cong [OF this(1,2)] this(3) show ?thesis by (simp add: departure_def)
  qed
  ultimately have "map (\<lambda>j. departure m j (sigio_buffer m (req_from m j))) (others n) = map (\<lambda>j. departure n' j (the (F j))) (others n)"
    by (intro map_cong) simp_all
  with k(1) have "barrier_answers (others m) m = Inr (map (\<lambda>j. departure n' j (the (F j))) (others n), k)" by (simp only: om)
  then have "barrier_depart bid n = Some (Inr (map (\<lambda>j. departure n' j (the (F j))) (others n), n'))"
    unfolding barrier_depart_def Let_def m_def [symmetric] using mask n'(1) by simp
  moreover have "arrived_at bid n' Map.empty"
    using k(3,4) fr buffer_inv_cong [of n' k] by (simp add: arrived_at_def m_def upd_barrier_def)
  moreover have "br_repo n' = flag" using fr(2) k(5) flag by (simp add: m_def upd_barrier_def)
  ultimately show ?thesis
    using n' kf mf by (intro exI [of _ n']) simp
qed

text \<open>
  C25: The manager of a barrier, whatever requests arrived before it did (\<open>H\<close>) and in whatever order the
  others (\<open>rs\<close>) arrive afterwards: when all have arrived it leaves in a coherent state that has
  incorporated the intervals of every process, in which every page they name is no longer valid; it answers
  every process once, with its sequence number and the intervals its vector time lacks, asks for a
  reclamation exactly if some process did, and all buffers are free again.
\<close>

theorem barrier_manager_gathers:
  fixes n :: "'a bnode_scheme"
  assumes inv: "node_inv n [] [] free" and np: "nprocs n \<le> NPROCS" "proc_id n < nprocs n" and at: "arrived_at bid n H"
    and late: "distinct (map rq_from rs)" "rq_from ` set rs = set (others n) - dom H" "\<forall>r \<in> set rs. rq_id r = bid"
    and acc: "\<forall>r \<in> ran H \<union> set rs. acceptable n r (ivs r)"
  shows "\<exists>n1 n2 ms n3. barrier_gather bid repo n = Inr n1 \<and> accept_all barrier_deliver rs n1 = Inr n2 \<and>
    barrier_depart bid n2 = Some (Inr (ms, n3)) \<and> coherent n3 \<and> mem n3 = mem n \<and> arrived_at bid n3 Map.empty \<and>
    (\<forall>r \<in> ran H \<union> set rs. \<forall>iv \<in> set (ivs r). norm_interval iv \<in> set (proc_array n3 (rq_from r)) \<and>
       (\<forall>p \<in> range_pages (iv_ranges iv). pg_state (page_array n3 p) \<noteq> Valid)) \<and>
    (\<forall>p. (\<forall>r \<in> ran H \<union> set rs. p \<notin> named_pages (ivs r)) \<longrightarrow>
       pg_state (page_array n3 p) = pg_state (page_array n p) \<and> protection n3 p = protection n p) \<and>
    ms = map (\<lambda>j. departure n3 j (the ((H ++ map_of (map (\<lambda>r. (rq_from r, r)) rs)) j))) (others n) \<and>
    br_repo n3 = (repo \<or> (\<exists>r \<in> ran H \<union> set rs. rq_repo r))"
proof -
  let ?F = "H ++ map_of (map (\<lambda>r. (rq_from r, r)) rs)" and ?flag = "repo \<or> (\<exists>r \<in> ran H \<union> set rs. rq_repo r)"
  have sub: "rq_from ` set rs \<subseteq> set (others n) - dom H" using late(2) by simp
  obtain n1 is1 free1 where n1: "barrier_gather bid repo n = Inr n1" "late_ready bid ?F ?flag rs n1" "node_inv n1 [] is1 free1"
    "base_setup n n1" "invalidated n [] n1 is1 (\<Union>r \<in> ran H. named_pages (ivs r))" "\<And>r. r \<in> set rs \<Longrightarrow> acceptable n1 r (ivs r)"
    "\<And>i. i \<noteq> proc_id n \<Longrightarrow> proc_array n1 i = proc_array n i @ (case H i of None \<Rightarrow> [] | Some r \<Rightarrow> map norm_interval (ivs r))"
    using barrier_gather_inv [OF inv np at late(1) sub late(3), of ivs repo] acc by blast
  have me: "proc_id n1 = proc_id n" "nprocs n1 = nprocs n" using n1(4) by (simp_all add: base_setup_def)
  have from_other: "rq_from r \<in> set (others n)" if "r \<in> set rs" for r using sub imageI [OF that, of rq_from] by blast
  obtain n2 is2 free2 where n2: "accept_all barrier_deliver rs n1 = Inr n2" "late_ready bid ?F ?flag [] n2" "node_inv n2 [] is2 free2"
    "base_setup n1 n2" "invalidated n1 is1 n2 is2 (\<Union>r \<in> set rs. named_pages (ivs r))"
    "\<And>i. i \<noteq> proc_id n1 \<Longrightarrow> proc_array n2 i = proc_array n1 i @ concat (map (\<lambda>r. if rq_from r = i then map norm_interval (ivs r) else []) rs)"
    using late_gather.gather [OF n1(3) late(1) n1(6) n1(2)] from_other me(1) by (auto simp: set_others)
  have o2: "others n2 = others n" using n2(4) me by (simp add: others_def base_setup_def)
  have dom: "dom ?F = set (others n2)"
    using late(2) at unfolding o2 by (auto simp: arrived_at_def dom_map_of_conv_image_fst image_image)
  obtain n3 where n3: "barrier_depart bid n2 = Some (Inr (map (\<lambda>j. departure n3 j (the (?F j))) (others n2), n3))"
    "node_inv n3 [] [] free2" "arrived_at bid n3 Map.empty" "br_repo n3 = ?flag" "proc_array n3 = proc_array n2" "mem n3 = mem n2"
    "\<And>q. pg_state (page_array n3 q) = pg_state (page_array n2 q)"
    "\<And>q. protection n3 q = (if q \<in> covered is2 then PROT_NONE else protection n2 q)"
    using barrier_depart_inv [OF n2(3,2) dom] by blast
  have iv: "invalidated n [] n2 is2 ((\<Union>r \<in> ran H. named_pages (ivs r)) \<union> (\<Union>r \<in> set rs. named_pages (ivs r)))"
    by (rule invalidated_trans [OF n1(5) n2(5)])
  have rec: "norm_interval iv \<in> set (proc_array n3 (rq_from r))" if r: "r \<in> ran H \<union> set rs" "iv \<in> set (ivs r)" for r iv
  proof (cases "r \<in> set rs")
    case True
    with from_other me n2(6) [of "rq_from r"] r(2) show ?thesis by (auto simp: n3(5) set_others)
  next
    case False
    with r at have "H (rq_from r) = Some r" "rq_from r \<in> set (others n)"
      by (auto simp: arrived_at_def ran_def subset_iff domI)
    with me n2(6) [of "rq_from r"] n1(7) [of "rq_from r"] r(2) show ?thesis by (simp add: n3(5) set_others)
  qed
  have "coherent n3" using n3(2) by (rule coherentI)
  moreover have "mem n3 = mem n" using n3(6) n2(4) n1(4) by (simp add: base_setup_def)
  moreover have "pg_state (page_array n3 p) \<noteq> Valid" if "r \<in> ran H \<union> set rs" "iv \<in> set (ivs r)" "p \<in> range_pages (iv_ranges iv)" for r iv p
    using iv that by (auto simp: n3(7) invalidated_def named_pages_def)
  moreover have "pg_state (page_array n3 p) = pg_state (page_array n p) \<and> protection n3 p = protection n p"
    if "\<forall>r \<in> ran H \<union> set rs. p \<notin> named_pages (ivs r)" for p
    using iv that n2(4) n1(4) by (auto simp: n3(7,8) invalidated_def base_setup_def covered_def)
  ultimately show ?thesis
    using n1(1) n2(1) n3(1,3,4) rec unfolding o2
    by (intro exI [of _ n1] exI [of _ n2] exI [of _ "map (\<lambda>j. departure n3 j (the (?F j))) (others n)"] exI [of _ n3]) blast
qed

section \<open>Witnesses\<close>

text \<open>Process 1 of two, manager of barrier 1; process 0 has written pages 3 to 5.\<close>

definition barrier_demo :: bnode where
  "barrier_demo = snode.extend (Tmk_sigio_initialize (buffer_demo\<lparr>proc_id := 1, nprocs := 2\<rparr>))
     (bnode.fields (\<lambda>_. \<lparr>br_manager = 1, br_mask = 0\<rparr>) False)"

definition writer_arrival :: req_arrival where
  "writer_arrival = \<lparr>rq_seqno = 32, rq_from = 0, rq_id = 1, rq_vector_time = (\<lambda>_. 0)(0 := 1), rq_repo = True,
     rq_data = encode_interval 0 writer_interval\<rparr>"

lemma barrier_demo_fields:
  "node.truncate barrier_demo = demo_node" "proc_id barrier_demo = 1" "nprocs barrier_demo = 2"
  "br_mask (barrier_array barrier_demo bid) = 0" "proc_vector_time barrier_demo = (\<lambda>_. 0)"
proof -
  have "node.truncate demo_lnode = demo_node"
    by (simp add: demo_lnode_def Tmk_lock_initialize_def node.defs lnode.defs)
  then show tr: "node.truncate barrier_demo = demo_node"
    by (simp add: demo_lnode_fields(1,9) barrier_demo_def buffer_demo_def repo_demo_3_def Tmk_sigio_initialize_def node.defs lnode.defs rnode.defs snode.defs bnode.defs)
  have "node.truncate demo_node = demo_node" by (simp add: node.truncate_def)
  with tr have "node.truncate barrier_demo = node.truncate demo_node" by simp
  from truncate_fields(1,2,11) [OF this] show "proc_id barrier_demo = 1" "nprocs barrier_demo = 2"
    "proc_vector_time barrier_demo = (\<lambda>_. 0)"
    by (simp_all add: demo_node_simps demo_node_def Tmk_page_initialize_def Let_def zero_defs)
  show "br_mask (barrier_array barrier_demo bid) = 0" by (simp add: barrier_demo_def snode.defs bnode.defs)
qed

lemma barrier_demo_inv: "node_inv barrier_demo [] [] []"
proof -
  have "node.truncate barrier_demo = node.truncate demo_node" using barrier_demo_fields(1) by (simp add: node.truncate_def)
  from node_inv_truncate [OF this] demo_node_inv show ?thesis by simp
qed

lemma barrier_demo_waiting: "arrived_at bid barrier_demo Map.empty"
proof -
  have "sigio_buffer_tos (buffer_demo\<lparr>proc_id := 1, nprocs := 2\<rparr>) = 0" by (simp add: buffer_demo_def rnode.defs snode.defs)
  from initialize_buffers [OF this] have "buffer_inv barrier_demo {}"
    using buffer_inv_cong [of barrier_demo "Tmk_sigio_initialize (buffer_demo\<lparr>proc_id := 1, nprocs := 2\<rparr>)"]
    by (simp add: barrier_demo_def snode.defs bnode.defs)
  then show ?thesis by (simp add: arrived_at_def barrier_demo_fields)
qed

lemma writer_acceptable: "acceptable barrier_demo writer_arrival [writer_interval]"
proof -
  have "npages barrier_demo = 16"
    using barrier_demo_fields(1) truncate_fields(3) [of barrier_demo demo_node] demo_node_simps(1) by (simp add: node.truncate_def)
  moreover have "wf_interval 0 writer_interval"
    using writer_node_wf by (simp add: wf_intervals_def)
  ultimately show ?thesis
    by (auto simp: acceptable_def carries_def receivable_def writer_arrival_def writer_interval_def barrier_demo_fields ranges_fit_def)
qed

theorem barrier_manager_gathers_witness:
  "\<exists>n1 n2 ms n3. barrier_gather 1 False barrier_demo = Inr n1 \<and> accept_all barrier_deliver [writer_arrival] n1 = Inr n2 \<and>
     barrier_depart 1 n2 = Some (Inr (ms, n3)) \<and> coherent n3 \<and> pg_state (page_array n3 4) \<noteq> Valid \<and> br_repo n3"
proof -
  have o: "set (others barrier_demo) = {0}" by (auto simp: set_others barrier_demo_fields)
  have p: "4 \<in> range_pages (iv_ranges writer_interval)" by (simp add: writer_interval_def)
  have "distinct (map rq_from [writer_arrival])" "rq_from ` set [writer_arrival] = set (others barrier_demo) - dom Map.empty"
    "\<forall>r \<in> set [writer_arrival]. rq_id r = 1" by (simp_all add: o writer_arrival_def)
  from barrier_manager_gathers [OF barrier_demo_inv _ _ barrier_demo_waiting this, of "\<lambda>_. [writer_interval]" False]
  obtain n1 n2 ms n3 where "barrier_gather 1 False barrier_demo = Inr n1" "accept_all barrier_deliver [writer_arrival] n1 = Inr n2"
    "barrier_depart 1 n2 = Some (Inr (ms, n3))" "coherent n3" "br_repo n3"
    "\<forall>p \<in> range_pages (iv_ranges writer_interval). pg_state (page_array n3 p) \<noteq> Valid"
    using writer_acceptable by (auto simp: barrier_demo_fields writer_arrival_def)
  with p show ?thesis by blast
qed

theorem barrier_waits_witness:
  "\<exists>n1 n2. Tmk_barrier_sigio_handler (demo_arrival 0) barrier_demo = Inr n1 \<and> barrier_depart 0 n1 = None \<and>
     barrier_gather 0 False n1 = Inr n2 \<and> barrier_depart 0 n2 \<noteq> None"
proof -
  have bits: "proc_bit 0 = 1" "proc_bit (Suc 0) = 2" by (simp_all add: proc_bit_def)
  define n1 where "n1 = upd_barrier 0 (\<lambda>b. b\<lparr>br_mask := br_mask b OR proc_bit 0\<rparr>) barrier_demo"
  have 1: "Tmk_barrier_sigio_handler (demo_arrival 0) barrier_demo = Inr n1"
    by (simp add: Tmk_barrier_sigio_handler_def Let_def demo_arrival_def upd_barrier_def barrier_demo_fields bits n1_def)
  have "others barrier_demo = [0]" by (simp add: others_def barrier_demo_fields upt_rec)
  moreover have "rq_data (sigio_buffer barrier_demo (req_from barrier_demo 0)) = []"
    by (simp add: barrier_demo_def buffer_demo_def snode.defs bnode.defs rnode.defs Tmk_sigio_initialize_def)
  ultimately obtain n2 where 2: "barrier_gather 0 False n1 = Inr n2"
    by (simp add: barrier_gather_def n1_def upd_barrier_def others_def bits barrier_demo_fields incorporate_arrival_def
        Tmk_interval_incorporate_def incorporate_loop.simps)
  have e: "barrier_event_step 0 1 (Request (demo_arrival 0)) barrier_demo n1" "barrier_event_step 0 1 (Arrive False) n1 n2"
    using 1 2 by (simp_all add: demo_arrival_def n1_def upd_barrier_def barrier_demo_fields)
  have s: "rq_from (demo_arrival 0) = 0" by (simp add: demo_arrival_def)
  have two: "{..<2} = {0, 1 :: nat}" by auto
  have "barrier_depart 0 n1 = None"
    using barrier_waits [of 0 1 "[Request (demo_arrival 0)]" barrier_demo n1] e(1) by (simp add: s barrier_demo_fields two)
  moreover have "barrier_depart 0 n2 \<noteq> None"
    using barrier_waits [of 0 1 "[Request (demo_arrival 0), Arrive False]" barrier_demo n2] e by (auto simp: s barrier_demo_fields two)
  ultimately show ?thesis using 1 2 by blast
qed

end
