(* ===== verification/Tmk_Sched.thy ===== *)
theory Tmk_Sched
  imports Tmk_Barrier
begin

text \<open>
  Fork and join, \<^verbatim>\<open>Tmk/src/sched.c\<close>.  A master calls \<^verbatim>\<open>Tmk_sched_join\<close> to gather all other processes, which wait in
  \<^verbatim>\<open>Tmk_sched_start\<close>, and \<^verbatim>\<open>Tmk_sched_fork\<close> to send them a function to call with its argument, or a null
  pointer to let them return.  Join and fork are the two halves of a barrier.  The operations are split where
  they wait; the call of the function is left to the caller of the model.
\<close>

section \<open>State\<close>

record sched =
  sc_manager :: nat
  sc_mask :: u32

text \<open>
  \<^verbatim>\<open>sc_repo\<close>, \<^verbatim>\<open>sc_func\<close> and \<^verbatim>\<open>sc_arg\<close> are the fields of \<^verbatim>\<open>rep\<close>: a function is given by its address, and its argument
  by the words of \<^verbatim>\<open>struct Tmk_sched_arg\<close>.
\<close>

record cnode = bnode +
  sched_array :: "nat \<Rightarrow> sched"
  sc_repo :: bool
  sc_func :: u32
  sc_arg :: "u32 list"

definition upd_sched :: "nat \<Rightarrow> (sched \<Rightarrow> sched) \<Rightarrow> 'a cnode_scheme \<Rightarrow> 'a cnode_scheme" where
  "upd_sched i f n = n\<lparr>sched_array := (sched_array n)(i := f (sched_array n i))\<rparr>"

record fork_msg =
  fm_seqno :: u32
  fm_repo :: bool
  fm_func :: u32
  fm_arg :: "u32 list"
  fm_data :: "u16 list"

datatype sched_send = Send_join nat req_arrival | Send_fork nat fork_msg

section \<open>The master\<close>

definition incorporate_join :: "req_arrival \<Rightarrow> 'a cnode_scheme \<Rightarrow> 'a cnode_scheme tmk_result" where
  "incorporate_join req n =
     tmk_bind (tmk_option (Tmk_interval_incorporate (rq_data req) Vt_null n)) (\<lambda>(arg, n).
       Inr (if rq_repo req then n\<lparr>sc_repo := True\<rparr> else n))"

fun join_early :: "nat list \<Rightarrow> 'a cnode_scheme \<Rightarrow> 'a cnode_scheme tmk_result" where
  "join_early [] n = Inr n"
| "join_early (j # js) n =
     (if proc_bit j AND sc_mask (sched_array n (proc_id n)) \<noteq> 0
      then tmk_bind (incorporate_join (sigio_buffer n (req_from n j)) n) (join_early js)
      else join_early js n)"

text \<open>\<^verbatim>\<open>Tmk_sched_join\<close> up to its loop, and after it (\<open>None\<close> while it spins).\<close>

definition join_gather :: "'a cnode_scheme \<Rightarrow> 'a cnode_scheme tmk_result" where
  "join_gather n =
     tmk_bind (end_interval n) (\<lambda>n.
     tmk_bind (join_early (others n) (n\<lparr>sc_repo := repo_wanted n\<rparr>)) (\<lambda>n.
       Inr (upd_sched (proc_id n) (\<lambda>s. s\<lparr>sc_mask := sc_mask s OR proc_bit (proc_id n)\<rparr>) n)))"

definition join_done :: "'a cnode_scheme \<Rightarrow> 'a cnode_scheme tmk_result option" where
  "join_done n =
     (if sc_mask (sched_array n (proc_id n)) XOR Tmk_spinmask (nprocs n) \<noteq> 0 then None
      else Some (tmk_option (Tmk_page_inval_perform n)))"

text \<open>The answer to a request, with the present contents of \<^verbatim>\<open>rep\<close>.\<close>

definition fork_reply :: "'a cnode_scheme \<Rightarrow> req_arrival \<Rightarrow> fork_msg" where
  "fork_reply n req = \<lparr>fm_seqno = rq_seqno req, fm_repo = sc_repo n, fm_func = sc_func n, fm_arg = sc_arg n,
     fm_data = Tmk_interval_request n (rq_vector_time req)\<rparr>"

fun fork_answers :: "nat list \<Rightarrow> 'a cnode_scheme \<Rightarrow> (sched_send list \<times> 'a cnode_scheme) tmk_result" where
  "fork_answers [] n = Inr ([], n)"
| "fork_answers (j # js) n =
     (let m = Send_fork j (fork_reply n (sigio_buffer n (req_from n j)))
      in tmk_bind (Tmk_sigio_buffer_release (req_from n j) n) (\<lambda>n.
           tmk_bind (fork_answers js n) (\<lambda>(ms, n). Inr (m # ms, n))))"

text \<open>
  \<^verbatim>\<open>Tmk_sched_fork\<close>; \<open>arg = None\<close> is a null pointer.  The result tells also whether \<^verbatim>\<open>Tmk_repo\<close> is called next; the
  function is called after that.
\<close>

definition Tmk_sched_fork :: "u32 \<Rightarrow> u32 list option \<Rightarrow> 'a cnode_scheme \<Rightarrow> (sched_send list \<times> bool \<times> 'a cnode_scheme) tmk_result" where
  "Tmk_sched_fork func_ptr arg n =
     (let n = n\<lparr>sc_func := func_ptr\<rparr>;
          n = (case arg of None \<Rightarrow> n | Some a \<Rightarrow> n\<lparr>sc_arg := a\<rparr>);
          n = upd_sched (proc_id n) (sc_mask_update (\<lambda>_. 0)) n
      in tmk_bind (end_interval n) (\<lambda>n.
         tmk_bind (fork_answers (others n) n) (\<lambda>(ms, n). Inr (ms, sc_repo n, sync_inverse n))))"

definition Tmk_sched_exit :: "'a cnode_scheme \<Rightarrow> (sched_send list \<times> bool \<times> 'a cnode_scheme) tmk_result" where
  "Tmk_sched_exit n = Tmk_sched_fork 0 None n"

section \<open>The other processes\<close>

text \<open>
  \<^verbatim>\<open>Tmk_sched_start\<close>: the master joins and returns, another process sends its request, and any other number is fatal.
\<close>

datatype 'n start = Master 'n | Slave "sched_send list" req_arrival 'n

definition Tmk_sched_start :: "nat \<Rightarrow> 'a cnode_scheme \<Rightarrow> 'a cnode_scheme start tmk_result" where
  "Tmk_sched_start manager n =
     (if manager = proc_id n then tmk_bind (join_gather n) (\<lambda>n. Inr (Master n))
      else if manager < nprocs n then
        tmk_bind (end_interval n) (\<lambda>n.
          let repo = repo_wanted n;
              data = Tmk_interval_request_proc n (proc_id n) (inverse_time n manager);
              n = n\<lparr>req_seqno := req_seqno n + SEQNO_INCR\<rparr>;
              req = \<lparr>rq_seqno = req_seqno n, rq_from = proc_id n, rq_id = manager, rq_vector_time = proc_vector_time n,
                     rq_repo = repo, rq_data = data\<rparr>
          in Inr (Slave [Send_join manager req] req n))
      else Inl (Errexit ''Tmk_sched_start: manager''))"

definition start_receive ::
  "nat \<Rightarrow> req_arrival \<Rightarrow> (nat \<Rightarrow> u16, fork_msg) recv_event list \<Rightarrow> (sched_send list \<times> u32 \<times> fork_msg) tmk_result option" where
  "start_receive manager req es =
     map_option (\<lambda>r. tmk_bind r (\<lambda>(vs, sz, d). Inr (map (\<lambda>vt. Send_join manager (req\<lparr>rq_vector_time := vt\<rparr>)) vs, sz, d)))
       (recv_loop ''Tmk_sched_start<recv>'' (rq_seqno req) es [])"

text \<open>
  The rest of a round; the result tells whether \<^verbatim>\<open>Tmk_repo\<close> is called.  After that the process calls the function if
  its address is not null and starts another round, otherwise \<^verbatim>\<open>Tmk_sched_start\<close> returns 0.
\<close>

definition start_forked :: "u32 \<Rightarrow> fork_msg \<Rightarrow> 'a cnode_scheme \<Rightarrow> (bool \<times> 'a cnode_scheme) tmk_result" where
  "start_forked sz m n =
     (let n = n\<lparr>sc_repo := fm_repo m, sc_func := fm_func m, sc_arg := fm_arg m\<rparr>
      in tmk_bind (tmk_option (Tmk_interval_incorporate (fm_data m) Vt_proc
           (upd_stat (\<lambda>s. s\<lparr>messages := messages s + 1, bytes := bytes s + sz\<rparr>) n)))
           (\<lambda>(arg, n). Inr (sc_repo n, sync_inverse n)))"

datatype start_next = Call u32 "u32 list" | Return int

definition start_continue :: "'a cnode_scheme \<Rightarrow> start_next" where
  "start_continue n = (if sc_func n \<noteq> 0 then Call (sc_func n) (sc_arg n) else Return 0)"

section \<open>Requests\<close>

definition Tmk_sched_sigio_handler :: "req_arrival \<Rightarrow> 'a cnode_scheme \<Rightarrow> 'a cnode_scheme tmk_result" where
  "Tmk_sched_sigio_handler req n =
     (let n = upd_sched (rq_id req) (\<lambda>s. s\<lparr>sc_mask := sc_mask s OR proc_bit (rq_from req)\<rparr>) n
      in if sc_mask (sched_array n (rq_id req)) AND proc_bit (proc_id n) \<noteq> 0
         then incorporate_join req n else Inr n)"

definition Tmk_sched_sigio_duplicate_handler :: "req_arrival \<Rightarrow> 'a cnode_scheme \<Rightarrow> sched_send list" where
  "Tmk_sched_sigio_duplicate_handler req n =
     (if sc_mask (sched_array n (rq_id req)) AND proc_bit (rq_from req) = 0
      then [Send_fork (rq_from req) (fork_reply n req)] else [])"

definition Tmk_sched_initialize :: "'a cnode_scheme \<Rightarrow> 'a cnode_scheme" where
  "Tmk_sched_initialize n =
     n\<lparr>sched_array := (\<lambda>i. if i < max 1 (nprocs n) then (sched_array n i)\<lparr>sc_manager := i mod nprocs n\<rparr> else sched_array n i)\<rparr>"

section \<open>Join and fork\<close>

lemma same_locks_sched:
  assumes "same_locks n n'"
  shows "sched_array n' = sched_array n" "sc_repo n' = sc_repo n" "sc_func n' = sc_func n" "sc_arg n' = sc_arg n"
    "proc_id n' = proc_id n" "nprocs n' = nprocs n" "sigio_buffer n' = sigio_buffer n" "req_from n' = req_from n"
    "sigio_buffer_stack n' = sigio_buffer_stack n" "sigio_buffer_tos n' = sigio_buffer_tos n"
  using assms by (cases n; cases n'; simp add: same_locks_def)+

lemma incorporate_join_frame:
  assumes "incorporate_join req n = Inr n'"
  shows "sched_array n' = sched_array n \<and> proc_id n' = proc_id n \<and> nprocs n' = nprocs n"
proof -
  obtain arg m where m: "Tmk_interval_incorporate (rq_data req) Vt_null n = Some (arg, m)"
    "n' = (if rq_repo req then m\<lparr>sc_repo := True\<rparr> else m)"
    using assms by (cases "Tmk_interval_incorporate (rq_data req) Vt_null n") (auto simp: incorporate_join_def)
  from same_locks_sched [OF incorporate_locks [OF m(1)]] show ?thesis by (simp add: m(2))
qed

interpretation join_gathering: gathering incorporate_join "\<lambda>rs n. True"
proof unfold_locales
  fix r rs and n :: "'a cnode_scheme"
  show "\<exists>k :: 'a cnode_scheme. node.truncate k = node.truncate n \<and>
     (\<forall>arg m. Tmk_interval_incorporate (rq_data r) Vt_null k = Some (arg, m) \<longrightarrow>
        (\<exists>m'. incorporate_join r n = Inr m' \<and> node.truncate m' = node.truncate m \<and> True))"
    by (intro exI [of _ n]) (auto simp: incorporate_join_def node.truncate_def)
qed

lemma join_early_frame:
  "join_early js n = Inr n' \<Longrightarrow> sched_array n' = sched_array n \<and> proc_id n' = proc_id n \<and> nprocs n' = nprocs n"
proof (induction js arbitrary: n)
  case (Cons j js)
  then show ?case by (auto simp: tmk_bind_Inr_iff dest: incorporate_join_frame split: if_splits)
qed simp

text \<open>What happens at the master \<open>me\<close> until the join ends.\<close>

fun join_event_step :: "nat \<Rightarrow> barrier_event \<Rightarrow> 'a cnode_scheme \<Rightarrow> 'a cnode_scheme \<Rightarrow> bool" where
  "join_event_step me (Request req) n n' \<longleftrightarrow> proc_id n = me \<and> rq_id req = me \<and> Tmk_sched_sigio_handler req n = Inr n'"
| "join_event_step me (Arrive repo) n n' \<longleftrightarrow> proc_id n = me \<and> join_gather n = Inr n'"

lemma join_event_mask:
  assumes "join_event_step me e n n'"
  shows "sc_mask (sched_array n' me) = sc_mask (sched_array n me) OR proc_bit (event_source me e) \<and>
    proc_id n = me \<and> proc_id n' = me \<and> nprocs n' = nprocs n"
proof (cases e)
  case (Request req)
  with assms show ?thesis
    by (auto simp: Tmk_sched_sigio_handler_def Let_def upd_sched_def dest!: incorporate_join_frame split: if_splits)
next
  case (Arrive repo)
  with assms obtain m k where m: "end_interval n = Inr m" "join_early (others m) (m\<lparr>sc_repo := repo_wanted m\<rparr>) = Inr k"
    "n' = upd_sched (proc_id k) (\<lambda>s. s\<lparr>sc_mask := sc_mask s OR proc_bit (proc_id k)\<rparr>) k" and me: "proc_id n = me"
    by (auto simp: join_gather_def tmk_bind_Inr_iff)
  from same_locks_sched [OF end_interval_locks [OF m(1)]] join_early_frame [OF m(2)] me Arrive show ?thesis
    by (simp add: m(3) upd_sched_def)
qed

interpretation join_spin: spinning "\<lambda>n. sc_mask (sched_array n me)" "event_source me" "join_event_step me" for me
  by unfold_locales (use join_event_mask in blast)

lemma join_events_frame:
  "arrive_seq (join_event_step me) es n n' \<Longrightarrow> nprocs n' = nprocs n \<and> (proc_id n = me \<longrightarrow> proc_id n' = me)"
  by (induction rule: arrive_seq.induct) (auto dest: join_event_mask)

lemma fork_answers_eq:
  assumes "buffer_inv n held" "set js \<subseteq> held" "distinct js"
  shows "\<exists>n'. fork_answers js n = Inr (map (\<lambda>j. Send_fork j (fork_reply n (sigio_buffer n (req_from n j)))) js, n') \<and>
    node.truncate n' = node.truncate n \<and> buffer_inv n' (held - set js) \<and> sched_array n' = sched_array n \<and>
    sc_func n' = sc_func n \<and> sc_arg n' = sc_arg n \<and> sc_repo n' = sc_repo n"
  using assms
proof (induction js arbitrary: n held)
  case Nil
  then show ?case by simp
next
  case (Cons j js)
  obtain m where m: "Tmk_sigio_buffer_release (req_from n j) n = Inr m" "buffer_inv m (held - {j})"
    "req_from m = req_from n" "sigio_buffer m = sigio_buffer n"
    using release_inv [OF Cons.prems(1), of j] Cons.prems(2) by auto
  have fr: "node.truncate m = node.truncate n" "sched_array m = sched_array n" "sc_func m = sc_func n" "sc_arg m = sc_arg n" "sc_repo m = sc_repo n"
    using m(1) by (auto simp: Tmk_sigio_buffer_release_def node.truncate_def split: if_splits)
  have sub: "set js \<subseteq> held - {j}" and dist: "distinct js" using Cons.prems(2,3) by auto
  have reply: "fork_reply m r = fork_reply n r" for r
    using fr interval_request_cong [OF truncate_fields(2,10) [OF fr(1)]] by (simp add: fork_reply_def)
  have "held - {j} - set js = held - set (j # js)" by auto
  with Cons.IH [OF m(2) sub dist] m(1,3,4) fr reply show ?case by (auto simp: Let_def)
qed


text \<open>Process 1 of two is the master; process 0 asks to join first.\<close>

definition sched_demo :: cnode where
  "sched_demo = bnode.extend barrier_demo (cnode.fields (\<lambda>_. \<lparr>sc_manager = 0, sc_mask = 0\<rparr>) False 0 [])"

definition demo_join :: req_arrival where
  "demo_join = (demo_arrival 0)\<lparr>rq_id := 1\<rparr>"

lemma sched_demo_fields:
  "coherent sched_demo" "proc_id sched_demo = 1" "nprocs sched_demo = 2" "sc_mask (sched_array sched_demo i) = 0"
  "rq_data (sigio_buffer sched_demo j) = []" "rq_repo (sigio_buffer sched_demo j) = False"
proof -
  have tr: "node.truncate sched_demo = node.truncate barrier_demo" by (simp add: sched_demo_def node.truncate_def bnode.defs cnode.defs)
  show "coherent sched_demo" using node_inv_truncate [OF tr] barrier_demo_inv by (auto simp: coherent_def)
  show "proc_id sched_demo = 1" "nprocs sched_demo = 2" using truncate_fields(1,2) [OF tr] by (simp_all add: barrier_demo_fields)
  show "sc_mask (sched_array sched_demo i) = 0" by (simp add: sched_demo_def bnode.defs cnode.defs)
  show "rq_data (sigio_buffer sched_demo j) = []" "rq_repo (sigio_buffer sched_demo j) = False"
    by (simp_all add: sched_demo_def barrier_demo_def buffer_demo_def snode.defs bnode.defs rnode.defs cnode.defs Tmk_sigio_initialize_def)
qed


end
