(* ===== verification/Tmk_Exit.thy ===== *)
theory Tmk_Exit
  imports Tmk_Sched
begin

text \<open>
  Distribution of private data at start-up (\<^verbatim>\<open>Tmk/src/distribute.c\<close>) and the end of a run with its statistics
  (\<^verbatim>\<open>Tmk/src/exit.c\<close>).
\<close>

section \<open>State\<close>

text \<open>
  \<open>private_mem\<close> is the private memory of the process, \<open>exit_flag\<close> and \<open>exit_seqno\<close> are the variables \<^verbatim>\<open>exit_flag\<close> and
  \<^verbatim>\<open>rep_seqno\<close> of \<^verbatim>\<open>exit.c\<close>.
\<close>

record enode = cnode +
  private_mem :: "u32 \<Rightarrow> u8"
  exit_flag :: bool
  exit_seqno :: u32

record req_dis =
  ds_seqno :: u32
  ds_from :: nat
  ds_size :: nat
  ds_ptr :: u32
  ds_data :: "u8 list"

section \<open>Distribution\<close>

definition read_mem :: "u32 \<Rightarrow> nat \<Rightarrow> (u32 \<Rightarrow> u8) \<Rightarrow> u8 list" where
  "read_mem ptr sz m = map (\<lambda>k. m (ptr + of_nat k)) [0..<sz]"

fun write_mem :: "u32 \<Rightarrow> u8 list \<Rightarrow> (u32 \<Rightarrow> u8) \<Rightarrow> u32 \<Rightarrow> u8" where
  "write_mem ptr [] m = m"
| "write_mem ptr (b # bs) m = write_mem (ptr + 1) bs (m(ptr := b))"

text \<open>
  \<^verbatim>\<open>Tmk_distribute\<close>: the processes are served one after the other; \<open>ess\<close> has the outcomes of \<^verbatim>\<open>recv\<close> for each.  A
  repeated message has the contents of the memory at that time.  \<open>None\<close> while it waits for an acknowledgement.
\<close>

definition distribute_msg :: "u32 \<Rightarrow> nat \<Rightarrow> u8 list \<Rightarrow> 'a enode_scheme \<Rightarrow> req_dis" where
  "distribute_msg ptr sz data n = \<lparr>ds_seqno = req_seqno n, ds_from = proc_id n, ds_size = sz, ds_ptr = ptr, ds_data = data\<rparr>"

fun distribute_loop ::
  "u32 \<Rightarrow> nat \<Rightarrow> nat list \<Rightarrow> (u8 list, unit) recv_event list list \<Rightarrow> 'a enode_scheme \<Rightarrow>
   ((nat \<times> req_dis) list \<times> 'a enode_scheme) tmk_result option" where
  "distribute_loop ptr sz [] ess n = Some (Inr ([], n))"
| "distribute_loop ptr sz (i # is) [] n = None"
| "distribute_loop ptr sz (i # is) (es # ess) n =
     (let n = n\<lparr>req_seqno := req_seqno n + SEQNO_INCR\<rparr>
      in case recv_loop ''<recv>Tmk_distribute'' (req_seqno n) es [] of
           None \<Rightarrow> None
         | Some (Inl e) \<Rightarrow> Some (Inl e)
         | Some (Inr (vs, r)) \<Rightarrow>
             (let ms = map (\<lambda>d. (i, distribute_msg ptr sz d n)) (read_mem ptr sz (private_mem n) # vs);
                  n = upd_stat (\<lambda>s. s\<lparr>messages := messages s + 1, bytes := bytes s + 4\<rparr>) n
              in map_option (\<lambda>r. tmk_bind r (\<lambda>(ms', n). Inr (ms @ ms', n))) (distribute_loop ptr sz is ess n)))"

definition Tmk_distribute ::
  "u32 \<Rightarrow> nat \<Rightarrow> (u8 list, unit) recv_event list list \<Rightarrow> 'a enode_scheme \<Rightarrow>
   ((nat \<times> req_dis) list \<times> 'a enode_scheme) tmk_result option" where
  "Tmk_distribute ptr sz ess n = distribute_loop ptr sz (others n) ess n"

text \<open>
  The receiver reads at most \<^verbatim>\<open>MTU\<close> bytes, copies \<^verbatim>\<open>size\<close> bytes from behind the 16 bytes of the header and acknowledges.
  Copying more than was received reads whatever the buffer had before, which the model counts as a wild access.
\<close>

definition recv_dis :: "req_dis \<Rightarrow> req_dis" where
  "recv_dis req = req\<lparr>ds_data := take (MTU - 16) (ds_data req)\<rparr>"

definition Tmk_distribute_sigio_handler :: "req_dis \<Rightarrow> 'a enode_scheme \<Rightarrow> ((nat \<times> u32) \<times> 'a enode_scheme) tmk_result" where
  "Tmk_distribute_sigio_handler req n =
     (if length (ds_data req) < ds_size req then Inl Wild_access
      else Inr ((ds_from req, ds_seqno req),
        n\<lparr>private_mem := write_mem (ds_ptr req) (take (ds_size req) (ds_data req)) (private_mem n)\<rparr>))"

section \<open>Exit\<close>

text \<open>The numbers \<^verbatim>\<open>print_stat\<close> prints, and whether they are the cumulative statistics; averages are 0 for no messages or diffs.\<close>

definition average :: "u32 \<Rightarrow> u32 \<Rightarrow> u32" where
  "average t k = (if k \<noteq> 0 then t div k else 0)"

definition print_stat :: "nat \<Rightarrow> nat \<Rightarrow> tmk_stat \<Rightarrow> u32 list" where
  "print_stat np i s =
     (if i = np then [arrivals s, repos s] else []) @
     [acquires s, messages_for_acquires s, broadcasts s, signals s, waits s, cold_misses s, bytes s, bytes_of_data s,
      messages s, average (bytes s) (messages s), rexmits s, diffs s, average (total_diff_size s) (diffs s), twins s]"

definition own_messages :: "tmk_stat \<Rightarrow> tmk_stat" where
  "own_messages s = s\<lparr>messages := messages s + (messages_for_acquires s + cold_misses s)\<rparr>"

definition add_stat :: "tmk_stat \<Rightarrow> tmk_stat \<Rightarrow> tmk_stat" where
  "add_stat t s = t\<lparr>acquires := acquires t + acquires s, acquire_time := acquire_time t + acquire_time s,
     bytes := bytes t + bytes s, bytes_of_data := bytes_of_data t + bytes_of_data s,
     cold_misses := cold_misses t + cold_misses s, messages := messages t + messages s,
     messages_for_acquires := messages_for_acquires t + messages_for_acquires s, rexmits := rexmits t + rexmits s,
     diffs := diffs t + diffs s, twins := twins t + twins s, total_diff_size := total_diff_size t + total_diff_size s\<rparr>"

text \<open>
  \<^verbatim>\<open>Tmk_exit\<close> on process 0: \<open>ess\<close> has the outcomes of \<^verbatim>\<open>recvmsg\<close>, whose messages carry the statistics of the others.  The
  result: the requests sent, the numbers printed (\<open>flag\<close> is \<^verbatim>\<open>tmk_stat_flag\<close>) and the process.
\<close>

fun exit_loop ::
  "nat \<Rightarrow> nat list \<Rightarrow> (unit, tmk_stat) recv_event list list \<Rightarrow> 'a enode_scheme \<Rightarrow>
   ((nat \<times> u32) list \<times> u32 list list \<times> 'a enode_scheme) tmk_result option" where
  "exit_loop flag [] ess n = Some (Inr ([], [], n))"
| "exit_loop flag (i # is) [] n = None"
| "exit_loop flag (i # is) (es # ess) n =
     (let n = n\<lparr>req_seqno := req_seqno n + SEQNO_INCR\<rparr>
      in case recv_loop ''<recvmsg>Tmk_exit'' (req_seqno n) es [] of
           None \<Rightarrow> None
         | Some (Inl e) \<Rightarrow> Some (Inl e)
         | Some (Inr (vs, sz, s)) \<Rightarrow>
             (let ms = map (\<lambda>u. (i, req_seqno n)) (() # vs); s = own_messages s;
                  out = (if 1 < flag then [print_stat (nprocs n) i s] else []);
                  n = n\<lparr>stat := add_stat (stat n) s\<rparr>
              in map_option (\<lambda>r. tmk_bind r (\<lambda>(ms', out', n). Inr (ms @ ms', out @ out', n))) (exit_loop flag is ess n)))"

definition exit_master ::
  "nat \<Rightarrow> (unit, tmk_stat) recv_event list list \<Rightarrow> 'a enode_scheme \<Rightarrow>
   ((nat \<times> u32) list \<times> u32 list list \<times> 'a enode_scheme) tmk_result option" where
  "exit_master flag ess n =
     (let n = upd_stat own_messages n;
          out = (if 1 < flag then [print_stat (nprocs n) (proc_id n) (stat n)] else [])
      in map_option (\<lambda>r. tmk_bind r (\<lambda>(ms, out', n).
             Inr (ms, out @ out' @ (if 0 < flag then [print_stat (nprocs n) (nprocs n) (stat n)] else []), n)))
           (exit_loop flag [1..<nprocs n] ess n))"

text \<open>Another process waits for the request and sends its statistics; \<open>None\<close> while it waits.\<close>

definition exit_slave :: "'a enode_scheme \<Rightarrow> (u32 \<times> tmk_stat) option" where
  "exit_slave n = (if \<not> exit_flag n then None else Some (exit_seqno n, stat n))"

definition Tmk_exit_sigio_handler :: "u32 \<Rightarrow> 'a enode_scheme \<Rightarrow> 'a enode_scheme" where
  "Tmk_exit_sigio_handler seqno n = n\<lparr>exit_flag := True, exit_seqno := seqno\<rparr>"

section \<open>Properties\<close>

lemma length_read_mem [simp]: "length (read_mem ptr sz m) = sz" by (simp add: read_mem_def)

lemma write_mem_at:
  assumes "length bs \<le> 2 ^ 32"
  shows "write_mem ptr bs m a = (if unat (a - ptr) < length bs then bs ! unat (a - ptr) else m a)"
  using assms
proof (induction ptr bs m rule: write_mem.induct)
  case (2 ptr b bs m)
  have "length bs \<le> 2 ^ 32" using "2.prems" by simp
  from "2.IH" [OF this] have ih: "write_mem ptr (b # bs) m a =
      (if unat (a - (ptr + 1)) < length bs then bs ! unat (a - (ptr + 1)) else if a = ptr then b else m a)" by (simp add: fun_upd_def)
  show ?case
  proof (cases "a = ptr")
    case True
    have "a - (ptr + 1) = - 1" using True by simp
    then have "unat (a - (ptr + 1)) = 2 ^ 32 - 1" by (simp add: unsigned_minus_1_eq_mask mask_eq_exp_minus_1)
    then have "\<not> unat (a - (ptr + 1)) < length bs" using "2.prems" by simp
    with True show ?thesis unfolding ih by simp
  next
    case False
    then have "a - ptr \<noteq> 0" by simp
    then have "unat (a - (ptr + 1)) = unat (a - ptr) - 1" "0 < unat (a - ptr)"
      using unat_minus_one [of "a - ptr"] by (simp_all add: diff_diff_eq unat_gt_0)
    with False show ?thesis unfolding ih by (auto simp: nth_Cons')
  qed
qed simp

text \<open>
  A distributed range of memory arrives intact when it fits a message: the process that receives the message of
  \<^verbatim>\<open>Tmk_distribute\<close> acknowledges it to the sender with its number, its memory agrees with the sender's in the range, also in one
  that wraps around the address space, and nothing else changes.
\<close>

theorem distribute_copies:
  assumes "16 + sz \<le> MTU"
  shows "\<exists>m'. Tmk_distribute_sigio_handler (recv_dis (distribute_msg ptr sz (read_mem ptr sz (private_mem n)) n)) m =
      Inr ((proc_id n, req_seqno n), m\<lparr>private_mem := m'\<rparr>) \<and>
    (\<forall>a. m' a = (if unat (a - ptr) < sz then private_mem n a else private_mem m a))"
proof -
  let ?data = "read_mem ptr sz (private_mem n)" and ?m' = "write_mem ptr (read_mem ptr sz (private_mem n)) (private_mem m)"
  have fits: "take (MTU - 16) ?data = ?data" and len: "length ?data \<le> 2 ^ 32" using assms by simp_all
  have "Tmk_distribute_sigio_handler (recv_dis (distribute_msg ptr sz ?data n)) m =
      Inr ((proc_id n, req_seqno n), m\<lparr>private_mem := ?m'\<rparr>)"
    unfolding Tmk_distribute_sigio_handler_def distribute_msg_def recv_dis_def req_dis.simps fits by simp
  moreover have "?m' a = (if unat (a - ptr) < sz then private_mem n a else private_mem m a)" for a
    unfolding write_mem_at [OF len] by (simp add: read_mem_def)
  ultimately show ?thesis by blast
qed

definition exit_demo :: enode where
  "exit_demo = cnode.extend sched_demo (enode.fields (\<lambda>a. ucast a) False 0)"

theorem distribute_copies_witness:
  "\<exists>m'. Tmk_distribute_sigio_handler (recv_dis (distribute_msg 4096 8 (read_mem 4096 8 (private_mem exit_demo)) exit_demo)) (exit_demo\<lparr>private_mem := (\<lambda>_. 0)\<rparr>) =
      Inr ((proc_id exit_demo, req_seqno exit_demo), exit_demo\<lparr>private_mem := m'\<rparr>) \<and> m' 4100 = 4 \<and> m' 4106 = 0"
proof -
  have "16 + (8 :: nat) \<le> MTU" by simp
  from distribute_copies [OF this, of 4096 exit_demo "exit_demo\<lparr>private_mem := (\<lambda>_. 0)\<rparr>"] obtain m'
    where m: "Tmk_distribute_sigio_handler (recv_dis (distribute_msg 4096 8 (read_mem 4096 8 (private_mem exit_demo)) exit_demo)) (exit_demo\<lparr>private_mem := (\<lambda>_. 0)\<rparr>) =
        Inr ((proc_id exit_demo, req_seqno exit_demo), exit_demo\<lparr>private_mem := m'\<rparr>)"
      "\<And>a. m' a = (if unat (a - 4096) < 8 then private_mem exit_demo a else 0)"
    by auto
  have "private_mem exit_demo 4100 = 4" by (simp add: exit_demo_def cnode.defs enode.defs unsigned_ucast_eq flip: ucast_eq)
  then have "m' 4100 = 4" "m' 4106 = 0" by (simp_all add: m(2))
  with m(1) show ?thesis by blast
qed

text \<open>Nothing checks the size of the range: of one that does not fit a message the receiver copies what it has not received.\<close>

lemma distribute_too_long:
  "MTU < 16 + sz \<Longrightarrow>
   Tmk_distribute_sigio_handler (recv_dis (distribute_msg ptr sz (read_mem ptr sz (private_mem n)) n)) m = Inl Wild_access"
  by (auto simp: Tmk_distribute_sigio_handler_def distribute_msg_def recv_dis_def)

text \<open>The cumulative statistics sum what the others report, but not their broadcasts, signals and waits.\<close>

lemma exit_totals:
  assumes "exit_loop flag is ess n = Some (Inr (ms, out, n'))"
  shows "broadcasts (stat n') = broadcasts (stat n) \<and> signals (stat n') = signals (stat n) \<and> waits (stat n') = waits (stat n)"
  using assms
proof (induction flag "is" ess n arbitrary: ms out rule: exit_loop.induct)
  case (3 flag i "is" es ess n)
  then show ?case
    by (auto simp: Let_def tmk_bind_Inr_iff add_stat_def split: option.splits sum.splits prod.splits)
qed auto

end
