(* ===== verification/Tmk_Sigio.thy ===== *)
theory Tmk_Sigio
  imports Tmk_Exit
begin

text \<open>
  The dispatcher of requests, \<^verbatim>\<open>sigio_handler\<close> of \<^verbatim>\<open>Tmk/src/sigio.c\<close>: every message that has arrived is read, and a request
  whose sequence number is greater than the last one of its sender goes to the handler of its type, any other
  to the handler of repeated requests.  It composes the handlers of all other components.
\<close>

section \<open>Requests and answers\<close>

text \<open>
  The messages by type (\<^verbatim>\<open>enum req_typ_type\<close>); \<^verbatim>\<open>REQ_ARRIVAL_REPO\<close> and \<^verbatim>\<open>REQ_JOIN_REPO\<close> are told by the flag in the request.
  A diff request has the page, the pairs of process and time, and for each whether its diff follows the one before in memory.
\<close>

datatype request =
    Req_arrival req_arrival
  | Req_cond_broadcast req_cond
  | Req_cond_signal req_cond
  | Req_cond_wait req_cond
  | Req_connect u32 nat
  | Req_diff u32 nat page_t "(nat \<times> u16) list" "bool list"
  | Req_distribute req_dis
  | Req_exit u32 nat
  | Req_join req_arrival
  | Req_lock req_syn
  | Req_page u32 nat page_t
  | Req_repo u32 nat

fun request_seqno :: "request \<Rightarrow> u32" where
  "request_seqno (Req_arrival r) = rq_seqno r"
| "request_seqno (Req_cond_broadcast r) = rq_seqno r"
| "request_seqno (Req_cond_signal r) = rq_seqno r"
| "request_seqno (Req_cond_wait r) = rq_seqno r"
| "request_seqno (Req_connect s j) = s"
| "request_seqno (Req_diff s j p rs as) = s"
| "request_seqno (Req_distribute r) = ds_seqno r"
| "request_seqno (Req_exit s j) = s"
| "request_seqno (Req_join r) = rq_seqno r"
| "request_seqno (Req_lock r) = rq_seqno r"
| "request_seqno (Req_page s j p) = s"
| "request_seqno (Req_repo s j) = s"

fun request_from :: "request \<Rightarrow> nat" where
  "request_from (Req_arrival r) = rq_from r"
| "request_from (Req_cond_broadcast r) = rq_from r"
| "request_from (Req_cond_signal r) = rq_from r"
| "request_from (Req_cond_wait r) = rq_from r"
| "request_from (Req_connect s j) = j"
| "request_from (Req_diff s j p rs as) = j"
| "request_from (Req_distribute r) = ds_from r"
| "request_from (Req_exit s j) = j"
| "request_from (Req_join r) = rq_from r"
| "request_from (Req_lock r) = rq_from r"
| "request_from (Req_page s j p) = j"
| "request_from (Req_repo s j) = j"

datatype sent =
    Lock_sent lock_send
  | Barrier_sent barrier_send
  | Sched_sent sched_send
  | Repo_sent repo_send
  | Diff_sent nat u32 "u32 list"
  | Page_sent nat u32 "u32 list"
  | Ack nat u32

section \<open>Handlers\<close>

definition lock_result :: "(lock_send list \<times> 'n) tmk_result \<Rightarrow> (sent list \<times> 'n) tmk_result" where
  "lock_result r = tmk_bind r (\<lambda>(ms, n). Inr (map Lock_sent ms, n))"

definition silent :: "'n tmk_result \<Rightarrow> (sent list \<times> 'n) tmk_result" where
  "silent r = tmk_bind r (\<lambda>n. Inr ([], n))"

definition diff_handler :: "u32 \<Rightarrow> nat \<Rightarrow> page_t \<Rightarrow> (nat \<times> u16) list \<Rightarrow> bool list \<Rightarrow> 'a enode_scheme \<Rightarrow> (sent list \<times> 'a enode_scheme) tmk_result" where
  "diff_handler seqno from p reqs adjs n =
     tmk_bind (tmk_option (Tmk_diff_sigio_handler p reqs adjs n)) (\<lambda>(ms, n). Inr (map (Diff_sent from seqno) ms, n))"

definition page_handler :: "u32 \<Rightarrow> nat \<Rightarrow> page_t \<Rightarrow> 'a enode_scheme \<Rightarrow> (sent list \<times> 'a enode_scheme) tmk_result" where
  "page_handler seqno from p n =
     (case Tmk_page_sigio_handler seqno p n of (n, s, d) \<Rightarrow> Inr ([Page_sent from s d], n))"

text \<open>\<^verbatim>\<open>sigio_handlers_\<close>.  A request of a type in \<^verbatim>\<open>SIGIO_BUFFER_HOLD\<close> keeps its buffer first.\<close>

fun sigio_handlers :: "request \<Rightarrow> 'a enode_scheme \<Rightarrow> (sent list \<times> 'a enode_scheme) tmk_result" where
  "sigio_handlers (Req_arrival r) n = silent (barrier_deliver r n)"
| "sigio_handlers (Req_cond_broadcast r) n = lock_result (Tmk_cond_broadcast_sigio_handler r n)"
| "sigio_handlers (Req_cond_signal r) n = lock_result (Tmk_cond_signal_sigio_handler r n)"
| "sigio_handlers (Req_cond_wait r) n = lock_result (Tmk_cond_wait_sigio_handler r n)"
| "sigio_handlers (Req_connect s j) n = Inl (Errexit ''sigio_handler: unexpected REQ_CONNECT'')"
| "sigio_handlers (Req_diff s j p rs as) n = diff_handler s j p rs as n"
| "sigio_handlers (Req_distribute r) n =
     tmk_bind (Tmk_distribute_sigio_handler r n) (\<lambda>((j, s), n). Inr ([Ack j s], n))"
| "sigio_handlers (Req_exit s j) n = Inr ([], Tmk_exit_sigio_handler s n)"
| "sigio_handlers (Req_join r) n = silent (tmk_bind (sigio_buffer_hold r n) (Tmk_sched_sigio_handler r))"
| "sigio_handlers (Req_lock r) n = lock_result (Tmk_lock_sigio_handler r n)"
| "sigio_handlers (Req_page s j p) n = page_handler s j p n"
| "sigio_handlers (Req_repo s j) n = Inr ([], Tmk_repo_sigio_handler j n)"

text \<open>\<^verbatim>\<open>sigio_duplicate_handlers_\<close>, with \<^verbatim>\<open>Tmk_ack\<close>.\<close>

fun sigio_duplicate_handlers :: "request \<Rightarrow> 'a enode_scheme \<Rightarrow> (sent list \<times> 'a enode_scheme) tmk_result" where
  "sigio_duplicate_handlers (Req_arrival r) n = Inr (map Barrier_sent (Tmk_barrier_sigio_duplicate_handler r n), n)"
| "sigio_duplicate_handlers (Req_cond_broadcast r) n = Inr ([Ack (rq_from r) (rq_seqno r)], n)"
| "sigio_duplicate_handlers (Req_cond_signal r) n = Inr ([Ack (rq_from r) (rq_seqno r)], n)"
| "sigio_duplicate_handlers (Req_cond_wait r) n = lock_result (Inr (Tmk_cond_wait_sigio_duplicate_handler r n))"
| "sigio_duplicate_handlers (Req_connect s j) n = Inr ([Ack j s], n)"
| "sigio_duplicate_handlers (Req_diff s j p rs as) n = diff_handler s j p rs as n"
| "sigio_duplicate_handlers (Req_distribute r) n = Inr ([Ack (ds_from r) (ds_seqno r)], n)"
| "sigio_duplicate_handlers (Req_exit s j) n = Inr ([], Tmk_exit_sigio_handler s n)"
| "sigio_duplicate_handlers (Req_join r) n = Inr (map Sched_sent (Tmk_sched_sigio_duplicate_handler r n), n)"
| "sigio_duplicate_handlers (Req_lock r) n = lock_result (Inr (Tmk_lock_sigio_duplicate_handler r n))"
| "sigio_duplicate_handlers (Req_page s j p) n = page_handler s j p n"
| "sigio_duplicate_handlers (Req_repo s j) n = Inr (map Repo_sent (Tmk_repo_sigio_duplicate_handler j s n), n)"

section \<open>The dispatcher\<close>

definition is_new :: "request \<Rightarrow> 'a enode_scheme \<Rightarrow> bool" where
  "is_new r n \<longleftrightarrow> rep_seqno n (request_from r) < request_seqno r"

definition sigio_dispatch :: "request \<Rightarrow> u32 \<Rightarrow> 'a enode_scheme \<Rightarrow> (sent list \<times> 'a enode_scheme) tmk_result" where
  "sigio_dispatch r sz n =
     tmk_bind (if is_new r n
               then sigio_handlers r (n\<lparr>rep_seqno := (rep_seqno n)(request_from r := request_seqno r)\<rparr>)
               else sigio_duplicate_handlers r n)
       (\<lambda>(ms, n). Inr (ms, upd_stat (\<lambda>s. s\<lparr>messages := messages s + 1, bytes := bytes s + sz\<rparr>) n))"

fun dispatch_all :: "(request \<times> u32) list \<Rightarrow> 'a enode_scheme \<Rightarrow> (sent list \<times> 'a enode_scheme) tmk_result" where
  "dispatch_all [] n = Inr ([], n)"
| "dispatch_all ((r, sz) # rs) n =
     tmk_bind (sigio_dispatch r sz n) (\<lambda>(ms, n). tmk_bind (dispatch_all rs n) (\<lambda>(ms', n). Inr (ms @ ms', n)))"

text \<open>
  \<^verbatim>\<open>sigio_handler\<close>.  A round is what \<^verbatim>\<open>select\<close> finds: an error, or the processes whose sockets are ready with the
  outcome of reading each (\<open>None\<close> is an error of \<^verbatim>\<open>recv\<close>); they are served in the order of their numbers.
  When none is ready \<^verbatim>\<open>select\<close> returns 0 and the handler ends; after serving the last ready one it selects again.
  \<open>None\<close> when the rounds end before \<^verbatim>\<open>select\<close> finds nothing.
\<close>

datatype sigio_round = Select_failed | Ready "nat \<Rightarrow> (request \<times> u32) option option"

fun serve_round ::
  "nat list \<Rightarrow> (nat \<Rightarrow> (request \<times> u32) option option) \<Rightarrow> 'a enode_scheme \<Rightarrow> (sent list \<times> 'a enode_scheme) tmk_result" where
  "serve_round [] ready n = Inr ([], n)"
| "serve_round (i # is) ready n =
     (case ready i of
        None \<Rightarrow> serve_round is ready n
      | Some None \<Rightarrow> Inl (Perrexit ''sigio_handler<recv>'')
      | Some (Some (r, sz)) \<Rightarrow>
          tmk_bind (sigio_dispatch r sz n) (\<lambda>(ms, n). tmk_bind (serve_round is ready n) (\<lambda>(ms', n). Inr (ms @ ms', n))))"

fun sigio_handler :: "sigio_round list \<Rightarrow> 'a enode_scheme \<Rightarrow> (sent list \<times> 'a enode_scheme) tmk_result option" where
  "sigio_handler [] n = None"
| "sigio_handler (Select_failed # rs) n = Some (Inl (Perrexit ''sigio_handler<select>''))"
| "sigio_handler (Ready ready # rs) n =
     (if list_all (\<lambda>i. ready i = None) (others n) then Some (Inr ([], n))
      else case serve_round (others n) ready n of
        Inl e \<Rightarrow> Some (Inl e)
      | Inr (ms, n) \<Rightarrow> map_option (\<lambda>r. tmk_bind r (\<lambda>(ms', n). Inr (ms @ ms', n))) (sigio_handler rs n))"

section \<open>What the handlers leave alone\<close>

definition same_ids :: "'a lnode_scheme \<Rightarrow> 'a lnode_scheme \<Rightarrow> bool" where
  "same_ids n n' \<longleftrightarrow> rep_seqno n' = rep_seqno n \<and> proc_id n' = proc_id n \<and> nprocs n' = nprocs n"

lemma same_ids_refl [simp]: "same_ids n n" by (simp add: same_ids_def)

lemma same_ids_trans: "same_ids n m \<Longrightarrow> same_ids m k \<Longrightarrow> same_ids n k" by (simp add: same_ids_def)

lemma same_locks_ids: "same_locks n n' \<Longrightarrow> same_ids n n'"
  by (cases n; cases n'; simp add: same_locks_def same_ids_def)

lemma lock_handler_ids: "Tmk_lock_sigio_handler req n = Inr (ms, n') \<Longrightarrow> same_ids n n'"
proof -
  have link: "same_ids n (link_request i j m)" if "same_ids n m" for i j and m :: "'a lnode_scheme"
    using that by (simp add: link_request_def Let_def same_ids_def)
  have "same_ids n m" if "answer_request req n = Inr (ks, m)" for ks m
    using that
    by (auto simp: answer_request_def grant_def Let_def tmk_bind_Inr_iff same_ids_def
        dest!: end_interval_locks same_locks_ids split: if_splits)
  then show "Tmk_lock_sigio_handler req n = Inr (ms, n') \<Longrightarrow> same_ids n n'"
    using link by (auto simp: Tmk_lock_sigio_handler_def Let_def tmk_bind_Inr_iff split: if_splits) (simp add: same_ids_def)
qed

lemma dequeue_ids: "waitq_dequeue i j n = Inr (found, ms, n') \<Longrightarrow> same_ids n n'"
proof -
  have "same_ids n (snd (waitq_unlink i j n))"
    by (auto simp: waitq_unlink_def same_ids_def upd_cond_def Let_def split: option.splits)
  then show "waitq_dequeue i j n = Inr (found, ms, n') \<Longrightarrow> same_ids n n'"
    by (cases "waitq_unlink i j n")
       (auto simp: waitq_dequeue_def tmk_bind_Inr_iff dest!: lock_handler_ids intro: same_ids_trans split: option.splits if_splits)
qed

lemma dequeue_all_ids: "dequeue_all i j n = Some (Inr (ms, n')) \<Longrightarrow> same_ids n n'"
proof -
  have "\<forall>ms n'. r = Inr (ms, n') \<longrightarrow> same_ids n n'" if "dequeue_all i j n = Some r" for r
  proof (rule dequeue_all.raw_induct [where P = "\<lambda>i j n r. \<forall>ms n'. r = Inr (ms, n') \<longrightarrow> same_ids n n'", OF _ that], goal_cases)
    case (1 f i j n r)
    show ?case
    proof (intro allI impI)
      fix ms n' assume r: "r = Inr (ms, n')"
      with 1(2) obtain found ks m where d: "waitq_dequeue i j n = Inr (found, ks, m)" by (cases "waitq_dequeue i j n") auto
      with 1(2) r have "\<not> found \<and> n' = m \<or> (\<exists>ks'. f i j m = Some (Inr (ks', n')))"
        by (auto simp: bind_eq_Some_conv tmk_bind_Inr_iff split: if_splits)
      with 1(1) dequeue_ids [OF d] show "same_ids n n'" by (blast intro: same_ids_trans)
    qed
  qed
  then show "dequeue_all i j n = Some (Inr (ms, n')) \<Longrightarrow> same_ids n n'" by blast
qed

lemma upd_cond_ids: "same_ids n m \<Longrightarrow> same_ids n (upd_cond i j f m)"
  by (simp add: same_ids_def upd_cond_def)

lemma cond_handler_ids:
  "Tmk_cond_broadcast_sigio_handler rc n = Inr (ms, n') \<Longrightarrow> same_ids n n'"
  "Tmk_cond_signal_sigio_handler rc n = Inr (ms, n') \<Longrightarrow> same_ids n n'"
  "Tmk_cond_wait_sigio_handler rc n = Inr (ms, n') \<Longrightarrow> same_ids n n'"
proof -
  show "Tmk_cond_broadcast_sigio_handler rc n = Inr (ms, n') \<Longrightarrow> same_ids n n'"
    by (auto simp: Tmk_cond_broadcast_sigio_handler_def broadcast_def tmk_bind_Inr_iff split: option.splits
        intro!: upd_cond_ids dest: dequeue_all_ids)
  show "Tmk_cond_signal_sigio_handler rc n = Inr (ms, n') \<Longrightarrow> same_ids n n'"
    by (auto simp: Tmk_cond_signal_sigio_handler_def signal_def tmk_bind_Inr_iff intro!: upd_cond_ids dest: dequeue_ids)
  show "Tmk_cond_wait_sigio_handler rc n = Inr (ms, n') \<Longrightarrow> same_ids n n'"
    by (auto simp: Tmk_cond_wait_sigio_handler_def Let_def waitq_enqueue_def same_ids_def upd_cond_def
        dest!: lock_handler_ids split: if_splits option.splits)
qed

lemma serve_diffs_locks: "serve_diffs p rs as (fl, pk, n) = Some (fl', pk', n') \<Longrightarrow> same_locks n n'"
proof (induction p rs as "(fl, pk, n)" arbitrary: fl pk n rule: serve_diffs.induct)
  case (2 p pid time rs as fl pk n)
  from 2(3) obtain k where k: "find_notice pid time (pg_write_notice (page_array n p) pid) = Some k"
    by (auto split: option.splits)
  show ?case
  proof (cases "wn_diff (pg_write_notice (page_array n p) pid ! k)")
    case None
    with 2(3) k obtain m d where "Tmk_diff_create p pid k n = Some m" "wn_diff (pg_write_notice (page_array m p) pid ! k) = Some d"
      "serve_diffs p rs (tl as) (True, pack_diff (as \<noteq> [] \<and> hd as) d pk, m) = Some (fl', pk', n')"
      by (auto simp: bind_eq_Some_conv split: option.splits)
    with 2(1) k None show ?thesis by (blast intro: same_locks_trans diff_create_locks)
  next
    case (Some d)
    with 2(2,3) k show ?thesis by simp
  qed
qed auto

lemma diff_handler_ids: "diff_handler s j p rs as n = Inr (ms, n') \<Longrightarrow> same_ids n n'"
proof -
  assume "diff_handler s j p rs as n = Inr (ms, n')"
  then obtain fl pk m where m: "serve_diffs p rs as (False, pack_start, n) = Some (fl, pk, m)"
    "n' = (if fl then Tmk_twin_free p (m\<lparr>protection := (protection m)(p := PROT_READ)\<rparr>) else m)"
    by (auto simp: diff_handler_def Tmk_diff_sigio_handler_def tmk_bind_Inr_iff tmk_option_def split: option.splits)
  have "same_locks m n'" using m(2) by (simp add: same_locks_def Tmk_twin_free_def Let_def upd_page_def)
  with serve_diffs_locks [OF m(1)] show ?thesis by (blast intro: same_locks_ids same_locks_trans)
qed

lemma page_handler_ids: "page_handler s j p n = Inr (ms, n') \<Longrightarrow> same_ids n n'"
  by (auto simp: page_handler_def Tmk_page_sigio_handler_def Let_def same_ids_def upd_page_def split: if_splits)

lemma hold_ids: "sigio_buffer_hold r n = Inr n' \<Longrightarrow> same_ids n n'"
  by (auto simp: sigio_buffer_hold_def Let_def same_ids_def split: if_splits)

lemma incorporate_ids:
  "incorporate_arrival r b = Inr b' \<Longrightarrow> same_ids b b'"
  "incorporate_join r c = Inr c' \<Longrightarrow> same_ids c c'"
  by (auto simp: incorporate_arrival_def incorporate_join_def tmk_bind_Inr_iff tmk_option_def same_ids_def
      dest!: incorporate_locks same_locks_ids split: option.splits if_splits)

lemma barrier_deliver_ids: "barrier_deliver r n = Inr n' \<Longrightarrow> same_ids n n'"
proof -
  assume "barrier_deliver r n = Inr n'"
  then obtain m where "sigio_buffer_hold r n = Inr m" "Tmk_barrier_sigio_handler r m = Inr n'"
    by (auto simp: barrier_deliver_def tmk_bind_Inr_iff)
  then show ?thesis
    by (auto simp: Tmk_barrier_sigio_handler_def Let_def upd_barrier_def same_ids_def split: if_splits
        dest!: hold_ids incorporate_ids(1))
qed

lemma sched_deliver_ids: "tmk_bind (sigio_buffer_hold r n) (Tmk_sched_sigio_handler r) = Inr n' \<Longrightarrow> same_ids n n'"
  by (auto simp: tmk_bind_Inr_iff Tmk_sched_sigio_handler_def Let_def upd_sched_def same_ids_def split: if_splits
      dest!: hold_ids incorporate_ids(2))

lemma handlers_ids: "sigio_handlers r n = Inr (ms, n') \<Longrightarrow> same_ids n n'"
proof (cases r)
  case (Req_distribute d)
  then show "sigio_handlers r n = Inr (ms, n') \<Longrightarrow> same_ids n n'"
    by (auto simp: Tmk_distribute_sigio_handler_def same_ids_def split: if_splits)
next
  case (Req_exit s j)
  then show "sigio_handlers r n = Inr (ms, n') \<Longrightarrow> same_ids n n'"
    by (auto simp: Tmk_exit_sigio_handler_def same_ids_def)
next
  case (Req_repo s j)
  then show "sigio_handlers r n = Inr (ms, n') \<Longrightarrow> same_ids n n'"
    by (auto simp: Tmk_repo_sigio_handler_def same_ids_def)
next
  case (Req_arrival a)
  then show "sigio_handlers r n = Inr (ms, n') \<Longrightarrow> same_ids n n'"
    by (auto simp: silent_def tmk_bind_Inr_iff [where f = "\<lambda>n. Inr ([], n)"] dest: barrier_deliver_ids)
next
  case (Req_join a)
  then show "sigio_handlers r n = Inr (ms, n') \<Longrightarrow> same_ids n n'"
    by (auto simp: silent_def tmk_bind_Inr_iff [where f = "\<lambda>n. Inr ([], n)"] dest: sched_deliver_ids)
qed (auto simp: lock_result_def tmk_bind_Inr_iff dest: cond_handler_ids lock_handler_ids diff_handler_ids page_handler_ids)

lemma duplicate_handlers_ids: "sigio_duplicate_handlers r n = Inr (ms, n') \<Longrightarrow> same_ids n n'"
  by (cases r) (auto simp: lock_result_def tmk_bind_Inr_iff Tmk_exit_sigio_handler_def Tmk_cond_wait_sigio_duplicate_handler_def
      Tmk_lock_sigio_duplicate_handler_def same_ids_def Let_def dest!: diff_handler_ids page_handler_ids split: if_splits option.splits)

section \<open>At most once\<close>

text \<open>A repeated request for a diff or a page, or to exit, is simply served again.\<close>

fun served_again :: "request \<Rightarrow> bool" where
  "served_again (Req_diff s j p rs as) = True"
| "served_again (Req_page s j p) = True"
| "served_again (Req_exit s j) = True"
| "served_again r = False"

definition count_message :: "u32 \<Rightarrow> 'a enode_scheme \<Rightarrow> 'a enode_scheme" where
  "count_message sz = upd_stat (\<lambda>s. s\<lparr>messages := messages s + 1, bytes := bytes s + sz\<rparr>)"

lemma count_message_ids [simp]:
  "rep_seqno (count_message sz n) = rep_seqno n" "proc_id (count_message sz n) = proc_id n" "nprocs (count_message sz n) = nprocs n"
  by (simp_all add: count_message_def upd_stat_def)

lemma duplicate_silent: "\<not> served_again r \<Longrightarrow> sigio_duplicate_handlers r n = Inr (ms, n') \<Longrightarrow> n' = n"
  by (cases r) (auto simp: lock_result_def tmk_bind_Inr_iff Tmk_cond_wait_sigio_duplicate_handler_def
      Tmk_lock_sigio_duplicate_handler_def Let_def split: if_splits)

lemma dispatch_ids:
  assumes "sigio_dispatch r sz n = Inr (ms, n')"
  shows "rep_seqno n' = (rep_seqno n)(request_from r := max (rep_seqno n (request_from r)) (request_seqno r))"
    and "proc_id n' = proc_id n" and "nprocs n' = nprocs n"
proof -
  from assms obtain m where m: "n' = count_message sz m"
    "(if is_new r n then sigio_handlers r (n\<lparr>rep_seqno := (rep_seqno n)(request_from r := request_seqno r)\<rparr>)
      else sigio_duplicate_handlers r n) = Inr (ms, m)"
    by (auto simp: sigio_dispatch_def tmk_bind_Inr_iff count_message_def)
  then have "same_ids (if is_new r n then n\<lparr>rep_seqno := (rep_seqno n)(request_from r := request_seqno r)\<rparr> else n) m"
    by (cases "is_new r n") (auto dest: handlers_ids duplicate_handlers_ids)
  with m(1) show "rep_seqno n' = (rep_seqno n)(request_from r := max (rep_seqno n (request_from r)) (request_seqno r))"
    "proc_id n' = proc_id n" "nprocs n' = nprocs n"
    by (auto simp: same_ids_def is_new_def max_def split: if_splits)
qed

lemma dispatch_all_ids:
  assumes "dispatch_all rs n = Inr (ms, n')"
  shows "rep_seqno n' i = fold (\<lambda>x s. if request_from (fst x) = i then max s (request_seqno (fst x)) else s) rs (rep_seqno n i)"
  using assms
proof (induction rs n arbitrary: ms rule: dispatch_all.induct)
  case (2 r sz rs n)
  then show ?case by (auto simp: tmk_bind_Inr_iff dispatch_ids(1))
qed simp

lemma dispatch_all_append:
  "dispatch_all (us @ vs) n =
     tmk_bind (dispatch_all us n) (\<lambda>(ms, n). tmk_bind (dispatch_all vs n) (\<lambda>(ms', n). Inr (ms @ ms', n)))"
proof (induction us n rule: dispatch_all.induct)
  case (1 n)
  then show ?case by (cases "dispatch_all vs n") auto
next
  case (2 r sz rs n)
  show ?case
  proof (cases "sigio_dispatch r sz n")
    case (Inr x)
    then obtain ms m where x: "sigio_dispatch r sz n = Inr (ms, m)" by (cases x) auto
    from 2 x show ?thesis by (cases "dispatch_all rs m"; cases "dispatch_all vs (snd (projr (dispatch_all rs m)))") auto
  qed simp
qed

lemma fold_max_less:
  fixes s t :: "'a :: linorder"
  shows "fold (\<lambda>x s. if P x then max s (f x) else s) xs s < t \<longleftrightarrow> s < t \<and> (\<forall>x\<in>set xs. P x \<longrightarrow> f x < t)"
  by (induction xs arbitrary: s) auto

text \<open>
  C31: Every request takes effect at most once and the requests of a process in order: however the messages are repeated and
  whatever comes between, a request is handled as new exactly when its number is greater than the last one recorded and greater
  than that of every message of the same process served before it; otherwise it changes nothing but the counts of messages and
  bytes, unless it asks for a diff, a page or the exit, which are answered again.
\<close>

theorem sigio_exactly_once:
  assumes "dispatch_all (us @ (r, sz) # vs) n = Inr (ms, n')"
  shows "\<exists>ms1 ms2 m m'. dispatch_all us n = Inr (ms1, m) \<and> sigio_dispatch r sz m = Inr (ms2, m') \<and>
     (is_new r m \<longleftrightarrow> rep_seqno n (request_from r) < request_seqno r \<and>
        (\<forall>(q, k)\<in>set us. request_from q = request_from r \<longrightarrow> request_seqno q < request_seqno r)) \<and>
     (is_new r m \<or> served_again r \<or> m' = count_message sz m)"
proof -
  from assms obtain ms1 m ms2 m' where m: "dispatch_all us n = Inr (ms1, m)" "sigio_dispatch r sz m = Inr (ms2, m')"
    by (auto simp: dispatch_all_append tmk_bind_Inr_iff)
  have "is_new r m \<longleftrightarrow> rep_seqno n (request_from r) < request_seqno r \<and>
        (\<forall>(q, k)\<in>set us. request_from q = request_from r \<longrightarrow> request_seqno q < request_seqno r)"
    using fold_max_less [where P = "\<lambda>x. request_from (fst x) = request_from r" and f = "\<lambda>x. request_seqno (fst x)" and xs = us]
    by (simp add: is_new_def dispatch_all_ids [OF m(1)] split_beta)
  moreover have "m' = count_message sz m" if "\<not> is_new r m" "\<not> served_again r"
  proof -
    from m(2) that(1) obtain b where b: "sigio_duplicate_handlers r m = Inr (ms2, b)" "m' = count_message sz b"
      by (auto simp: sigio_dispatch_def tmk_bind_Inr_iff count_message_def)
    with duplicate_silent [OF that(2) b(1)] show ?thesis by simp
  qed
  ultimately show ?thesis using m by blast
qed

theorem sigio_exactly_once_witness:
  "\<exists>ms1 ms2 m m'. dispatch_all [(Req_repo 7 0, 12), (Req_exit 9 0, 12)] exit_demo = Inr (ms1, m) \<and>
     sigio_dispatch (Req_repo 7 0) 12 m = Inr (ms2, m') \<and> \<not> is_new (Req_repo 7 0) m \<and> m' = count_message 12 m"
proof -
  let ?us = "[(Req_repo 7 0, 12), (Req_exit 9 0, 12)]"
  have "\<exists>ms n'. dispatch_all (?us @ [(Req_repo 7 0, 12)]) exit_demo = Inr (ms, n')"
    by (simp add: sigio_dispatch_def)
  then obtain ms n' where "dispatch_all (?us @ [(Req_repo 7 0, 12)]) exit_demo = Inr (ms, n')" by blast
  from sigio_exactly_once [OF this] show ?thesis by fastforce
qed

section \<open>The order of service\<close>

text \<open>The messages of a round in the order of the numbers of the processes.\<close>

definition round_messages :: "nat list \<Rightarrow> (nat \<Rightarrow> (request \<times> u32) option option) \<Rightarrow> (request \<times> u32) list" where
  "round_messages is ready = List.map_filter (\<lambda>i. Option.bind (ready i) id) is"

lemma round_messages_simps [simp]:
  "round_messages [] ready = []"
  "round_messages (i # is) ready = (case ready i of Some (Some x) \<Rightarrow> x # round_messages is ready | _ \<Rightarrow> round_messages is ready)"
  by (auto simp: round_messages_def map_filter_simps split: option.splits)

lemma serve_round_messages:
  "\<forall>i\<in>set is. ready i \<noteq> Some None \<Longrightarrow> serve_round is ready n = dispatch_all (round_messages is ready) n"
  by (induction "is" arbitrary: n) (auto split: option.splits)

lemma dispatch_all_others: "dispatch_all rs n = Inr (ms, n') \<Longrightarrow> others n' = others n"
proof (induction rs n arbitrary: ms rule: dispatch_all.induct)
  case (2 r sz rs n)
  then show ?case by (auto simp: tmk_bind_Inr_iff others_def dispatch_ids(2,3))
qed simp



end
