(* ===== verification/Tmk_Malloc.thy ===== *)
theory Tmk_Malloc
  imports Tmk_Prelude
begin

text \<open>
  The allocator of shared memory, \<^verbatim>\<open>Tmk/src/sh_malloc.c\<close>: \<^verbatim>\<open>Tmk_sbrk\<close>, \<^verbatim>\<open>Tmk_malloc\<close> and \<^verbatim>\<open>Tmk_free\<close>.
  Free blocks of sizes 2^k and 3 * 2^k are chained per size through the shared memory itself; a request
  for which no block is free splits a larger one or moves \<^verbatim>\<open>curbrk\<close>.  The operations run while
  \<^verbatim>\<open>TABLE_LOCK\<close> is held, on the shared memory as the holder of the lock sees it.
\<close>

section \<open>State\<close>

abbreviation (input) BUCKET_BEGIN :: nat where "BUCKET_BEGIN \<equiv> 8"
abbreviation (input) BUCKET_END :: nat where "BUCKET_END \<equiv> 59"

text \<open>On ILP32 \<^verbatim>\<open>sizeof(chain->index)\<close> is 4 and \<^verbatim>\<open>struct Table\<close> has 4 + 4 * 59 bytes.\<close>

abbreviation (input) sizeof_index :: u32 where "sizeof_index \<equiv> 4"
abbreviation (input) sizeof_Table :: u32 where "sizeof_Table \<equiv> 240"

definition BUCKET_SIZE :: "nat \<Rightarrow> u32" where
  "BUCKET_SIZE i = push_bit (i div 2) (2 OR (of_nat i AND 1))"

definition C_xor_index :: u32 where "C_xor_index = - 16909321"

text \<open>
  \<open>table_set\<close> is \<^verbatim>\<open>table != NULL\<close>, \<open>curbrk\<close> and \<open>nextfit\<close> are the fields of the table at the start of the
  shared memory, and \<open>shm\<close> are the words of the shared memory by byte address: a \<^verbatim>\<open>struct Chain\<close>
  at \<open>a\<close> is the word \<open>index\<close> at \<open>a\<close> and the word \<open>chain\<close> at \<open>a + 4\<close>.  The shared memory goes from
  \<open>shm_begin\<close> (\<^verbatim>\<open>page_array_[0].vadr\<close>) to \<open>shm_end\<close> (\<^verbatim>\<open>page_array_[Tmk_npages].vadr\<close>).
\<close>

record shared =
  table_set :: bool
  curbrk :: u32
  nextfit :: "nat \<Rightarrow> u32"
  shm :: "u32 \<Rightarrow> u32"
  shm_begin :: u32
  shm_end :: u32
  shm_page_size :: u32

text \<open>A word is accessed inside the shared memory, or the access is wild.\<close>

definition in_shm :: "u32 \<Rightarrow> shared \<Rightarrow> bool" where
  "in_shm a s \<longleftrightarrow> shm_begin s \<le> a \<and> unat a + 4 \<le> unat (shm_end s)"

definition load :: "u32 \<Rightarrow> shared \<Rightarrow> u32 tmk_result" where
  "load a s = (if in_shm a s then Inr (shm s a) else Inl Wild_access)"

definition store :: "u32 \<Rightarrow> u32 \<Rightarrow> shared \<Rightarrow> shared tmk_result" where
  "store a w s = (if in_shm a s then Inr (s\<lparr>shm := (shm s)(a := w)\<rparr>) else Inl Wild_access)"

section \<open>The code\<close>

text \<open>
  \<^verbatim>\<open>while (BUCKET_SIZE(bucket) < need) bucket++\<close>; a shift by 32 bits or more is undefined: \<open>None\<close>.
\<close>

function find_bucket :: "u32 \<Rightarrow> nat \<Rightarrow> nat option" where
  "find_bucket need b =
     (if 64 \<le> b then None else if BUCKET_SIZE b < need then find_bucket need (b + 1) else Some b)"
  by pat_completeness auto
termination
  by (relation "measure (\<lambda>(need, b). 64 - b)") auto

declare find_bucket.simps [simp del]

definition table_initialize :: "shared \<Rightarrow> shared tmk_result" where
  "table_initialize s =
     (case find_bucket sizeof_Table BUCKET_BEGIN of
        None \<Rightarrow> Inl Wild_access
      | Some b \<Rightarrow> Inr (s\<lparr>table_set := True, curbrk := shm_begin s + BUCKET_SIZE b, nextfit := (\<lambda>_. 0)\<rparr>))"

definition table_ready :: "shared \<Rightarrow> shared tmk_result" where
  "table_ready s = (if table_set s then Inr s else table_initialize s)"

definition Tmk_sbrk :: "u32 \<Rightarrow> shared \<Rightarrow> (u32 \<times> shared) tmk_result" where
  "Tmk_sbrk size' s =
     (let sz = (size' + 7) AND NOT 7
      in tmk_bind (table_ready s) (\<lambda>s.
           let vadr = (curbrk s + 7) AND NOT 7
           in if vadr + sz > shm_end s then Inr (0, s) else Inr (vadr, s\<lparr>curbrk := vadr + sz\<rparr>)))"

text \<open>Putting a block on its list, and taking the first one.\<close>

definition push_chain :: "nat \<Rightarrow> u32 \<Rightarrow> shared \<Rightarrow> shared tmk_result" where
  "push_chain b c s =
     tmk_bind (store c (of_nat b XOR C_xor_index) s) (\<lambda>s.
     tmk_bind (store (c + 4) (nextfit s b) s) (\<lambda>s.
     Inr (s\<lparr>nextfit := (nextfit s)(b := c)\<rparr>)))"

definition pop_chain :: "nat \<Rightarrow> shared \<Rightarrow> (u32 \<times> shared) tmk_result" where
  "pop_chain b s =
     (let c = nextfit s b
      in tmk_bind (load (c + 4) s) (\<lambda>next_c. Inr (c, s\<lparr>nextfit := (nextfit s)(b := next_c)\<rparr>)))"

text \<open>
  \<^verbatim>\<open>sh_resize\<close>.  The inner loop: the first block of \<open>bucket\<close> becomes two of half the size, until they have
  the requested size; a block three sizes above gives two of the requested size and one of the
  power of two at or below.  The assertion on \<^verbatim>\<open>chain->index\<close> compares before it takes the exclusive or,
  so it always holds.
\<close>

function split_chain :: "nat \<Rightarrow> nat \<Rightarrow> shared \<Rightarrow> shared tmk_result" where
  "split_chain start b s =
     (if b \<le> start + 1 then Inr s
      else
        tmk_bind (pop_chain b s) (\<lambda>(c, s).
          if b - 2 = start + 1 then
            (let e = start - start mod 2
             in tmk_bind (push_chain e c s) (\<lambda>s.
                let c = c + BUCKET_SIZE e
                in tmk_bind (push_chain start c s) (\<lambda>s.
                   tmk_bind (push_chain start (c + BUCKET_SIZE start) s) (split_chain start start))))
          else
            tmk_bind (push_chain (b - 2) c s) (\<lambda>s.
            tmk_bind (push_chain (b - 2) (c + BUCKET_SIZE (b - 2)) s) (split_chain start (b - 2)))))"
  by pat_completeness auto
termination
  by (relation "measure (\<lambda>(start, b, s). b)") auto

declare split_chain.simps [simp del]

definition sh_resize :: "nat \<Rightarrow> shared \<Rightarrow> (bool \<times> shared) tmk_result" where
  "sh_resize start s =
     (case List.find (\<lambda>b. nextfit s b \<noteq> 0) [start + 2..<BUCKET_END] of
        None \<Rightarrow> Inr (False, s)
      | Some b \<Rightarrow> tmk_bind (split_chain start b s) (\<lambda>s. Inr (True, s)))"

text \<open>Taking a block at \<^verbatim>\<open>curbrk\<close>; from the page size on the payload starts on a page boundary.\<close>

definition carve :: "nat \<Rightarrow> shared \<Rightarrow> (u32 \<times> shared) tmk_result" where
  "carve b s =
     (let brk = curbrk s; ps = shm_page_size s;
          brk = (if BUCKET_SIZE b \<ge> ps then ((brk + ps) AND NOT (ps - 1)) - sizeof_index else brk);
          c = brk OR sizeof_index
      in tmk_bind (store c (of_nat b XOR C_xor_index) (s\<lparr>curbrk := c\<rparr>)) (\<lambda>s.
           let brk = c + BUCKET_SIZE b
           in if brk > shm_end s then Inr (0, s\<lparr>curbrk := c\<rparr>) else Inr (c + 4, s\<lparr>curbrk := brk\<rparr>)))"

text \<open>The loop of \<^verbatim>\<open>Tmk_malloc\<close>; \<open>None\<close> if it never ends.\<close>

partial_function (option) malloc_loop :: "nat \<Rightarrow> shared \<Rightarrow> (u32 \<times> shared) tmk_result option" where
  "malloc_loop b s =
     (if nextfit s b = 0
      then (case sh_resize b s of
              Inl e \<Rightarrow> Some (Inl e)
            | Inr (found, s) \<Rightarrow> if found then malloc_loop b s else Some (carve b s))
      else Some (tmk_bind (pop_chain b s) (\<lambda>(c, s). Inr (c + 4, s))))"

text \<open>The result 0 is \<^verbatim>\<open>NULL\<close>; \<^verbatim>\<open>nextfit\<close> has \<^verbatim>\<open>BUCKET_END\<close> entries.\<close>

definition Tmk_malloc :: "u32 \<Rightarrow> shared \<Rightarrow> (u32 \<times> shared) tmk_result" where
  "Tmk_malloc sz s =
     (case find_bucket (sz + sizeof_index) BUCKET_BEGIN of
        None \<Rightarrow> Inl Wild_access
      | Some b \<Rightarrow>
          tmk_bind (table_ready s) (\<lambda>s.
            if BUCKET_END \<le> b then Inl Wild_access
            else (case malloc_loop b s of None \<Rightarrow> Inl Wild_access | Some r \<Rightarrow> r)))"

text \<open>A pointer whose index word is not a bucket is reported and ignored.\<close>

definition Tmk_free :: "u32 \<Rightarrow> shared \<Rightarrow> shared tmk_result" where
  "Tmk_free ptr s =
     (if ptr = 0 then Inr s
      else
        (let c = ptr - sizeof_index
         in tmk_bind (load c s) (\<lambda>index.
              let bucket = unat (index XOR C_xor_index)
              in if bucket < BUCKET_END
                 then tmk_bind (table_ready s) (\<lambda>s.
                      tmk_bind (store (c + 4) (nextfit s bucket) s) (\<lambda>s.
                      Inr (s\<lparr>nextfit := (nextfit s)(bucket := c)\<rparr>)))
                 else Inr s)))"

section \<open>Sizes\<close>

definition bsz :: "nat \<Rightarrow> nat" where
  "bsz b = (if even b then 2 else 3) * 2 ^ (b div 2)"

lemma BUCKET_SIZE_unat:
  assumes "b < 62"
  shows "unat (BUCKET_SIZE b) = bsz b"
proof -
  have o: "2 OR (of_nat b AND 1 :: u32) = (if even b then 2 else 3)"
    by (cases "even b") (simp_all add: and_one_eq mod_2_eq_odd)
  have p: "(2::nat) ^ (b div 2) \<le> 2 ^ 30" using assms by (intro power_increasing) auto
  have "BUCKET_SIZE b = of_nat (bsz b)" unfolding BUCKET_SIZE_def o bsz_def by (simp add: push_bit_eq_mult)
  moreover have "bsz b < 2 ^ LENGTH(32)" using p by (simp add: bsz_def)
  ultimately show ?thesis by simp
qed

lemma bsz_half: "2 \<le> b \<Longrightarrow> bsz b = bsz (b - 2) + bsz (b - 2)"
proof -
  assume "2 \<le> b"
  then obtain c where "b = c + 2" by (metis le_add_diff_inverse2)
  then show ?thesis by (simp add: bsz_def)
qed

lemma bsz_three: "bsz (start + 3) = bsz (start - start mod 2) + bsz start + bsz start"
proof (cases "even start")
  case True
  then obtain k where "start = 2 * k" by (elim evenE)
  then show ?thesis by (simp add: bsz_def)
next
  case False
  then obtain k where "start = 2 * k + 1" by (elim oddE)
  then show ?thesis by (simp add: bsz_def)
qed

lemma bsz_mono: "b \<le> c \<Longrightarrow> bsz b \<le> bsz c"
proof (induction rule: dec_induct)
  case (step n)
  have "bsz n \<le> bsz (Suc n)"
  proof (cases "even n")
    case True
    then show ?thesis by (simp add: bsz_def)
  next
    case False
    then obtain k where "n = 2 * k + 1" by (elim oddE)
    then show ?thesis by (simp add: bsz_def)
  qed
  with step show ?case by simp
qed simp

lemma bsz_16: "8 \<le> b \<Longrightarrow> 16 dvd bsz b"
proof -
  assume "8 \<le> b"
  then have "(2::nat) ^ 4 dvd 2 ^ (b div 2)" by (intro le_imp_power_dvd) auto
  then show ?thesis by (simp add: bsz_def)
qed

lemma aligned_add: "(x :: nat) mod 8 = 4 \<Longrightarrow> 16 dvd n \<Longrightarrow> (x + n) mod 8 = 4"
  by presburger

lemma bsz_bounds: "8 \<le> b \<Longrightarrow> 32 \<le> bsz b" "b < 59 \<Longrightarrow> bsz b \<le> 2 ^ 30"
  using bsz_mono [of 8 b] bsz_mono [of b 58] by (simp_all add: bsz_def)

text \<open>The search stops at the smallest block size that fits.\<close>

lemma find_bucket_spec:
  assumes "b \<le> 58" "unat need \<le> 2 ^ 30"
  obtains c where "find_bucket need b = Some c" "b \<le> c" "c \<le> 58" "unat need \<le> bsz c" "\<And>d. b \<le> d \<Longrightarrow> d < c \<Longrightarrow> bsz d < unat need"
proof -
  have "\<exists>c. find_bucket need b = Some c \<and> b \<le> c \<and> c \<le> 58 \<and> unat need \<le> bsz c \<and> (\<forall>d. b \<le> d \<and> d < c \<longrightarrow> bsz d < unat need)"
    using assms(1)
  proof (induction "58 - b" arbitrary: b)
    case 0
    then have "b = 58" by simp
    moreover have "\<not> BUCKET_SIZE 58 < need" using assms(2) by (simp add: word_less_nat_alt BUCKET_SIZE_unat bsz_def)
    ultimately show ?case using assms(2) by (subst find_bucket.simps) (simp add: bsz_def)
  next
    case (Suc k)
    have lt: "BUCKET_SIZE b < need \<longleftrightarrow> bsz b < unat need" using Suc.prems by (simp add: word_less_nat_alt BUCKET_SIZE_unat)
    show ?case
    proof (cases "BUCKET_SIZE b < need")
      case True
      have "k = 58 - (b + 1)" "b + 1 \<le> 58" using Suc.hyps(2) by simp_all
      from Suc.hyps(1) [OF this] obtain c where "find_bucket need (b + 1) = Some c" "b + 1 \<le> c" "c \<le> 58"
        "unat need \<le> bsz c" "\<forall>d. b + 1 \<le> d \<and> d < c \<longrightarrow> bsz d < unat need" by blast
      moreover have "find_bucket need b = find_bucket need (b + 1)" using True Suc.prems by (subst find_bucket.simps) simp
      moreover have "bsz b < unat need" using True lt by simp
      ultimately show ?thesis by (intro exI [of _ c]) (metis Suc_eq_plus1 le_antisym not_less_eq_eq Suc_leD)
    next
      case False
      then have "find_bucket need b = Some b" using Suc.prems by (subst find_bucket.simps) simp
      with False lt Suc.prems show ?thesis by auto
    qed
  qed
  with that show ?thesis by blast
qed

section \<open>The blocks\<close>

text \<open>
  A block is an address with its bucket.  Blocks tile a part of the shared memory: they lie
  between the table and \<^verbatim>\<open>curbrk\<close>, do not overlap, and the payload, 4 bytes into the block, is double-word
  aligned.
\<close>

type_synonym block = "u32 \<times> nat"

definition extent :: "block \<Rightarrow> nat set" where
  "extent x = {unat (fst x)..<unat (fst x) + bsz (snd x)}"

definition block_ok :: "nat \<Rightarrow> nat \<Rightarrow> block \<Rightarrow> bool" where
  "block_ok lo hi x \<longleftrightarrow> 8 \<le> snd x \<and> snd x < BUCKET_END \<and> lo \<le> unat (fst x) \<and>
     unat (fst x) + bsz (snd x) \<le> hi \<and> unat (fst x) mod 8 = 4"

definition tiles :: "nat \<Rightarrow> nat \<Rightarrow> block set \<Rightarrow> bool" where
  "tiles lo hi S \<longleftrightarrow> (\<forall>x \<in> S. block_ok lo hi x) \<and> (\<forall>x \<in> S. \<forall>y \<in> S. x \<noteq> y \<longrightarrow> extent x \<inter> extent y = {})"

lemma tilesD: "tiles lo hi S \<Longrightarrow> x \<in> S \<Longrightarrow> y \<in> S \<Longrightarrow> x \<noteq> y \<Longrightarrow> extent x \<inter> extent y = {}"
  by (simp add: tiles_def)

lemma tiles_subset: "tiles lo hi S \<Longrightarrow> T \<subseteq> S \<Longrightarrow> tiles lo hi T"
  unfolding tiles_def by blast

lemma tiles_ext: "tiles lo hi S \<Longrightarrow> hi \<le> hi' \<Longrightarrow> tiles lo hi' S"
  by (auto simp: tiles_def block_ok_def)

text \<open>Replacing a block by blocks inside it.\<close>

lemma tiles_replace:
  assumes S: "tiles lo hi (insert x S)" "x \<notin> S" and T: "tiles lo hi T" "\<And>y. y \<in> T \<Longrightarrow> extent y \<subseteq> extent x"
  shows "tiles lo hi (T \<union> S)"
proof -
  have "extent y \<inter> extent z = {}" if "y \<in> T" "z \<in> S" for y z
  proof -
    have "extent x \<inter> extent z = {}" using S that by (auto simp: tiles_def)
    with T(2) [OF that(1)] show ?thesis by blast
  qed
  with assms show ?thesis unfolding tiles_def by (metis UnE insertCI inf_commute)
qed

text \<open>The two words of a chain, as addresses, are inside the block.\<close>

lemma block_words:
  assumes "block_ok lo hi (c, b)" "hi < 2 ^ 32"
  shows "unat (c + 4) = unat c + 4" "{unat c, unat (c + 4)} \<subseteq> extent (c, b)"
proof -
  have sz: "32 \<le> bsz b" and hi: "unat c + bsz b \<le> hi" using assms(1) bsz_bounds(1) [of b] by (auto simp: block_ok_def)
  then show u: "unat (c + 4) = unat c + 4" using assms(2) by (simp add: unat_word_ariths)
  show "{unat c, unat (c + 4)} \<subseteq> extent (c, b)" using sz by (simp add: u extent_def)
qed

lemma unat_add_bsz:
  assumes "unat c + bsz b \<le> hi" "hi < 2 ^ 32" "b < BUCKET_END"
  shows "unat (c + BUCKET_SIZE b) = unat c + bsz b"
  using assms by (simp add: unat_word_ariths BUCKET_SIZE_unat)

section \<open>The invariant\<close>

fun chain_path :: "(u32 \<Rightarrow> u32) \<Rightarrow> u32 \<Rightarrow> u32 list \<Rightarrow> bool" where
  "chain_path m c [] \<longleftrightarrow> c = 0"
| "chain_path m c (x # xs) \<longleftrightarrow> c = x \<and> x \<noteq> 0 \<and> chain_path m (m (x + 4)) xs"

lemma chain_path_cong: "(\<And>x. x \<in> set xs \<Longrightarrow> m (x + 4) = m' (x + 4)) \<Longrightarrow> chain_path m c xs = chain_path m' c xs"
  by (induction xs arbitrary: c) auto

definition free_blocks :: "(nat \<Rightarrow> u32 list) \<Rightarrow> block set" where
  "free_blocks F = {(c, b). c \<in> set (F b)}"

text \<open>
  \<open>A\<close> are the allocated blocks, \<open>F\<close> the free lists, and \<open>H\<close> blocks that the code holds between
  taking them from a list and putting them, or parts of them, on another.  The shared memory ends on a
  page boundary below the kernel's part of the address space.
\<close>

definition shm_ok :: "shared \<Rightarrow> bool" where
  "shm_ok s \<longleftrightarrow> unat (shm_end s) \<le> 3 * 2 ^ 30 \<and>
     (\<exists>k \<in> {12..15}. shm_page_size s = 2 ^ k \<and> 2 ^ k dvd unat (shm_end s) \<and> 2 ^ k dvd unat (shm_begin s))"

definition held_inv :: "shared \<Rightarrow> block set \<Rightarrow> block set \<Rightarrow> (nat \<Rightarrow> u32 list) \<Rightarrow> bool" where
  "held_inv s A H F \<longleftrightarrow>
     shm_ok s \<and> table_set s \<and> unat (curbrk s) \<le> unat (shm_end s) \<and> 4 dvd unat (curbrk s) \<and>
     unat (shm_begin s) + 256 \<le> unat (curbrk s) \<and>
     tiles (unat (shm_begin s) + 256) (unat (curbrk s)) (A \<union> H \<union> free_blocks F) \<and>
     A \<inter> H = {} \<and> A \<inter> free_blocks F = {} \<and> H \<inter> free_blocks F = {} \<and>
     (\<forall>(a, b) \<in> A \<union> free_blocks F. shm s a = of_nat b XOR C_xor_index) \<and>
     (\<forall>b. chain_path (shm s) (nextfit s b) (F b) \<and> distinct (F b))"

abbreviation sh_inv :: "shared \<Rightarrow> block set \<Rightarrow> (nat \<Rightarrow> u32 list) \<Rightarrow> bool" where
  "sh_inv s A F \<equiv> held_inv s A {} F"

text \<open>Outside the given addresses the shared memory is unchanged; the mapping never changes.\<close>

definition writes :: "nat set \<Rightarrow> shared \<Rightarrow> shared \<Rightarrow> bool" where
  "writes X s s' \<longleftrightarrow> (\<forall>w. unat w \<notin> X \<longrightarrow> shm s' w = shm s w) \<and>
     shm_begin s' = shm_begin s \<and> shm_end s' = shm_end s \<and> shm_page_size s' = shm_page_size s"

lemma writes_refl [simp]: "writes X s s" by (simp add: writes_def)

lemma writes_trans: "writes X s t \<Longrightarrow> writes Y t u \<Longrightarrow> X \<subseteq> Z \<Longrightarrow> Y \<subseteq> Z \<Longrightarrow> writes Z s u"
  unfolding writes_def by (metis subsetD)

lemma held_invD:
  assumes "held_inv s A H F"
  shows "shm_ok s" "table_set s" "unat (curbrk s) \<le> unat (shm_end s)" "4 dvd unat (curbrk s)"
    "unat (shm_begin s) + 256 \<le> unat (curbrk s)"
    "tiles (unat (shm_begin s) + 256) (unat (curbrk s)) (A \<union> H \<union> free_blocks F)"
    "A \<inter> H = {}" "A \<inter> free_blocks F = {}" "H \<inter> free_blocks F = {}"
    "(a, b) \<in> A \<union> free_blocks F \<Longrightarrow> shm s a = of_nat b XOR C_xor_index"
    "chain_path (shm s) (nextfit s b) (F b)" "distinct (F b)" "unat (curbrk s) < 2 ^ 32" "unat (shm_end s) \<le> 3 * 2 ^ 30"
  using assms by (auto simp: held_inv_def shm_ok_def)

lemma held_invI:
  assumes "shm_ok s" "table_set s" "unat (curbrk s) \<le> unat (shm_end s)" "4 dvd unat (curbrk s)"
    "unat (shm_begin s) + 256 \<le> unat (curbrk s)"
    "tiles (unat (shm_begin s) + 256) (unat (curbrk s)) (A \<union> H \<union> free_blocks F)"
    "A \<inter> H = {}" "A \<inter> free_blocks F = {}" "H \<inter> free_blocks F = {}"
    "\<And>a b. (a, b) \<in> A \<union> free_blocks F \<Longrightarrow> shm s a = of_nat b XOR C_xor_index"
    "\<And>b. chain_path (shm s) (nextfit s b) (F b)" "\<And>b. distinct (F b)"
  shows "held_inv s A H F"
  using assms unfolding held_inv_def by blast

lemma held_block_ok:
  assumes "held_inv s A H F" "x \<in> A \<union> H \<union> free_blocks F"
  shows "block_ok (unat (shm_begin s) + 256) (unat (curbrk s)) x"
  using held_invD(6) [OF assms(1)] assms(2) unfolding tiles_def by blast

lemma held_in_shm:
  assumes "held_inv s A H F" "(c, b) \<in> A \<union> H \<union> free_blocks F"
  shows "in_shm c s" "in_shm (c + 4) s" "c \<noteq> 0"
proof -
  note ok = held_block_ok [OF assms] and D = held_invD [OF assms(1)]
  have "32 \<le> bsz b" using ok bsz_bounds(1) [of b] by (simp add: block_ok_def)
  with ok block_words(1) [OF ok D(13)] D(3,5) show "in_shm c s" "in_shm (c + 4) s" "c \<noteq> 0"
    by (auto simp: in_shm_def block_ok_def word_le_nat_alt)
qed

text \<open>Taking the first block of a list.\<close>

lemma pop_held:
  assumes inv: "held_inv s A H F" and F: "F b = c # cs"
  shows "\<exists>s'. pop_chain b s = Inr (c, s') \<and> held_inv s' A (insert (c, b) H) (F(b := cs)) \<and> writes {} s s' \<and> curbrk s' = curbrk s"
proof -
  note D = held_invD [OF inv]
  let ?s = "s\<lparr>nextfit := (nextfit s)(b := shm s (c + 4))\<rparr>"
  have p: "nextfit s b = c" "chain_path (shm s) (shm s (c + 4)) cs" "c \<notin> set cs" "distinct cs"
    using D(11,12) [of b] F by simp_all
  have fr: "free_blocks F = insert (c, b) (free_blocks (F(b := cs)))" "(c, b) \<notin> free_blocks (F(b := cs))"
    using F p(3) by (auto simp: free_blocks_def split: if_splits)
  have "in_shm (c + 4) s" by (rule held_in_shm(2) [OF inv, of c b]) (simp add: fr)
  then have "pop_chain b s = Inr (c, ?s)" by (simp add: pop_chain_def Let_def p(1) load_def)
  moreover have "held_inv ?s A (insert (c, b) H) (F(b := cs))"
  proof (rule held_invI)
    have "A \<union> insert (c, b) H \<union> free_blocks (F(b := cs)) = A \<union> H \<union> free_blocks F" using fr(1) by blast
    then show "tiles (unat (shm_begin ?s) + 256) (unat (curbrk ?s)) (A \<union> insert (c, b) H \<union> free_blocks (F(b := cs)))"
      using D(6) by simp
    show "A \<inter> insert (c, b) H = {}" "A \<inter> free_blocks (F(b := cs)) = {}" "insert (c, b) H \<inter> free_blocks (F(b := cs)) = {}"
      using fr D(7-9) by blast+
    show "shm ?s a = of_nat d XOR C_xor_index" if "(a, d) \<in> A \<union> free_blocks (F(b := cs))" for a d
      using D(10) [of a d] that fr(1) by auto
  qed (use D p in \<open>auto simp: shm_ok_def\<close>)
  ultimately show ?thesis by (simp add: writes_def)
qed

text \<open>Putting a held block on the list of its bucket.\<close>

lemma push_held:
  assumes inv: "held_inv s A (insert (c, b) H) F" and h: "(c, b) \<notin> H"
  shows "\<exists>s'. push_chain b c s = Inr s' \<and> held_inv s' A H (F(b := c # F b)) \<and> writes (extent (c, b)) s s' \<and> curbrk s' = curbrk s"
proof -
  note D = held_invD [OF inv]
  have ok: "block_ok (unat (shm_begin s) + 256) (unat (curbrk s)) (c, b)" by (rule held_block_ok [OF inv]) simp
  have in2: "in_shm c s" "in_shm (c + 4) s" "c \<noteq> 0" by (rule held_in_shm [OF inv, of c b]; simp)+
  note bw = block_words [OF ok D(13)]
  define s' where "s' = s\<lparr>shm := (shm s)(c := of_nat b XOR C_xor_index, c + 4 := nextfit s b), nextfit := (nextfit s)(b := c)\<rparr>"
  have "push_chain b c s = Inr s'"
    using in2 by (simp add: push_chain_def store_def s'_def in_shm_def)
  moreover have w: "writes (extent (c, b)) s s'" using bw(2) by (auto simp: writes_def s'_def)
  moreover have "held_inv s' A H (F(b := c # F b))"
  proof -
    have nf: "c \<notin> set (F b)" using D(9) by (auto simp: free_blocks_def)
    have fr: "free_blocks (F(b := c # F b)) = insert (c, b) (free_blocks F)" by (auto simp: free_blocks_def)
    have keep: "shm s' a = shm s a \<and> shm s' (a + 4) = shm s (a + 4)" if "(a, d) \<in> A \<union> free_blocks F" for a d
    proof -
      have ad: "(a, d) \<in> A \<union> insert (c, b) H \<union> free_blocks F" "(a, d) \<noteq> (c, b)" using that D(7,9) by auto
      then have "extent (a, d) \<inter> extent (c, b) = {}" using tilesD [OF D(6), of "(a, d)" "(c, b)"] by simp
      moreover have "block_ok (unat (shm_begin s) + 256) (unat (curbrk s)) (a, d)" by (rule held_block_ok [OF inv ad(1)])
      ultimately show ?thesis using block_words(2) [of _ _ a d] D(13) w unfolding writes_def by blast
    qed
    have new: "shm s' c = of_nat b XOR C_xor_index" "shm s' (c + 4) = nextfit s b"
      using bw(1) by (auto simp: s'_def)
    have "shm s' a = of_nat d XOR C_xor_index" if "(a, d) \<in> A \<union> free_blocks (F(b := c # F b))" for a d
      using that keep [of a d] D(10) [of a d] new(1) fr by auto
    moreover have "chain_path (shm s') (nextfit s d) (F d)" for d
    proof -
      have "shm s (x + 4) = shm s' (x + 4)" if "x \<in> set (F d)" for x using keep [of x d] that by (simp add: free_blocks_def)
      with D(11) [of d] chain_path_cong show ?thesis by metis
    qed
    moreover have "A \<union> H \<union> insert (c, b) (free_blocks F) = A \<union> insert (c, b) H \<union> free_blocks F" by blast
    moreover have "A \<inter> insert (c, b) (free_blocks F) = {}" "H \<inter> insert (c, b) (free_blocks F) = {}" using D(7-9) h by blast+
    ultimately show ?thesis
      by (intro held_invI) (use D new(2) in2(3) nf fr in \<open>auto simp: s'_def shm_ok_def\<close>)
  qed
  ultimately show ?thesis by (auto simp: s'_def)
qed

text \<open>Cutting a held block.\<close>

lemma cut_held:
  assumes inv: "held_inv s A (insert x H) F" "x \<notin> H" and T: "tiles (unat (shm_begin s) + 256) (unat (curbrk s)) T"
    "\<And>y. y \<in> T \<Longrightarrow> extent y \<subseteq> extent x"
  shows "held_inv s A (T \<union> H) F \<and> T \<inter> H = {}"
proof -
  note D = held_invD [OF inv(1)]
  have x: "x \<notin> A \<union> H \<union> free_blocks F" using D(7,9) inv(2) by auto
  have t: "tiles (unat (shm_begin s) + 256) (unat (curbrk s)) (insert x (A \<union> H \<union> free_blocks F))" using D(6) by simp
  have "T \<inter> (A \<union> H \<union> free_blocks F) = {}"
  proof (rule ccontr)
    assume "T \<inter> (A \<union> H \<union> free_blocks F) \<noteq> {}"
    then obtain y where y: "y \<in> T" "y \<in> A \<union> H \<union> free_blocks F" by blast
    then have "x \<noteq> y" using x by auto
    then have "extent x \<inter> extent y = {}" using tilesD [OF t, of x y] y(2) by simp
    moreover have "block_ok (unat (shm_begin s) + 256) (unat (curbrk s)) y" using T(1) y(1) by (auto simp: tiles_def)
    then have "unat (fst y) \<in> extent y" using bsz_bounds(1) [of "snd y"] by (auto simp: block_ok_def extent_def)
    ultimately show False using T(2) [OF y(1)] by blast
  qed
  then have dis: "A \<inter> (T \<union> H) = {}" "(T \<union> H) \<inter> free_blocks F = {}" "T \<inter> H = {}" using D(7,9) by blast+
  have "A \<union> (T \<union> H) \<union> free_blocks F = T \<union> (A \<union> H \<union> free_blocks F)" by blast
  with tiles_replace [OF t x T] have "held_inv s A (T \<union> H) F"
    by (intro held_invI) (use D(1-5,8,10-12) dis in simp_all)
  with dis show ?thesis by blast
qed

section \<open>Splitting\<close>

definition free_bytes :: "(nat \<Rightarrow> u32 list) \<Rightarrow> nat set" where
  "free_bytes F = \<Union> (extent ` free_blocks F)"

lemma tile_two:
  assumes "block_ok lo hi (c, b)" "10 \<le> b" "hi < 2 ^ 32"
  defines "d \<equiv> c + BUCKET_SIZE (b - 2)"
  shows "tiles lo hi {(c, b - 2), (d, b - 2)}" "(c, b - 2) \<noteq> (d, b - 2)"
    "extent (c, b - 2) \<subseteq> extent (c, b)" "extent (d, b - 2) \<subseteq> extent (c, b)"
proof -
  have b: "b < BUCKET_END" "unat c + bsz b \<le> hi" "lo \<le> unat c" "unat c mod 8 = 4" using assms(1) by (auto simp: block_ok_def)
  have b2: "8 \<le> b - 2" "b - 2 < BUCKET_END" using assms(2) b(1) by simp_all
  then have h: "bsz b = bsz (b - 2) + bsz (b - 2)" "0 < bsz (b - 2)" using bsz_half [of b] bsz_bounds(1) [of "b - 2"] assms(2) by simp_all
  have d: "unat d = unat c + bsz (b - 2)" unfolding d_def by (rule unat_add_bsz [of _ _ hi]) (use b h assms(3) in auto)
  have m: "unat d mod 8 = 4" unfolding d by (rule aligned_add [OF b(4) bsz_16 [OF b2(1)]])
  from b h d m b2 show "tiles lo hi {(c, b - 2), (d, b - 2)}" "(c, b - 2) \<noteq> (d, b - 2)"
    "extent (c, b - 2) \<subseteq> extent (c, b)" "extent (d, b - 2) \<subseteq> extent (c, b)"
    by (auto simp: tiles_def block_ok_def extent_def)
qed

lemma tile_three:
  assumes "block_ok lo hi (c, start + 3)" "8 \<le> start" "hi < 2 ^ 32"
  defines "e \<equiv> start - start mod 2"
  defines "d \<equiv> c + BUCKET_SIZE e"
  defines "f \<equiv> d + BUCKET_SIZE start"
  shows "tiles lo hi {(c, e), (d, start), (f, start)}" "c \<noteq> d" "d \<noteq> f" "c \<noteq> f"
    "extent (c, e) \<subseteq> extent (c, start + 3)" "extent (d, start) \<subseteq> extent (c, start + 3)" "extent (f, start) \<subseteq> extent (c, start + 3)"
proof -
  have b: "start + 3 < BUCKET_END" "unat c + bsz (start + 3) \<le> hi" "lo \<le> unat c" "unat c mod 8 = 4" using assms(1) by (auto simp: block_ok_def)
  have e: "8 \<le> e" "e \<le> start" unfolding e_def using assms(2) by presburger+
  have h: "bsz (start + 3) = bsz e + bsz start + bsz start" "0 < bsz e" "0 < bsz start"
    using bsz_three [of start] bsz_bounds(1) [of e] bsz_bounds(1) [of start] e assms(2) by (auto simp: e_def)
  have d: "unat d = unat c + bsz e" unfolding d_def by (rule unat_add_bsz [of _ _ hi]) (use b h e assms(3) in auto)
  have f: "unat f = unat c + bsz e + bsz start" unfolding f_def d [symmetric] by (rule unat_add_bsz [of _ _ hi]) (use b h d assms(3) in auto)
  have m: "unat d mod 8 = 4" "unat f mod 8 = 4"
    unfolding d f by (intro aligned_add b(4) bsz_16 e(1) assms(2))+
  show "c \<noteq> d" "d \<noteq> f" "c \<noteq> f" using d f h by auto
  from b h d f m e assms(2) show "tiles lo hi {(c, e), (d, start), (f, start)}"
    "extent (c, e) \<subseteq> extent (c, start + 3)" "extent (d, start) \<subseteq> extent (c, start + 3)" "extent (f, start) \<subseteq> extent (c, start + 3)"
    by (auto simp: tiles_def block_ok_def extent_def)
qed

text \<open>One round of the inner loop of \<^verbatim>\<open>sh_resize\<close>, in its two forms.\<close>

lemma halve:
  assumes inv: "sh_inv s A F" and F: "F b = c # cs" and b: "10 \<le> b"
  shows "\<exists>s1 s2 s3. pop_chain b s = Inr (c, s1) \<and> push_chain (b - 2) c s1 = Inr s2 \<and>
    push_chain (b - 2) (c + BUCKET_SIZE (b - 2)) s2 = Inr s3 \<and>
    sh_inv s3 A (F(b := cs, b - 2 := (c + BUCKET_SIZE (b - 2)) # c # F (b - 2))) \<and> writes (extent (c, b)) s s3 \<and> curbrk s3 = curbrk s"
proof -
  let ?d = "c + BUCKET_SIZE (b - 2)"
  obtain s1 where s1: "pop_chain b s = Inr (c, s1)" "held_inv s1 A {(c, b)} (F(b := cs))" "writes {} s s1" "curbrk s1 = curbrk s"
    using pop_held [OF inv F] by auto
  have ok: "block_ok (unat (shm_begin s1) + 256) (unat (curbrk s1)) (c, b)" by (rule held_block_ok [OF s1(2)]) simp
  note t = tile_two [OF ok b held_invD(13) [OF s1(2)]]
  have held: "held_inv s1 A {(c, b - 2), (?d, b - 2)} (F(b := cs))"
    using cut_held [OF s1(2) _ t(1)] t(3,4) by auto
  have nb: "b - 2 \<noteq> b" using b by simp
  from push_held [OF held] t(2) obtain s2 where s2: "push_chain (b - 2) c s1 = Inr s2"
    "held_inv s2 A {(?d, b - 2)} (F(b := cs, b - 2 := c # F (b - 2)))" "writes (extent (c, b - 2)) s1 s2" "curbrk s2 = curbrk s1"
    using nb by auto
  from push_held [OF s2(2)] obtain s3 where s3: "push_chain (b - 2) ?d s2 = Inr s3"
    "held_inv s3 A {} (F(b := cs, b - 2 := ?d # c # F (b - 2)))" "writes (extent (?d, b - 2)) s2 s3" "curbrk s3 = curbrk s2" by auto
  have "writes (extent (c, b)) s s2" by (rule writes_trans [OF s1(3) s2(3)]) (use t(3) in auto)
  then have "writes (extent (c, b)) s s3" by (rule writes_trans [OF _ s3(3)]) (use t(4) in auto)
  with s1(1,4) s2(1,4) s3(1,2,4) show ?thesis by auto
qed

lemma thirds:
  assumes inv: "sh_inv s A F" and F: "F (start + 3) = c # cs" and b: "8 \<le> start"
  defines "e \<equiv> start - start mod 2"
  defines "d \<equiv> c + BUCKET_SIZE e"
  defines "G \<equiv> F(start + 3 := cs, e := c # F e)"
  shows "\<exists>s1 s2 s3 s4. pop_chain (start + 3) s = Inr (c, s1) \<and> push_chain e c s1 = Inr s2 \<and>
    push_chain start d s2 = Inr s3 \<and> push_chain start (d + BUCKET_SIZE start) s3 = Inr s4 \<and>
    sh_inv s4 A (G(start := (d + BUCKET_SIZE start) # d # G start)) \<and> writes (extent (c, start + 3)) s s4 \<and> curbrk s4 = curbrk s"
proof -
  let ?f = "d + BUCKET_SIZE start"
  obtain s1 where s1: "pop_chain (start + 3) s = Inr (c, s1)" "held_inv s1 A {(c, start + 3)} (F(start + 3 := cs))" "writes {} s s1" "curbrk s1 = curbrk s"
    using pop_held [OF inv F] by auto
  have ok: "block_ok (unat (shm_begin s1) + 256) (unat (curbrk s1)) (c, start + 3)" by (rule held_block_ok [OF s1(2)]) simp
  note t = tile_three [OF ok b held_invD(13) [OF s1(2)], folded e_def, folded d_def]
  have ne: "e \<noteq> start + 3" by (simp add: e_def)
  have "held_inv s1 A {(c, e), (d, start), (?f, start)} (F(start + 3 := cs))"
    using cut_held [OF s1(2) _ t(1)] t(5-7) by auto
  from push_held [OF this] t(2,4) ne obtain s2 where s2: "push_chain e c s1 = Inr s2"
    "held_inv s2 A {(d, start), (?f, start)} G" "writes (extent (c, e)) s1 s2" "curbrk s2 = curbrk s1" by (auto simp: G_def)
  from push_held [OF s2(2)] t(3) obtain s3 where s3: "push_chain start d s2 = Inr s3"
    "held_inv s3 A {(?f, start)} (G(start := d # G start))" "writes (extent (d, start)) s2 s3" "curbrk s3 = curbrk s2" by auto
  from push_held [OF s3(2)] obtain s4 where s4: "push_chain start ?f s3 = Inr s4"
    "held_inv s4 A {} (G(start := ?f # d # G start))" "writes (extent (?f, start)) s3 s4" "curbrk s4 = curbrk s3" by auto
  let ?X = "extent (c, start + 3)"
  have "writes ?X s s2" by (rule writes_trans [OF s1(3) s2(3)]) (use t(5) in auto)
  then have "writes ?X s s3" by (rule writes_trans [OF _ s3(3)]) (use t(6) in auto)
  then have "writes ?X s s4" by (rule writes_trans [OF _ s4(3)]) (use t(7) in auto)
  with s1(1,4) s2(1,4) s3(1,4) s4(1,2,4) show ?thesis by auto
qed

lemma free_bytes_mono:
  assumes "\<And>c d. c \<in> set (F' d) \<Longrightarrow> c \<notin> set (F d) \<Longrightarrow> extent (c, d) \<subseteq> free_bytes F"
  shows "free_bytes F' \<subseteq> free_bytes F"
proof -
  have "extent (c, d) \<subseteq> free_bytes F" if "c \<in> set (F' d)" for c d
    using assms [OF that] by (cases "c \<in> set (F d)") (auto simp: free_bytes_def free_blocks_def)
  then show ?thesis by (auto simp: free_bytes_def free_blocks_def)
qed

lemma halve_bytes:
  assumes inv: "sh_inv s A F" and F: "F b = c # cs" and b: "10 \<le> b"
  shows "free_bytes (F(b := cs, b - 2 := (c + BUCKET_SIZE (b - 2)) # c # F (b - 2))) \<subseteq> free_bytes F" "extent (c, b) \<subseteq> free_bytes F"
proof -
  have fr: "(c, b) \<in> free_blocks F" using F by (simp add: free_blocks_def)
  then show e: "extent (c, b) \<subseteq> free_bytes F" by (auto simp: free_bytes_def)
  have ok: "block_ok (unat (shm_begin s) + 256) (unat (curbrk s)) (c, b)" by (rule held_block_ok [OF inv]) (simp add: fr)
  note t = tile_two [OF ok b held_invD(13) [OF inv]]
  show "free_bytes (F(b := cs, b - 2 := (c + BUCKET_SIZE (b - 2)) # c # F (b - 2))) \<subseteq> free_bytes F"
    using t(3,4) e F by (intro free_bytes_mono) (auto split: if_splits)
qed

lemma thirds_bytes:
  assumes inv: "sh_inv s A F" and F: "F (start + 3) = c # cs" and b: "8 \<le> start"
  defines "e \<equiv> start - start mod 2"
  defines "d \<equiv> c + BUCKET_SIZE e"
  defines "G \<equiv> F(start + 3 := cs, e := c # F e)"
  shows "free_bytes (G(start := (d + BUCKET_SIZE start) # d # G start)) \<subseteq> free_bytes F" "extent (c, start + 3) \<subseteq> free_bytes F"
proof -
  have fr: "(c, start + 3) \<in> free_blocks F" using F by (simp add: free_blocks_def)
  then show x: "extent (c, start + 3) \<subseteq> free_bytes F" by (auto simp: free_bytes_def)
  have ok: "block_ok (unat (shm_begin s) + 256) (unat (curbrk s)) (c, start + 3)" by (rule held_block_ok [OF inv]) (simp add: fr)
  note t = tile_three [OF ok b held_invD(13) [OF inv], folded e_def, folded d_def]
  show "free_bytes (G(start := (d + BUCKET_SIZE start) # d # G start)) \<subseteq> free_bytes F"
    unfolding G_def using t(5-7) x F by (intro free_bytes_mono) (auto split: if_splits)
qed

lemma split_chain_inv:
  assumes "sh_inv s A F" "F b \<noteq> []" "start + 2 \<le> b" "8 \<le> start"
  shows "\<exists>s' F'. split_chain start b s = Inr s' \<and> sh_inv s' A F' \<and> F' start \<noteq> [] \<and> writes (free_bytes F) s s' \<and>
    free_bytes F' \<subseteq> free_bytes F \<and> curbrk s' = curbrk s"
  using assms(1-3)
proof (induction b arbitrary: s F rule: less_induct)
  case (less b)
  then obtain c cs where F: "F b = c # cs" by (cases "F b") auto
  have stop: "split_chain start start s = Inr s" for s by (subst split_chain.simps) simp
  show ?case
  proof (cases "b - 2 = start + 1")
    case True
    then have b: "b = start + 3" using less.prems(3) by simp
    let ?e = "start - start mod 2" let ?d = "c + BUCKET_SIZE ?e" let ?G = "F(start + 3 := cs, ?e := c # F ?e)"
    have F3: "F (start + 3) = c # cs" using F b by simp
    obtain s1 s2 s3 s4 where s: "pop_chain (start + 3) s = Inr (c, s1)" "push_chain ?e c s1 = Inr s2" "push_chain start ?d s2 = Inr s3"
      "push_chain start (?d + BUCKET_SIZE start) s3 = Inr s4" "sh_inv s4 A (?G(start := (?d + BUCKET_SIZE start) # ?d # ?G start))"
      "writes (extent (c, start + 3)) s s4" "curbrk s4 = curbrk s"
      using thirds [OF less.prems(1) F3 assms(4)] by blast
    have "split_chain start b s = Inr s4" using s(1-4) by (subst split_chain.simps) (simp add: b Let_def stop)
    moreover note tb = thirds_bytes [OF less.prems(1) F3 assms(4)]
    moreover have "writes (free_bytes F) s s4" by (rule writes_trans [OF writes_refl [of "{}"] s(6)]) (use tb(2) in auto)
    moreover have "(?G(start := (?d + BUCKET_SIZE start) # ?d # ?G start)) start \<noteq> []" by simp
    ultimately show ?thesis using s(5,7) by blast
  next
    case False
    have b: "10 \<le> b" "\<not> b \<le> start + 1" using less.prems(3) assms(4) by simp_all
    let ?d = "c + BUCKET_SIZE (b - 2)" let ?F = "F(b := cs, b - 2 := ?d # c # F (b - 2))"
    obtain s1 s2 s3 where s: "pop_chain b s = Inr (c, s1)" "push_chain (b - 2) c s1 = Inr s2" "push_chain (b - 2) ?d s2 = Inr s3"
      "sh_inv s3 A ?F" "writes (extent (c, b)) s s3" "curbrk s3 = curbrk s" using halve [OF less.prems(1) F b(1)] by blast
    note hb = halve_bytes [OF less.prems(1) F b(1)]
    have w: "writes (free_bytes F) s s3" by (rule writes_trans [OF writes_refl [of "{}"] s(5)]) (use hb(2) in auto)
    have step: "split_chain start b s = split_chain start (b - 2) s3" using s(1-3) b(2) False by (subst split_chain.simps) (simp add: Let_def)
    show ?thesis
    proof (cases "b - 2 = start")
      case True
      then have "?F start \<noteq> []" "split_chain start b s = Inr s3" using step stop by simp_all
      with s(4,6) w hb(1) show ?thesis by blast
    next
      case ne: False
      have lt: "b - 2 < b" "start + 2 \<le> b - 2" using b False ne less.prems(3) by simp_all
      have hd_ne: "?F (b - 2) \<noteq> []" by simp
      obtain s' F' where s': "split_chain start (b - 2) s3 = Inr s'" "sh_inv s' A F'" "F' start \<noteq> []" "writes (free_bytes ?F) s3 s'"
        "free_bytes F' \<subseteq> free_bytes ?F" "curbrk s' = curbrk s3" using less.IH [OF lt(1) s(4) hd_ne lt(2)] by blast
      have "writes (free_bytes F) s s'" by (rule writes_trans [OF w s'(4)]) (use hb(1) in auto)
      with step s' s(6) hb(1) show ?thesis by (intro exI [of _ s'] exI [of _ F']) auto
    qed
  qed
qed

section \<open>Moving the break\<close>

lemma or_4:
  assumes "unat (x :: u32) mod 4 = 0"
  shows "unat (x OR 4) = unat x div 8 * 8 + 4"
proof -
  define n where "n = unat x"
  from assms obtain m where m: "n = 4 * m" unfolding n_def by (metis mod_0_imp_dvd dvdE)
  have 1: "n OR 4 = 2 * (2 * m OR 2)" using or_nat_rec [of n 4] by (simp add: m)
  have 2: "2 * m OR 2 = 2 * (m OR 1)" using or_nat_rec [of "2 * m" 2] by simp
  have 3: "m OR 1 = m + of_bool (even m)" by (rule or_one_eq)
  have "unat (x OR 4) = n OR 4" by (simp add: unsigned_or_eq n_def)
  also have "\<dots> = 4 * (m + of_bool (even m))" unfolding 1 2 3 by simp
  also have "\<dots> = m div 2 * 8 + 4"
  proof (cases "even m")
    case True
    then obtain k where "m = 2 * k" by (rule evenE)
    then show ?thesis by simp
  next
    case False
    then obtain k where "m = 2 * k + 1" by (rule oddE)
    then show ?thesis by simp
  qed
  also have "m div 2 = n div 8" using div_mult2_eq [of "4 * m" 4 2] by (simp add: m)
  finally show ?thesis by (simp add: n_def)
qed

lemma and_not_mask:
  assumes "k < 32"
  shows "unat ((x :: u32) AND NOT (2 ^ k - 1)) = unat x div 2 ^ k * 2 ^ k"
proof -
  have pd: "x AND NOT (2 ^ k - 1) = push_bit k (drop_bit k x)"
    by (rule bit_eqI) (auto simp: bit_simps simp flip: mask_eq_exp_minus_1)
  have lt: "unat x < 2 ^ 32" using unsigned_less [of x] by simp
  then have self: "take_bit 32 (unat x) = unat x" by (rule take_bit_nat_eq_self)
  have "unat (push_bit k (drop_bit k x)) = take_bit 32 (unat x div 2 ^ k * 2 ^ k)"
    unfolding unsigned_push_bit_eq unsigned_drop_bit_eq
    by (simp add: push_bit_eq_mult drop_bit_eq_div self)
  moreover have "unat x div 2 ^ k * 2 ^ k < 2 ^ 32"
    by (rule le_less_trans [OF div_times_less_eq_dividend lt])
  ultimately show ?thesis unfolding pd by (simp add: take_bit_nat_eq_self)
qed

text \<open>The address of a block at the break.\<close>

definition carve_addr :: "nat \<Rightarrow> shared \<Rightarrow> u32" where
  "carve_addr b s =
     (let brk = curbrk s; ps = shm_page_size s
      in (if BUCKET_SIZE b \<ge> ps then ((brk + ps) AND NOT (ps - 1)) - sizeof_index else brk) OR sizeof_index)"

lemma carve_small:
  assumes "4 dvd unat x" "unat x < e" "8 dvd e"
  shows "unat x \<le> unat (x OR 4 :: u32)" "unat (x OR 4) mod 8 = 4" "unat (x OR 4) + 4 \<le> e"
proof -
  from assms(1,3) obtain m k where m: "unat x = 4 * m" "e = 8 * k" by (auto elim!: dvdE)
  have c: "unat (x OR 4) = m div 2 * 8 + 4" using or_4 [of x] div_mult2_eq [of "4 * m" 4 2] by (simp add: m(1))
  have d: "m = 2 * (m div 2) + m mod 2" "m mod 2 \<le> 1" by simp_all
  have "m div 2 < k" using assms(2) m by (simp add: less_mult_imp_div_less)
  then show "unat x \<le> unat (x OR 4)" "unat (x OR 4) mod 8 = 4" "unat (x OR 4) + 4 \<le> e"
    unfolding c m using d by (linarith | simp)+
qed

text \<open>Rounding up to the next multiple of a power of two.\<close>

lemma round_up:
  assumes "3 \<le> k" "k \<le> 15" "unat (x :: u32) < e" "e \<le> 3 * 2 ^ 30" "2 ^ k dvd e"
  obtains w where "unat ((x + 2 ^ k) AND NOT (2 ^ k - 1)) = 8 * w" "unat x < 8 * w" "8 * w \<le> e"
proof -
  have le: "(2 :: nat) ^ k \<le> 2 ^ 15" using assms(2) by (intro power_increasing) simp_all
  have "unat (of_nat (2 ^ k) :: u32) = 2 ^ k" by (rule unat_of_nat_small) (use le in simp)
  then have p: "unat (2 ^ k :: u32) = 2 ^ k" by simp
  have sum: "unat (x + 2 ^ k) = unat x + 2 ^ k"
    unfolding unat_word_ariths p by (rule mod_less) (use le assms(3,4) in simp)
  define q where "q = unat x div 2 ^ k"
  have q: "q * 2 ^ k \<le> unat x" "unat x < (q + 1) * 2 ^ k"
    using div_times_less_eq_dividend [of "unat x" "2 ^ k"] dividend_less_div_times [of "2 ^ k" "unat x"] by (simp_all add: q_def)
  have "(unat x + 2 ^ k) div 2 ^ k = q + 1" unfolding q_def by (rule div_add_self2) simp
  then have 1: "unat ((x + 2 ^ k) AND NOT (2 ^ k - 1)) = (q + 1) * 2 ^ k"
    using and_not_mask [of k "x + 2 ^ k"] assms(2) unfolding sum by simp
  from assms(5) obtain u where u: "e = 2 ^ k * u" by blast
  have "q * 2 ^ k < u * 2 ^ k" using le_less_trans [OF q(1) assms(3)] unfolding u by (simp only: mult.commute)
  then have "q + 1 \<le> u" by simp
  then have "(q + 1) * 2 ^ k \<le> u * 2 ^ k" by (rule mult_le_mono1)
  then have 2: "(q + 1) * 2 ^ k \<le> e" unfolding u by (simp only: mult.commute)
  have "8 dvd (2 :: nat) ^ k" using le_imp_power_dvd [OF assms(1), of "2 :: nat"] by simp
  then have "8 dvd (q + 1) * 2 ^ k" by (rule dvd_mult)
  then obtain w where "(q + 1) * 2 ^ k = 8 * w" by blast
  with 1 2 q(2) that show ?thesis by metis
qed

lemma carve_large:
  assumes "unat (x :: u32) = 8 * w" "n < 8 * w" "4 dvd n"
  shows "n \<le> unat ((x - 4) OR 4)" "unat ((x - 4) OR 4) mod 8 = 4" "unat ((x - 4) OR 4) + 4 = 8 * w"
proof -
  from assms(2) obtain v where v: "w = Suc v" by (cases w) auto
  have "4 \<le> x" unfolding word_le_nat_alt assms(1) v by simp
  then have "unat (x - 4) = unat x - unat (4 :: u32)" by (rule unat_sub)
  then have u: "unat (x - 4) = 8 * v + 4" by (simp add: assms(1) v)
  have "unat ((x - 4) OR 4) = unat (x - 4) div 8 * 8 + 4" by (rule or_4) (simp add: u mod_simps)
  then have c: "unat ((x - 4) OR 4) = 8 * v + 4" by (simp add: u)
  have "n \<le> 8 * v + 4" using assms(2,3) unfolding v by presburger
  then show "n \<le> unat ((x - 4) OR 4)" "unat ((x - 4) OR 4) mod 8 = 4" "unat ((x - 4) OR 4) + 4 = 8 * w"
    unfolding c by (simp_all add: v)
qed

lemma carve_addr:
  assumes ok: "shm_ok s" and brk: "4 dvd unat (curbrk s)" "unat (curbrk s) < unat (shm_end s)"
  shows "unat (curbrk s) \<le> unat (carve_addr b s)" "unat (carve_addr b s) mod 8 = 4" "unat (carve_addr b s) + 4 \<le> unat (shm_end s)"
proof -
  obtain k where k: "12 \<le> k" "k \<le> 15" "shm_page_size s = 2 ^ k" "2 ^ k dvd unat (shm_end s)" and e: "unat (shm_end s) \<le> 3 * 2 ^ 30"
    using ok by (auto simp: shm_ok_def)
  have "(2 :: nat) ^ 3 dvd 2 ^ k" using k(1) by (intro le_imp_power_dvd) simp
  then have e8: "8 dvd unat (shm_end s)" using dvd_trans [OF _ k(4)] by simp
  have k3: "3 \<le> k" using k(1) by simp
  obtain w where w: "unat ((curbrk s + 2 ^ k) AND NOT (2 ^ k - 1)) = 8 * w" "unat (curbrk s) < 8 * w" "8 * w \<le> unat (shm_end s)"
    using k3 k(2) brk(2) e k(4) by (rule round_up)
  note large = carve_large [OF w(1,2) brk(1)] and small = carve_small [OF brk e8]
  show "unat (curbrk s) \<le> unat (carve_addr b s)" "unat (carve_addr b s) mod 8 = 4" "unat (carve_addr b s) + 4 \<le> unat (shm_end s)"
    using large small w(3) unfolding carve_addr_def Let_def k(3) by (simp_all split: if_split)
qed

text \<open>Blocks above the old break join the heap.\<close>

lemma grow:
  assumes inv: "sh_inv s A F" and w: "writes {unat (curbrk s)..} s s'"
    and s': "table_set s'" "nextfit s' = nextfit s" "unat (curbrk s) \<le> unat (curbrk s')" "unat (curbrk s') \<le> unat (shm_end s)" "4 dvd unat (curbrk s')"
    and B: "tiles (unat (curbrk s)) (unat (curbrk s')) B" "\<And>a b. (a, b) \<in> B \<Longrightarrow> shm s' a = of_nat b XOR C_xor_index"
  shows "sh_inv s' (A \<union> B) F \<and> A \<inter> B = {}"
proof -
  note D = held_invD [OF inv]
  have map: "shm_begin s' = shm_begin s" "shm_end s' = shm_end s" "shm_page_size s' = shm_page_size s" using w by (simp_all add: writes_def)
  let ?lo = "unat (shm_begin s) + 256"
  have old: "extent x \<subseteq> {..<unat (curbrk s)}" if "x \<in> A \<union> free_blocks F" for x
    using held_block_ok [OF inv, of x] that by (auto simp: block_ok_def extent_def)
  have new: "extent x \<subseteq> {unat (curbrk s)..}" "extent x \<noteq> {}" if "x \<in> B" for x
    using that B(1) bsz_bounds(1) [of "snd x"] by (auto simp: tiles_def block_ok_def extent_def)
  have apart: "extent x \<inter> extent y = {}" "x \<noteq> y" if "x \<in> A \<union> free_blocks F" "y \<in> B" for x y
    using old [OF that(1)] new [OF that(2)] by fastforce+
  have keep: "shm s' a = shm s a \<and> shm s' (a + 4) = shm s (a + 4)" if "(a, d) \<in> A \<union> free_blocks F" for a d
  proof -
    have "block_ok ?lo (unat (curbrk s)) (a, d)" by (rule held_block_ok [OF inv]) (use that in simp)
    from block_words(2) [OF this D(13)] old [OF that] have "unat a < unat (curbrk s)" "unat (a + 4) < unat (curbrk s)" by auto
    with w show ?thesis by (simp add: writes_def)
  qed
  have t1: "tiles ?lo (unat (curbrk s')) (A \<union> free_blocks F)" using tiles_ext [OF D(6) s'(3)] by simp
  have t2: "block_ok ?lo (unat (curbrk s')) x" if "x \<in> B" for x using B(1) that D(5) by (auto simp: tiles_def block_ok_def)
  have "tiles ?lo (unat (curbrk s')) ((A \<union> free_blocks F) \<union> B)"
    using t1 t2 B(1) apart(1) unfolding tiles_def by (metis Un_iff inf_commute)
  moreover have "A \<union> B \<union> {} \<union> free_blocks F = (A \<union> free_blocks F) \<union> B" by blast
  moreover have ab: "A \<inter> B = {}" "B \<inter> free_blocks F = {}" using apart(2) by blast+
  moreover have "shm s' a = of_nat d XOR C_xor_index" if "(a, d) \<in> (A \<union> B) \<union> free_blocks F" for a d
    using that keep [of a d] D(10) [of a d] B(2) [of a d] by auto
  moreover have "chain_path (shm s') (nextfit s' d) (F d)" for d
  proof -
    have "shm s (x + 4) = shm s' (x + 4)" if "x \<in> set (F d)" for x using keep [of x d] that by (simp add: free_blocks_def)
    with D(11) [of d] chain_path_cong s'(2) show ?thesis by metis
  qed
  ultimately have "sh_inv s' (A \<union> B) F"
    by (intro held_invI) (use D s' map in \<open>auto simp: shm_ok_def\<close>)
  with ab(1) show ?thesis by blast
qed

lemma carve_eq:
  "carve b s = tmk_bind (store (carve_addr b s) (of_nat b XOR C_xor_index) (s\<lparr>curbrk := carve_addr b s\<rparr>)) (\<lambda>s'.
     let brk = carve_addr b s + BUCKET_SIZE b
     in if brk > shm_end s' then Inr (0, s'\<lparr>curbrk := carve_addr b s\<rparr>) else Inr (carve_addr b s + 4, s'\<lparr>curbrk := brk\<rparr>))"
  unfolding carve_def carve_addr_def Let_def by (rule refl)

lemma carve_inv:
  assumes inv: "sh_inv s A F" and brk: "unat (curbrk s) < unat (shm_end s)" and b: "8 \<le> b" "b < BUCKET_END"
  shows "\<exists>r s'. carve b s = Inr (r, s') \<and> writes {unat (curbrk s)..} s s' \<and> unat (curbrk s') < unat (shm_end s) \<and>
    (r = 0 \<and> sh_inv s' A F \<or> (\<exists>c. r = c + 4 \<and> (c, b) \<notin> A \<and> sh_inv s' (insert (c, b) A) F))"
proof -
  note D = held_invD [OF inv]
  define c where "c = carve_addr b s"
  define m where "m = (shm s)(c := of_nat b XOR C_xor_index)"
  have c: "unat (curbrk s) \<le> unat c" "unat c mod 8 = 4" "unat c + 4 \<le> unat (shm_end s)"
    using carve_addr [OF D(1,4) brk] unfolding c_def by blast+
  have "in_shm c (s\<lparr>curbrk := c\<rparr>)" using c D(5) by (simp add: in_shm_def word_le_nat_alt)
  then have st: "store c (of_nat b XOR C_xor_index) (s\<lparr>curbrk := c\<rparr>) = Inr (s\<lparr>curbrk := c, shm := m\<rparr>)" by (simp add: store_def m_def)
  have c4: "4 dvd unat c" using c(2) by presburger
  have w: "writes {unat (curbrk s)..} s (s\<lparr>curbrk := x, shm := m\<rparr>)" for x using c(1) by (auto simp: writes_def m_def)
  have u: "unat (c + BUCKET_SIZE b) = unat c + bsz b"
    using c(3) D(14) bsz_bounds(2) [OF b(2)] b(2) by (simp add: unat_word_ariths BUCKET_SIZE_unat)
  show ?thesis
  proof (cases "c + BUCKET_SIZE b > shm_end s")
    case True
    let ?s = "s\<lparr>curbrk := c, shm := m\<rparr>"
    have "carve b s = Inr (0, ?s)" unfolding carve_eq c_def [symmetric] st using True by (simp add: Let_def)
    moreover have "sh_inv ?s (A \<union> {}) F"
      using grow [OF inv w, of c "{}"] c c4 D(2) by (simp add: tiles_def)
    moreover have "unat (curbrk ?s) < unat (shm_end s)" using c(3) by simp
    ultimately show ?thesis using w [of c] by (metis Un_empty_right)
  next
    case False
    let ?s = "s\<lparr>curbrk := c + BUCKET_SIZE b, shm := m\<rparr>"
    have "4 dvd bsz b" using bsz_16 [OF b(1)] by (rule dvd_trans [rotated]) simp
    then have dvd4: "4 dvd unat c + bsz b" using c4 by (rule dvd_add [rotated])
    have le: "unat c + bsz b \<le> unat (shm_end s)" using False u by (simp add: word_less_nat_alt)
    have "carve b s = Inr (c + 4, ?s)" unfolding carve_eq c_def [symmetric] st using False by (simp add: Let_def)
    moreover have "tiles (unat (curbrk s)) (unat c + bsz b) {(c, b)}" using c b by (simp add: tiles_def block_ok_def)
    then have "sh_inv ?s (A \<union> {(c, b)}) F \<and> A \<inter> {(c, b)} = {}"
      using grow [OF inv w, of "c + BUCKET_SIZE b" "{(c, b)}"] c(1) dvd4 D(2) u le by (simp add: m_def)
    moreover have "unat c + bsz b \<noteq> unat (shm_end s)"
    proof -
      have "(unat c + bsz b) mod 8 = 4" by (rule aligned_add [OF c(2) bsz_16 [OF b(1)]])
      moreover obtain k where "12 \<le> k" "2 ^ k dvd unat (shm_end s)" using D(1) by (auto simp: shm_ok_def)
      then have "8 dvd unat (shm_end s)" using le_imp_power_dvd [of 3 k "2 :: nat"] by (auto intro: dvd_trans)
      ultimately show ?thesis by auto
    qed
    moreover from calculation(3) have "unat (curbrk ?s) < unat (shm_end s)" using u le by simp
    ultimately show ?thesis using w [of "c + BUCKET_SIZE b"] by (metis Un_insert_right Un_empty_right disjoint_insert(1))
  qed
qed

section \<open>Allocating and freeing\<close>

lemma nextfit_zero: "sh_inv s A F \<Longrightarrow> nextfit s b = 0 \<longleftrightarrow> F b = []"
  using held_invD(11) [of s A "{}" F b] by (cases "F b") auto

lemma sh_resize_inv:
  assumes inv: "sh_inv s A F" and b: "8 \<le> b"
  shows "(sh_resize b s = Inr (False, s)) \<or>
    (\<exists>s' F'. sh_resize b s = Inr (True, s') \<and> sh_inv s' A F' \<and> F' b \<noteq> [] \<and> writes (free_bytes F) s s' \<and> curbrk s' = curbrk s)"
proof (cases "List.find (\<lambda>d. nextfit s d \<noteq> 0) [b + 2..<BUCKET_END]")
  case None
  then show ?thesis by (simp add: sh_resize_def)
next
  case (Some d)
  then have d: "b + 2 \<le> d" "nextfit s d \<noteq> 0" by (auto simp: find_Some_iff nth_append)
  from d(2) nextfit_zero [OF inv] have "F d \<noteq> []" by simp
  from split_chain_inv [OF inv this d(1) b] obtain s' F' where "split_chain b d s = Inr s'" "sh_inv s' A F'" "F' b \<noteq> []"
    "writes (free_bytes F) s s'" "curbrk s' = curbrk s" by blast
  with Some show ?thesis by (auto simp: sh_resize_def)
qed

text \<open>A held block that carries its bucket is handed to the caller; a block of the caller is held again.\<close>

lemma held_alloc:
  assumes inv: "held_inv s A {(c, b)} F" and tag: "shm s c = of_nat b XOR C_xor_index"
  shows "sh_inv s (insert (c, b) A) F \<and> (c, b) \<notin> A"
proof -
  note D = held_invD [OF inv]
  have "insert (c, b) A \<union> {} \<union> free_blocks F = A \<union> {(c, b)} \<union> free_blocks F" by blast
  then have "sh_inv s (insert (c, b) A) F"
    by (intro held_invI) (use D tag in auto)
  with D(7) show ?thesis by blast
qed

lemma alloc_held:
  assumes inv: "sh_inv s A F" and x: "x \<in> A"
  shows "held_inv s (A - {x}) {x} F"
proof -
  note D = held_invD [OF inv]
  have "A - {x} \<union> {x} \<union> free_blocks F = A \<union> {} \<union> free_blocks F" using x by blast
  then show ?thesis by (intro held_invI) (use D x in auto)
qed

lemma pop_alloc:
  assumes inv: "sh_inv s A F" and F: "F b = c # cs"
  shows "\<exists>s'. pop_chain b s = Inr (c, s') \<and> sh_inv s' (insert (c, b) A) (F(b := cs)) \<and> (c, b) \<notin> A \<and> writes {} s s' \<and> curbrk s' = curbrk s"
proof -
  obtain s' where s': "pop_chain b s = Inr (c, s')" "held_inv s' A {(c, b)} (F(b := cs))" "writes {} s s'" "curbrk s' = curbrk s"
    using pop_held [OF inv F] by auto
  have "shm s' c = of_nat b XOR C_xor_index"
    using held_invD(10) [OF inv, of c b] s'(3) F by (simp add: free_blocks_def writes_def)
  with held_alloc [OF s'(2)] s' show ?thesis by blast
qed

text \<open>What a call of \<^verbatim>\<open>Tmk_malloc\<close> for a bucket gives: nothing, or a block that was not allocated.\<close>

definition allocated :: "block set \<Rightarrow> (nat \<Rightarrow> u32 list) \<Rightarrow> nat \<Rightarrow> shared \<Rightarrow> u32 \<Rightarrow> shared \<Rightarrow> bool" where
  "allocated A F b s r s' \<longleftrightarrow> writes (free_bytes F \<union> {unat (curbrk s)..}) s s' \<and> unat (curbrk s') < unat (shm_end s) \<and>
     (\<exists>F'. r = 0 \<and> sh_inv s' A F' \<or> (\<exists>c. r = c + 4 \<and> (c, b) \<notin> A \<and> sh_inv s' (insert (c, b) A) F'))"

lemma malloc_pop:
  assumes inv: "sh_inv s A F" and ne: "F b \<noteq> []" and brk: "unat (curbrk s) < unat (shm_end s)"
  shows "\<exists>r s'. malloc_loop b s = Some (Inr (r, s')) \<and> allocated A F b s r s' \<and> r = hd (F b) + 4"
proof -
  obtain c cs where F: "F b = c # cs" using ne by (cases "F b") auto
  obtain s' where s': "pop_chain b s = Inr (c, s')" "sh_inv s' (insert (c, b) A) (F(b := cs))" "(c, b) \<notin> A" "writes {} s s'" "curbrk s' = curbrk s"
    using pop_alloc [OF inv F] by blast
  have "malloc_loop b s = Some (Inr (c + 4, s'))"
    using nextfit_zero [OF inv, of b] ne s'(1) by (subst malloc_loop.simps) simp
  moreover have "writes (free_bytes F \<union> {unat (curbrk s)..}) s s'" by (rule writes_trans [OF s'(4) writes_refl]) auto
  ultimately show ?thesis using s'(2,3,5) brk F unfolding allocated_def by auto
qed

lemma malloc_loop_inv:
  assumes inv: "sh_inv s A F" and brk: "unat (curbrk s) < unat (shm_end s)" and b: "8 \<le> b" "b < BUCKET_END"
  shows "\<exists>r s'. malloc_loop b s = Some (Inr (r, s')) \<and> allocated A F b s r s'"
proof (cases "F b = []")
  case False
  with malloc_pop [OF inv _ brk] show ?thesis by blast
next
  case True
  then have z: "nextfit s b = 0" using nextfit_zero [OF inv] by simp
  from sh_resize_inv [OF inv b(1)] show ?thesis
  proof
    assume rs: "sh_resize b s = Inr (False, s)"
    obtain r s' where c: "carve b s = Inr (r, s')" "writes {unat (curbrk s)..} s s'" "unat (curbrk s') < unat (shm_end s)"
      "r = 0 \<and> sh_inv s' A F \<or> (\<exists>c. r = c + 4 \<and> (c, b) \<notin> A \<and> sh_inv s' (insert (c, b) A) F)"
      using carve_inv [OF inv brk b] by blast
    have "malloc_loop b s = Some (Inr (r, s'))" using z rs c(1) by (subst malloc_loop.simps) simp
    moreover have "writes (free_bytes F \<union> {unat (curbrk s)..}) s s'" by (rule writes_trans [OF writes_refl c(2)]) auto
    ultimately show ?thesis using c(3,4) unfolding allocated_def by blast
  next
    assume "\<exists>s' F'. sh_resize b s = Inr (True, s') \<and> sh_inv s' A F' \<and> F' b \<noteq> [] \<and> writes (free_bytes F) s s' \<and> curbrk s' = curbrk s"
    then obtain s1 F1 where s1: "sh_resize b s = Inr (True, s1)" "sh_inv s1 A F1" "F1 b \<noteq> []" "writes (free_bytes F) s s1" "curbrk s1 = curbrk s" by blast
    have brk1: "unat (curbrk s1) < unat (shm_end s1)" using brk s1(4,5) by (simp add: writes_def)
    obtain c cs where F1: "F1 b = c # cs" using s1(3) by (cases "F1 b") auto
    obtain s' where s': "pop_chain b s1 = Inr (c, s')" "sh_inv s' (insert (c, b) A) (F1(b := cs))" "(c, b) \<notin> A" "writes {} s1 s'" "curbrk s' = curbrk s1"
      using pop_alloc [OF s1(2) F1] by blast
    have "malloc_loop b s1 = Some (Inr (c + 4, s'))"
      using nextfit_zero [OF s1(2), of b] s1(3) s'(1) by (subst malloc_loop.simps) simp
    then have "malloc_loop b s = Some (Inr (c + 4, s'))" using z s1(1) by (subst malloc_loop.simps) simp
    moreover have "writes (free_bytes F \<union> {unat (curbrk s)..}) s s'" by (rule writes_trans [OF s1(4) s'(4)]) auto
    moreover have "unat (curbrk s') < unat (shm_end s)" using brk s1(5) s'(5) by simp
    ultimately show ?thesis using s'(2,3) unfolding allocated_def by blast
  qed
qed

text \<open>Memory of allocated blocks is not written.\<close>

lemma alloc_untouched:
  assumes inv: "sh_inv s A F" and w: "writes (free_bytes F \<union> {unat (curbrk s)..}) s s'" and x: "x \<in> A" "unat a \<in> extent x"
  shows "shm s' a = shm s a"
proof -
  note D = held_invD [OF inv]
  have "extent x \<inter> extent y = {}" if "y \<in> free_blocks F" for y
    using tilesD [OF D(6), of x y] x(1) that D(8) by auto
  then have "unat a \<notin> free_bytes F" using x(2) by (auto simp: free_bytes_def)
  moreover have "unat a < unat (curbrk s)" using held_block_ok [OF inv, of x] x by (auto simp: block_ok_def extent_def)
  ultimately show ?thesis using w by (simp add: writes_def)
qed

lemma table_initialize_inv:
  assumes "shm_ok s" "unat (shm_begin s) + 256 < unat (shm_end s)"
  shows "\<exists>s'. table_initialize s = Inr s' \<and> sh_inv s' {} (\<lambda>_. []) \<and> unat (curbrk s') < unat (shm_end s') \<and> shm s' = shm s"
proof -
  obtain b where b: "find_bucket 240 8 = Some b" "8 \<le> b" "b \<le> 58" "240 \<le> bsz b" "\<And>d. 8 \<le> d \<Longrightarrow> d < b \<Longrightarrow> bsz d < 240"
    using find_bucket_spec [of 8 240] by auto
  have "b = 14"
  proof (rule ccontr)
    assume "b \<noteq> 14"
    then consider "b \<le> 13" | "14 < b" by linarith
    then show False
    proof cases
      case 1
      then show False using b(4) bsz_mono [of b 13] by (simp add: bsz_def)
    next
      case 2
      then show False using b(5) [of 14] by (simp add: bsz_def)
    qed
  qed
  let ?s = "s\<lparr>table_set := True, curbrk := shm_begin s + BUCKET_SIZE b, nextfit := (\<lambda>_. 0)\<rparr>"
  have sz: "unat (BUCKET_SIZE b) = 256" using \<open>b = 14\<close> by (simp add: BUCKET_SIZE_unat bsz_def)
  have end3: "unat (shm_end s) \<le> 3 * 2 ^ 30" using assms(1) by (simp add: shm_ok_def)
  have u: "unat (shm_begin s + BUCKET_SIZE b) = unat (shm_begin s) + 256"
    unfolding unat_word_ariths sz by (rule mod_less) (use assms(2) end3 in simp)
  obtain k where "12 \<le> k" "2 ^ k dvd unat (shm_begin s)" using assms(1) by (auto simp: shm_ok_def)
  then have "4 dvd unat (shm_begin s)" using le_imp_power_dvd [of 2 k "2 :: nat"] by (auto intro: dvd_trans)
  then have "4 dvd unat (shm_begin s) + 256" by (rule dvd_add) simp
  then have "sh_inv ?s {} (\<lambda>_. [])"
    using assms u by (intro held_invI) (simp_all add: shm_ok_def tiles_def free_blocks_def)
  moreover have "table_initialize s = Inr ?s" using b(1) by (simp add: table_initialize_def)
  ultimately show ?thesis using u assms(2) by auto
qed

lemma malloc_eq:
  assumes inv: "sh_inv s A F" and sz: "unat sz + 4 \<le> 2 ^ 30"
  obtains b where "find_bucket (sz + 4) 8 = Some b" "8 \<le> b" "b < BUCKET_END" "unat sz + 4 \<le> bsz b" "b = 8 \<or> bsz (b - 1) < unat sz + 4"
    "Tmk_malloc sz s = (case malloc_loop b s of None \<Rightarrow> Inl Wild_access | Some r \<Rightarrow> r)"
proof -
  have u: "unat (sz + 4) = unat sz + 4" using sz by (simp add: unat_word_ariths)
  obtain b where b: "find_bucket (sz + 4) 8 = Some b" "8 \<le> b" "b \<le> 58" "unat sz + 4 \<le> bsz b" "\<And>d. 8 \<le> d \<Longrightarrow> d < b \<Longrightarrow> bsz d < unat sz + 4"
    using find_bucket_spec [of 8 "sz + 4"] sz unfolding u by auto
  have "b = 8 \<or> bsz (b - 1) < unat sz + 4" using b(2) b(5) [of "b - 1"] by linarith
  moreover have "Tmk_malloc sz s = (case malloc_loop b s of None \<Rightarrow> Inl Wild_access | Some r \<Rightarrow> r)"
    using b(1,3) held_invD(2) [OF inv] by (simp add: Tmk_malloc_def table_ready_def)
  ultimately show ?thesis using that [of b] b by simp
qed

lemma free_alloc:
  assumes inv: "sh_inv s A F" and x: "(c, b) \<in> A"
  shows "\<exists>s'. Tmk_free (c + 4) s = Inr s' \<and> sh_inv s' (A - {(c, b)}) (F(b := c # F b)) \<and> writes (extent (c, b)) s s' \<and> curbrk s' = curbrk s"
proof -
  note D = held_invD [OF inv]
  have ok: "block_ok (unat (shm_begin s) + 256) (unat (curbrk s)) (c, b)" by (rule held_block_ok [OF inv]) (use x in simp)
  have bb: "b < BUCKET_END" "8 \<le> b" using ok by (auto simp: block_ok_def)
  have tag: "shm s c = of_nat b XOR C_xor_index" using D(10) [of c b] x by simp
  have inb: "in_shm c s" "in_shm (c + 4) s" by (rule held_in_shm [OF inv, of c b], use x in simp)+
  have nz: "c + 4 \<noteq> 0" using block_words(1) [OF ok D(13)] by auto
  have "unat (shm s c XOR C_xor_index) = b" using bb(1) unfolding tag by (simp add: xor.assoc)
  then have "Tmk_free (c + 4) s = push_chain b c s"
    using nz inb bb(1) D(2) tag
    by (simp add: Tmk_free_def load_def store_def push_chain_def table_ready_def Let_def in_shm_def fun_upd_idem)
  moreover obtain s' where "push_chain b c s = Inr s'" "sh_inv s' (A - {(c, b)}) (F(b := c # F b))" "writes (extent (c, b)) s s'" "curbrk s' = curbrk s"
    using push_held [OF alloc_held [OF inv x]] by blast
  ultimately show ?thesis by simp
qed

section \<open>Properties\<close>

text \<open>A shared memory of 16 pages of 4096 bytes, before the first call.\<close>

definition demo_shared :: shared where
  "demo_shared = \<lparr>table_set = False, curbrk = 0, nextfit = (\<lambda>_. 0), shm = (\<lambda>_. 0), shm_begin = 0x40000000,
     shm_end = 0x40010000, shm_page_size = 4096\<rparr>"

lemma demo_shared_ok: "shm_ok demo_shared" "unat (shm_begin demo_shared) + 256 < unat (shm_end demo_shared)"
  by (simp_all add: demo_shared_def shm_ok_def) (intro bexI [of _ 12]; simp)

lemma demo_shared_inv:
  obtains s where "table_initialize demo_shared = Inr s" "sh_inv s {} (\<lambda>_. [])" "unat (curbrk s) < unat (shm_end s)"
  using table_initialize_inv [OF demo_shared_ok] by blast

text \<open>
  C23: \<^verbatim>\<open>Tmk_malloc\<close> returns \<^verbatim>\<open>NULL\<close> or a block of the smallest size that fits, double-word aligned, that
  overlaps no allocated block; the contents of allocated blocks are unchanged, and the free lists
  and blocks stay well-formed.
\<close>

theorem malloc_fresh:
  assumes "sh_inv s A F" "unat (curbrk s) < unat (shm_end s)" "unat sz + 4 \<le> 2 ^ 30"
  shows "\<exists>r s' F'. Tmk_malloc sz s = Inr (r, s') \<and> unat (curbrk s') < unat (shm_end s') \<and>
    (\<forall>x \<in> A. \<forall>a. unat a \<in> extent x \<longrightarrow> shm s' a = shm s a) \<and>
    (r = 0 \<and> sh_inv s' A F' \<or>
     (\<exists>c b. r = c + 4 \<and> unat r mod 8 = 0 \<and> unat sz + 4 \<le> bsz b \<and> (b = 8 \<or> bsz (b - 1) < unat sz + 4) \<and>
        (\<forall>x \<in> A. extent x \<inter> extent (c, b) = {}) \<and> sh_inv s' (insert (c, b) A) F'))"
proof -
  obtain b where b: "8 \<le> b" "b < BUCKET_END" "unat sz + 4 \<le> bsz b" "b = 8 \<or> bsz (b - 1) < unat sz + 4"
    "Tmk_malloc sz s = (case malloc_loop b s of None \<Rightarrow> Inl Wild_access | Some r \<Rightarrow> r)" using malloc_eq [OF assms(1,3)] by metis
  obtain r s' where r: "malloc_loop b s = Some (Inr (r, s'))" "allocated A F b s r s'" using malloc_loop_inv [OF assms(1,2) b(1,2)] by blast
  then obtain F' where F': "r = 0 \<and> sh_inv s' A F' \<or> (\<exists>c. r = c + 4 \<and> (c, b) \<notin> A \<and> sh_inv s' (insert (c, b) A) F')"
    unfolding allocated_def by blast
  have w: "writes (free_bytes F \<union> {unat (curbrk s)..}) s s'" "unat (curbrk s') < unat (shm_end s')"
    using r(2) by (auto simp: allocated_def writes_def)
  have "r = 0 \<and> sh_inv s' A F' \<or> (\<exists>c b. r = c + 4 \<and> unat r mod 8 = 0 \<and> unat sz + 4 \<le> bsz b \<and> (b = 8 \<or> bsz (b - 1) < unat sz + 4) \<and>
      (\<forall>x \<in> A. extent x \<inter> extent (c, b) = {}) \<and> sh_inv s' (insert (c, b) A) F')"
    using F'
  proof
    assume "\<exists>c. r = c + 4 \<and> (c, b) \<notin> A \<and> sh_inv s' (insert (c, b) A) F'"
    then obtain c where c: "r = c + 4" "(c, b) \<notin> A" "sh_inv s' (insert (c, b) A) F'" by blast
    have ok: "block_ok (unat (shm_begin s') + 256) (unat (curbrk s')) (c, b)" by (rule held_block_ok [OF c(3)]) simp
    have "unat r mod 8 = 0" using block_words(1) [OF ok held_invD(13) [OF c(3)]] ok unfolding c(1) block_ok_def by (simp; presburger)
    moreover have "\<forall>x \<in> A. extent x \<inter> extent (c, b) = {}" using tilesD [OF held_invD(6) [OF c(3)], of _ "(c, b)"] c(2) by auto
    ultimately have "r = c + 4 \<and> unat r mod 8 = 0 \<and> unat sz + 4 \<le> bsz b \<and> (b = 8 \<or> bsz (b - 1) < unat sz + 4) \<and>
      (\<forall>x \<in> A. extent x \<inter> extent (c, b) = {}) \<and> sh_inv s' (insert (c, b) A) F'" using c(1,3) b(3,4) by simp
    then show ?thesis by - (rule disjI2, rule exI [of _ c], rule exI [of _ b])
  qed simp
  then show ?thesis using r(1) b(5) w(2) alloc_untouched [OF assms(1) w(1)] by (intro exI [of _ r] exI [of _ s'] exI [of _ F']) simp
qed

theorem malloc_fresh_witness:
  "\<exists>s r s'. table_initialize demo_shared = Inr s \<and> Tmk_malloc 100 s = Inr (r, s') \<and> unat r mod 8 = 0"
proof -
  obtain s where s: "table_initialize demo_shared = Inr s" "sh_inv s {} (\<lambda>_. [])" "unat (curbrk s) < unat (shm_end s)" by (rule demo_shared_inv)
  from malloc_fresh [OF s(2,3), of 100] s(1) show ?thesis by fastforce
qed

text \<open>
  C24: Freeing a block and asking for a block of the same size gives the same block back, and what
  is allocated is as before.
\<close>

theorem free_malloc:
  assumes "sh_inv s A F" "(c, b) \<in> A" "unat (curbrk s) < unat (shm_end s)" "find_bucket (sz + 4) 8 = Some b"
  shows "\<exists>s1 s2. Tmk_free (c + 4) s = Inr s1 \<and> Tmk_malloc sz s1 = Inr (c + 4, s2) \<and> sh_inv s2 A F"
proof -
  obtain s1 where s1: "Tmk_free (c + 4) s = Inr s1" "sh_inv s1 (A - {(c, b)}) (F(b := c # F b))" using free_alloc [OF assms(1,2)] by blast
  have bb: "b < BUCKET_END" using held_block_ok [OF assms(1), of "(c, b)"] assms(2) by (simp add: block_ok_def)
  obtain s2 where s2: "pop_chain b s1 = Inr (c, s2)" "sh_inv s2 (insert (c, b) (A - {(c, b)})) (F(b := c # F b, b := F b))"
    using pop_alloc [OF s1(2), of b c "F b"] by auto
  have "malloc_loop b s1 = Some (Inr (c + 4, s2))"
    using nextfit_zero [OF s1(2), of b] s2(1) by (subst malloc_loop.simps) simp
  then have "Tmk_malloc sz s1 = Inr (c + 4, s2)"
    using assms(4) bb held_invD(2) [OF s1(2)] by (simp add: Tmk_malloc_def table_ready_def)
  moreover have "insert (c, b) (A - {(c, b)}) = A" using assms(2) by blast
  ultimately show ?thesis using s1(1) s2(2) by auto
qed

theorem free_malloc_witness:
  "\<exists>s s1 s2. Tmk_free 0x40000108 s = Inr s1 \<and> Tmk_malloc 20 s1 = Inr (0x40000108, s2) \<and> sh_inv s2 {(0x40000104, 8)} (\<lambda>_. [])"
proof -
  obtain s where s: "table_initialize demo_shared = Inr s" "sh_inv s {} (\<lambda>_. [])" by (rule demo_shared_inv)
  have e: "shm_end s = 0x40010000" "shm_begin s = 0x40000000"
    using s(1) by (auto simp: table_initialize_def demo_shared_def split: option.splits)
  let ?s = "s\<lparr>curbrk := 0x40000124, shm := (shm s)(0x40000104 := of_nat 8 XOR C_xor_index)\<rparr>"
  have inv: "sh_inv ?s {(0x40000104, 8)} (\<lambda>_. [])"
  proof (rule held_invI)
    show "chain_path (shm ?s) (nextfit ?s b) []" for b using held_invD(11) [OF s(2), of b] by simp
    show "tiles (unat (shm_begin ?s) + 256) (unat (curbrk ?s)) ({(0x40000104, 8)} \<union> {} \<union> free_blocks (\<lambda>_. []))"
      by (simp add: tiles_def block_ok_def bsz_def e free_blocks_def)
  qed (use held_invD [OF s(2)] e in \<open>auto simp: shm_ok_def free_blocks_def\<close>)
  have "find_bucket (20 + 4) 8 = Some 8" by code_simp
  then show ?thesis using free_malloc [OF inv, of "0x40000104" 8 20] e by fastforce
qed

text \<open>
  Requests beyond the limits.  A size above 2^30 - 4 bytes indexes \<^verbatim>\<open>nextfit\<close> outside its bounds or
  shifts too far, unless it is so large that adding the header wraps around: then the smallest
  block is used.
\<close>

theorem malloc_limits:
  "(2 ^ 30 < unat sz + 4 \<and> unat sz + 4 < 2 ^ 32 \<and> table_set s \<longrightarrow> Tmk_malloc sz s = Inl Wild_access) \<and>
   (2 ^ 32 \<le> unat sz + 4 \<longrightarrow> find_bucket (sz + 4) 8 = Some 8)"
proof (intro conjI impI)
  assume a: "2 ^ 30 < unat sz + 4 \<and> unat sz + 4 < 2 ^ 32 \<and> table_set s"
  have u: "unat (sz + 4) = unat sz + 4" using a by (simp add: unat_word_ariths)
  have fb: "find_bucket need d = Some c \<Longrightarrow> \<not> BUCKET_SIZE c < need" for need d c
  proof (induction need d rule: find_bucket.induct)
    case (1 need d)
    show ?case using 1(2) by (subst (asm) find_bucket.simps) (auto split: if_splits dest: 1(1))
  qed
  show "Tmk_malloc sz s = Inl Wild_access"
  proof (cases "find_bucket (sz + 4) 8")
    case (Some c)
    have "BUCKET_END \<le> c"
    proof (rule ccontr)
      assume "\<not> BUCKET_END \<le> c"
      then have "unat sz + 4 \<le> bsz c" "bsz c \<le> 2 ^ 30"
        using fb [OF Some] bsz_bounds(2) [of c] u by (simp_all add: word_less_nat_alt BUCKET_SIZE_unat)
      with a show False by simp
    qed
    with Some a show ?thesis by (simp add: Tmk_malloc_def table_ready_def)
  qed (simp add: Tmk_malloc_def)
next
  assume a: "2 ^ 32 \<le> unat sz + 4"
  have "unat sz < 2 ^ 32" using unsigned_less [of sz] by simp
  then have "unat (sz + 4) = unat sz + 4 - 2 ^ 32" "unat sz + 4 - 2 ^ 32 \<le> 3"
    using a le_mod_geq [of "2 ^ 32" "unat sz + 4"] by (simp_all add: unat_word_ariths)
  then have "unat (sz + 4) \<le> 3" by simp
  then have "\<not> BUCKET_SIZE 8 < sz + 4" by (simp add: word_less_nat_alt BUCKET_SIZE_unat bsz_def)
  then show "find_bucket (sz + 4) 8 = Some 8" by (subst find_bucket.simps) simp
qed

theorem malloc_limits_witness:
  "Tmk_malloc 1073741824 (demo_shared\<lparr>table_set := True\<rparr>) = Inl Wild_access \<and> find_bucket (0xFFFFFFFF + 4) 8 = Some 8"
proof
  show "Tmk_malloc 1073741824 (demo_shared\<lparr>table_set := True\<rparr>) = Inl Wild_access"
    by (rule malloc_limits [THEN conjunct1, rule_format]) simp
  show "find_bucket (0xFFFFFFFF + 4) 8 = Some 8"
    by (rule malloc_limits [THEN conjunct2, rule_format]) simp
qed

text \<open>
  When \<^verbatim>\<open>Tmk_sbrk\<close> has handed out the shared memory up to its last byte and no block is free, \<^verbatim>\<open>Tmk_malloc\<close> does
  not return \<^verbatim>\<open>NULL\<close>: it writes the index of the new block behind the end of the shared memory before
  it compares with the end.
\<close>

theorem malloc_full:
  assumes "sh_inv s A (\<lambda>_. [])" "curbrk s = shm_end s" "unat sz + 4 \<le> 2 ^ 30"
  shows "Tmk_malloc sz s = Inl Wild_access"
proof -
  note D = held_invD [OF assms(1)]
  obtain b where b: "8 \<le> b" "Tmk_malloc sz s = (case malloc_loop b s of None \<Rightarrow> Inl Wild_access | Some r \<Rightarrow> r)"
    using malloc_eq [OF assms(1,3)] by metis
  have z: "nextfit s d = 0" for d using nextfit_zero [OF assms(1)] by simp
  then have rs: "sh_resize b s = Inr (False, s)" by (simp add: sh_resize_def find_None_iff [THEN iffD2])
  obtain k where k: "12 \<le> k" "k \<le> 15" "shm_page_size s = 2 ^ k" "2 ^ k dvd unat (shm_end s)" using D(1) by (auto simp: shm_ok_def)
  have "unat (shm_end s) < unat (carve_addr b s)"
  proof (cases "BUCKET_SIZE b \<ge> shm_page_size s")
    case True
    have le: "(2 :: nat) ^ k \<le> 2 ^ 15" "(2 :: nat) ^ 12 \<le> 2 ^ k" using k(1,2) by (intro power_increasing; simp)+
    have "unat (of_nat (2 ^ k) :: u32) = 2 ^ k" by (rule unat_of_nat_small) (use le in simp)
    then have p: "unat (2 ^ k :: u32) = 2 ^ k" by simp
    have sum: "unat (shm_end s + 2 ^ k) = unat (shm_end s) + 2 ^ k"
      unfolding unat_word_ariths p by (rule mod_less) (use le D(14) in simp)
    have "unat ((shm_end s + 2 ^ k) AND NOT (2 ^ k - 1)) = unat (shm_end s) + 2 ^ k"
      using and_not_mask [of k "shm_end s + 2 ^ k"] k(2,4) unfolding sum by simp
    moreover have "8 dvd unat (shm_end s) + 2 ^ k"
      using k(1,4) le_imp_power_dvd [of 3 k "2 :: nat"] by (intro dvd_add) (auto intro: dvd_trans)
    then obtain w where w: "unat (shm_end s) + 2 ^ k = 8 * w" by blast
    ultimately have "unat (((shm_end s + 2 ^ k) AND NOT (2 ^ k - 1)) - 4 OR 4) + 4 = 8 * w"
      by (intro carve_large(3) [of _ _ 0]) (use w le in auto)
    then show ?thesis using True w le unfolding carve_addr_def Let_def k(3) assms(2) by simp
  next
    case False
    have "4 dvd unat (shm_end s)" using D(4) assms(2) by simp
    then obtain j where j: "unat (shm_end s) = 4 * j" by blast
    have "8 dvd unat (shm_end s)" using k(1,4) le_imp_power_dvd [of 3 k "2 :: nat"] by (auto intro: dvd_trans)
    then have "unat (shm_end s) div 8 * 8 = unat (shm_end s)" by simp
    then have "unat (shm_end s OR 4) = unat (shm_end s) + 4" using or_4 [of "shm_end s"] j by simp
    then show ?thesis using False unfolding carve_addr_def Let_def assms(2) by simp
  qed
  then have "carve b s = Inl Wild_access" by (simp add: carve_eq store_def in_shm_def)
  then have "malloc_loop b s = Some (Inl Wild_access)" using z [of b] rs by (subst malloc_loop.simps) simp
  then show ?thesis using b(2) by simp
qed

theorem malloc_full_witness:
  "\<exists>s r s'. table_initialize demo_shared = Inr s \<and> Tmk_sbrk 65280 s = Inr (r, s') \<and> r \<noteq> 0 \<and> Tmk_malloc 100 s' = Inl Wild_access"
proof -
  obtain s where s: "table_initialize demo_shared = Inr s" "sh_inv s {} (\<lambda>_. [])" by (rule demo_shared_inv)
  have e: "shm_end s = 0x40010000" "shm_begin s = 0x40000000"
    using s(1) by (auto simp: table_initialize_def demo_shared_def split: option.splits)
  let ?s = "s\<lparr>curbrk := 0x40010000\<rparr>"
  have "curbrk s = 0x40000100"
  proof -
    obtain b where "find_bucket 240 8 = Some b" "curbrk s = 0x40000000 + BUCKET_SIZE b"
      using s(1) by (auto simp: table_initialize_def demo_shared_def split: option.splits)
    moreover have "find_bucket 240 8 = Some 14" by code_simp
    ultimately show ?thesis by (simp add: BUCKET_SIZE_def)
  qed
  then have "Tmk_sbrk 65280 s = Inr (0x40000100, ?s)"
    using e held_invD(2) [OF s(2)] by (simp add: Tmk_sbrk_def table_ready_def Let_def)
  moreover have "sh_inv ?s {} (\<lambda>_. [])"
    by (rule held_invI) (use held_invD [OF s(2)] e in \<open>auto simp: shm_ok_def tiles_def free_blocks_def\<close>)
  then have "Tmk_malloc 100 ?s = Inl Wild_access" by (rule malloc_full) (simp_all add: e)
  ultimately show ?thesis using s(1) by auto
qed

text \<open>
  \<^verbatim>\<open>Tmk_sbrk\<close>, as long as address arithmetic does not wrap around, returns \<^verbatim>\<open>NULL\<close> and changes nothing,
  or gives a double-word aligned piece of at least the requested size between the old and the new break, where
  no block lies.
\<close>

theorem sbrk_above:
  assumes "sh_inv s A F" "unat (curbrk s) + unat sz + 14 < 2 ^ 32"
  shows "\<exists>r s'. Tmk_sbrk sz s = Inr (r, s') \<and> sh_inv s' A F \<and> shm s' = shm s \<and>
    (r = 0 \<and> s' = s \<or> unat r mod 8 = 0 \<and> unat (curbrk s) \<le> unat r \<and> unat r + unat sz \<le> unat (curbrk s') \<and>
      unat (curbrk s') \<le> unat (shm_end s))"
proof -
  note D = held_invD [OF assms(1)]
  let ?z = "(sz + 7) AND NOT 7" let ?v = "(curbrk s + 7) AND NOT 7"
  have z: "unat ?z = (unat sz + 7) div 8 * 8"
    using and_not_mask [of 3 "sz + 7"] assms(2) by (simp add: unat_word_ariths)
  have v: "unat ?v = (unat (curbrk s) + 7) div 8 * 8"
    using and_not_mask [of 3 "curbrk s + 7"] assms(2) by (simp add: unat_word_ariths)
  have up: "n \<le> (n + 7) div 8 * 8" "(n + 7) div 8 * 8 \<le> n + 7" for n :: nat using div_mult_mod_eq [of "n + 7" 8] mod_less_divisor [of 8 "n + 7"]
    by linarith+
  have "unat (?v + ?z) = (unat ?v + unat ?z) mod 2 ^ 32" by (simp only: unat_word_ariths) simp
  also have "\<dots> = unat ?v + unat ?z" unfolding z v
    by (rule mod_less) (use up [of "unat sz"] up [of "unat (curbrk s)"] assms(2) in linarith)
  finally have sum: "unat (?v + ?z) = unat ?v + unat ?z" .
  show ?thesis
  proof (cases "?v + ?z > shm_end s")
    case True
    then have "Tmk_sbrk sz s = Inr (0, s)" using D(2) by (simp add: Tmk_sbrk_def table_ready_def Let_def)
    with assms(1) show ?thesis by auto
  next
    case False
    let ?s = "s\<lparr>curbrk := ?v + ?z\<rparr>"
    have le: "unat ?v + unat ?z \<le> unat (shm_end s)" using False sum by (simp add: word_less_nat_alt)
    have brk: "unat (curbrk s) \<le> unat ?v" "unat sz \<le> unat ?z" unfolding z v by (rule up)+
    have "4 dvd unat ?v + unat ?z" unfolding z v by (intro dvd_add dvd_mult) simp_all
    then have "sh_inv ?s (A \<union> {}) F"
      using grow [OF assms(1), of ?s "{}"] D(2) sum le brk by (simp add: writes_def tiles_def)
    moreover have "Tmk_sbrk sz s = Inr (?v, ?s)" using False D(2) by (simp add: Tmk_sbrk_def table_ready_def Let_def)
    moreover have "unat ?v mod 8 = 0" unfolding v by simp
    ultimately show ?thesis using sum le brk by auto
  qed
qed

theorem sbrk_above_witness:
  "\<exists>s r s'. table_initialize demo_shared = Inr s \<and> Tmk_sbrk 100 s = Inr (r, s') \<and> sh_inv s' {} (\<lambda>_. [])"
proof -
  obtain s where s: "table_initialize demo_shared = Inr s" "sh_inv s {} (\<lambda>_. [])" by (rule demo_shared_inv)
  have "unat (curbrk s) + unat (100 :: u32) + 14 < 2 ^ 32" using held_invD(3,14) [OF s(2)] by simp
  from sbrk_above [OF s(2) this] s(1) show ?thesis by blast
qed

end
