(* ===== verification/Tmk_Mmap.thy ===== *)
theory Tmk_Mmap
  imports Tmk_Process Tmk_Malloc
begin

text \<open>
  Mapping files into the shared memory, \<^verbatim>\<open>Tmk/src/mmap.c\<close>: \<^verbatim>\<open>Tmk_mmap\<close> makes the pages of the range
  up to date and dirty, as a write to each would, before it lets the kernel replace their contents;
  \<^verbatim>\<open>Tmk_msync\<close> brings the pages up to date before they are written to the file.
\<close>

section \<open>Ranges\<close>

text \<open>The geometry of the shared memory is that of the allocator: \<^verbatim>\<open>page_array_[i].vadr\<close>, \<^verbatim>\<open>page_array_[Tmk_npages].vadr\<close>.\<close>

definition page_vadr :: "shared \<Rightarrow> page_t \<Rightarrow> u32" where
  "page_vadr s i = shm_begin s + of_nat i * shm_page_size s"

definition PAGE_ALIGNED :: "u32 \<Rightarrow> shared \<Rightarrow> bool" where
  "PAGE_ALIGNED addr s \<longleftrightarrow> addr AND (shm_page_size s - 1) = 0"

definition RANGE_WITHIN_BOUNDS :: "u32 \<Rightarrow> u32 \<Rightarrow> shared \<Rightarrow> bool" where
  "RANGE_WITHIN_BOUNDS addr len s \<longleftrightarrow> addr \<ge> shm_begin s \<and> addr + len > addr \<and> addr + len \<le> shm_end s"

text \<open>
  The pages the loops go through: from the page of \<open>addr\<close> on, while they start below \<open>addr + len\<close>.  The entry
  \<^verbatim>\<open>page_array_[Tmk_npages]\<close> is the last one with an address; the loop that goes on there, or starts behind it, is \<open>None\<close>.
\<close>

definition range_pages :: "nat \<Rightarrow> u32 \<Rightarrow> u32 \<Rightarrow> shared \<Rightarrow> 'a node_scheme \<Rightarrow> page_t list option" where
  "range_pages shift addr len s n =
     (let i = unat (fault_page (shm_begin s) addr shift);
          ps = takeWhile (\<lambda>p. page_vadr s p < addr + len) [i..<npages n + 1]
      in if npages n < i \<or> npages n \<in> set ps then None else Some ps)"

text \<open>The loops do something with each page of the range, unless the process ends on the way.\<close>

fun visit_all :: "(page_t \<Rightarrow> 'n \<Rightarrow> 'n fault_result) \<Rightarrow> page_t list \<Rightarrow> 'n \<Rightarrow> 'n fault_result" where
  "visit_all visit [] n = Retry n"
| "visit_all visit (p # ps) n = (case visit p n of Retry n \<Rightarrow> visit_all visit ps n | r \<Rightarrow> r)"

section \<open>Making a page dirty\<close>

text \<open>The \<^verbatim>\<open>switch\<close> falls through from \<^verbatim>\<open>empty\<close> to \<^verbatim>\<open>invalid\<close> to \<^verbatim>\<open>valid\<close>; \<open>f\<close> has the replies and the buffer for a twin.\<close>

definition mmap_page :: "page_t \<Rightarrow> fault \<Rightarrow> 'a node_scheme \<Rightarrow> 'a node_scheme fault_result" where
  "mmap_page p f n =
     (let st = pg_state (page_array n p)
      in if st = Private then Retry n
         else if pg_twin (page_array n p) = 0 then
           (let n = set_protection p PROT_READ_WRITE n;
                n = (if st = Empty then Tmk_page_reply p (reply_size f) (reply_page f) n else n)
            in if st = Empty \<or> st = Invalid then
                 (case Tmk_diff_request p (diff_msgs f) (upd_page p (pg_state_update (\<lambda>_. Valid)) n) of
                    None \<Rightarrow> Wild
                  | Some n \<Rightarrow> make_dirty (fresh_twin f) p n)
               else make_dirty (fresh_twin f) p n)
         else if st = Valid then Retry n else Exits (Errexit ''do_mmap: assertion failed''))"

section \<open>Mapping\<close>

text \<open>
  What the kernel does: the error of \<^verbatim>\<open>munmap\<close>, the error of \<^verbatim>\<open>mmap\<close>, the contents of the file at the pages; and the error of \<^verbatim>\<open>msync\<close>.
\<close>

record kernel =
  munmap_error :: "nat option"
  mmap_error :: "nat option"
  file_page :: "page_t \<Rightarrow> u32 list"
  msync_error :: "nat option"

text \<open>The result with the value of \<^verbatim>\<open>errnop\<close>.\<close>

datatype mmap_result = Mapped u32 | Map_failed nat

abbreviation (input) EINVAL :: nat where "EINVAL \<equiv> 22"
abbreviation (input) ENOMEM :: nat where "ENOMEM \<equiv> 12"

definition protect_pages :: "page_t list \<Rightarrow> prot \<Rightarrow> 'a node_scheme \<Rightarrow> 'a node_scheme" where
  "protect_pages ps pr n = n\<lparr>protection := (\<lambda>p. if p \<in> set ps then pr else protection n p)\<rparr>"

definition do_mmap ::
  "nat \<Rightarrow> kernel \<Rightarrow> (page_t \<Rightarrow> fault) \<Rightarrow> u32 \<Rightarrow> u32 \<Rightarrow> prot \<Rightarrow> shared \<Rightarrow> 'a node_scheme \<Rightarrow> (mmap_result \<times> 'a node_scheme) fault_result" where
  "do_mmap shift k fs addr len pr s n =
     (case range_pages shift addr len s n of
        None \<Rightarrow> Wild
      | Some ps \<Rightarrow>
          (case visit_all (\<lambda>p. mmap_page p (fs p)) ps n of
             Retry n \<Rightarrow>
               (case munmap_error k of
                  Some e \<Rightarrow> Retry (Map_failed e, n)
                | None \<Rightarrow>
                    (case mmap_error k of
                       Some e \<Rightarrow> Retry (Map_failed e, protect_pages ps PROT_NONE n)
                     | None \<Rightarrow> Retry (Mapped addr, protect_pages ps pr
                         (n\<lparr>mem := (\<lambda>p. if p \<in> set ps then file_page k p else mem n p)\<rparr>))))
           | Default_action n \<Rightarrow> Wild
           | Exits e \<Rightarrow> Exits e
           | Wild \<Rightarrow> Wild))"

text \<open>\<open>fixed\<close> is \<^verbatim>\<open>flags & MAP_FIXED\<close>; otherwise the range comes from \<^verbatim>\<open>Tmk_malloc\<close>, rounded up to whole pages.\<close>

definition Tmk_mmap ::
  "nat \<Rightarrow> kernel \<Rightarrow> (page_t \<Rightarrow> fault) \<Rightarrow> bool \<Rightarrow> u32 \<Rightarrow> u32 \<Rightarrow> prot \<Rightarrow> shared \<Rightarrow> 'a node_scheme \<Rightarrow>
   (mmap_result \<times> shared \<times> 'a node_scheme) fault_result" where
  "Tmk_mmap shift k fs fixed addr len pr s n =
     (if fixed then
        (if PAGE_ALIGNED addr s \<and> RANGE_WITHIN_BOUNDS addr len s
         then map_fault_result (\<lambda>(r, n). (r, s, n)) (do_mmap shift k fs addr len pr s n)
         else Retry (Map_failed EINVAL, s, n))
      else
        (case Tmk_malloc ((len + (shm_page_size s - 1)) AND NOT (shm_page_size s - 1)) s of
           Inl e \<Rightarrow> Exits e
         | Inr (addr, s) \<Rightarrow>
             if addr \<noteq> 0 then map_fault_result (\<lambda>(r, n). (r, s, n)) (do_mmap shift k fs addr len pr s n)
             else Retry (Map_failed ENOMEM, s, n)))"

text \<open>\<^verbatim>\<open>Tmk_msync\<close> reads a byte of each page, which faults where the page is not readable.\<close>

definition touch_page :: "page_t \<Rightarrow> fault \<Rightarrow> 'a node_scheme \<Rightarrow> 'a node_scheme fault_result" where
  "touch_page p f n = (if allows (protection n p) False then Retry n else segv_handler p (f\<lparr>is_write := False\<rparr>) n)"

definition Tmk_msync ::
  "nat \<Rightarrow> kernel \<Rightarrow> (page_t \<Rightarrow> fault) \<Rightarrow> u32 \<Rightarrow> u32 \<Rightarrow> shared \<Rightarrow> 'a node_scheme \<Rightarrow> (nat option \<times> 'a node_scheme) fault_result" where
  "Tmk_msync shift k fs addr len s n =
     (if PAGE_ALIGNED addr s \<and> RANGE_WITHIN_BOUNDS addr len s then
        (case range_pages shift addr len s n of
           None \<Rightarrow> Wild
         | Some ps \<Rightarrow> map_fault_result (\<lambda>n. (msync_error k, n)) (visit_all (\<lambda>p. touch_page p (fs p)) ps n))
      else Retry (Some EINVAL, n))"

section \<open>The pages of a range\<close>

text \<open>The shared memory consists of the pages of the process and ends below the top of the address space.\<close>

definition geometry :: "nat \<Rightarrow> shared \<Rightarrow> 'a node_scheme \<Rightarrow> bool" where
  "geometry shift s n \<longleftrightarrow> shm_page_size s = 2 ^ shift \<and> npages n \<le> NPAGES \<and> npages n * 2 ^ shift < 2 ^ 31 \<and>
     unat (shm_begin s) + npages n * 2 ^ shift < 2 ^ 32 \<and> unat (shm_end s) = unat (shm_begin s) + npages n * 2 ^ shift"

lemma unat_page_vadr:
  assumes "geometry shift s n" "p \<le> npages n"
  shows "unat (page_vadr s p) = unat (shm_begin s) + p * 2 ^ shift"
proof -
  have "p * 2 ^ shift \<le> npages n * 2 ^ shift" by (rule mult_le_mono1 [OF assms(2)])
  moreover have "unat (shm_begin s) + npages n * 2 ^ shift < 2 ^ 32" using assms(1) unfolding geometry_def by blast
  ultimately have lt: "p * 2 ^ shift < 2 ^ 32" "unat (shm_begin s) + p * 2 ^ shift < 2 ^ 32" by linarith+
  have "of_nat p * shm_page_size s = of_nat (p * 2 ^ shift)" using assms(1) by (simp add: geometry_def)
  then have "unat (of_nat p * shm_page_size s) = unat (of_nat (p * 2 ^ shift) :: u32)" by (rule arg_cong)
  also have "\<dots> = p * 2 ^ shift" by (rule unat_of_nat_small) (use lt(1) in simp)
  finally have "unat (of_nat p * shm_page_size s) = p * 2 ^ shift" .
  with lt(2) show ?thesis unfolding page_vadr_def by (simp add: unat_word_ariths)
qed

lemma unat_end_of_range:
  fixes addr len :: u32
  assumes "addr + len > addr"
  shows "unat (addr + len) = unat addr + unat len"
proof -
  have "unat (addr + len) = (unat addr + unat len) mod 2 ^ 32" by (simp add: unat_word_ariths)
  moreover have "unat addr < unat (addr + len)" using assms by (simp add: word_less_nat_alt)
  moreover have "unat addr < 2 ^ 32" "unat len < 2 ^ 32" using unsigned_less [of addr] unsigned_less [of len] by simp_all
  moreover have "(unat addr + unat len) mod 2 ^ 32 = unat addr + unat len - 2 ^ 32" if "2 ^ 32 \<le> unat addr + unat len"
    using that calculation(3,4) by (simp add: le_mod_geq)
  ultimately show ?thesis by (cases "unat addr + unat len < 2 ^ 32") simp_all
qed

lemma takeWhile_upt:
  assumes "\<And>p q. P q \<Longrightarrow> p \<le> q \<Longrightarrow> q < k \<Longrightarrow> P p"
  shows "set (takeWhile P [i..<k]) = {p. i \<le> p \<and> p < k \<and> P p}"
  using assms
proof (induction k)
  case (Suc k)
  have IH: "set (takeWhile P [i..<k]) = {p. i \<le> p \<and> p < k \<and> P p}" by (rule Suc.IH) (use Suc.prems in \<open>blast intro: less_SucI\<close>)
  show ?case
  proof (cases "i \<le> k")
    case True
    have upt: "[i..<Suc k] = [i..<k] @ [k]" using True by simp
    show ?thesis
    proof (cases "\<forall>p \<in> set [i..<k]. P p")
      case True
      then have "takeWhile P [i..<Suc k] = [i..<k] @ takeWhile P [k]" unfolding upt by (intro takeWhile_append2) blast
      with True \<open>i \<le> k\<close> show ?thesis by (auto simp: less_Suc_eq)
    next
      case False
      then obtain p where p: "p \<in> set [i..<k]" "\<not> P p" by blast
      then have "takeWhile P [i..<Suc k] = takeWhile P [i..<k]" unfolding upt by (rule takeWhile_append1)
      moreover have "\<not> P k" using p Suc.prems [of k p] by auto
      ultimately show ?thesis using IH by (auto simp: less_Suc_eq)
    qed
  qed auto
qed simp

text \<open>For a checked range the loop goes exactly through the pages that have an address of the range.\<close>

lemma range_pages_iff:
  assumes geo: "geometry shift s n" and within: "RANGE_WITHIN_BOUNDS addr len s"
  obtains ps where "range_pages shift addr len s n = Some ps" "distinct ps"
    "set ps = {p. p < npages n \<and> unat addr < unat (page_vadr s p) + 2 ^ shift \<and> unat (page_vadr s p) < unat addr + unat len}"
proof -
  let ?b = "unat (shm_begin s)" and ?i = "unat (fault_page (shm_begin s) addr shift)"
  have fin: "unat (addr + len) = unat addr + unat len" and b: "?b \<le> unat addr" and e: "unat addr + unat len \<le> ?b + npages n * 2 ^ shift"
    and len: "0 < unat len"
    using within geo unat_end_of_range [of addr len]
    by (auto simp: RANGE_WITHIN_BOUNDS_def geometry_def word_le_nat_alt word_less_nat_alt)
  have g: "npages n * 2 ^ shift < 2 ^ 31" "?b + npages n * 2 ^ shift \<le> 2 ^ 32" "npages n \<le> NPAGES"
    using geo unfolding geometry_def by linarith+
  have "unat addr < ?b + npages n * 2 ^ shift" using e len by linarith
  with b fault_page_range [OF g, of addr] have i: "?i < npages n" "?i = (unat addr - ?b) div 2 ^ shift" by blast+
  have vadr: "unat (page_vadr s p) = ?b + p * 2 ^ shift" if "p \<le> npages n" for p using unat_page_vadr [OF geo that] .
  have mono: "page_vadr s p < addr + len" if "page_vadr s q < addr + len" "p \<le> q" "q < npages n + 1" for p q
  proof -
    have "p * 2 ^ shift \<le> q * 2 ^ shift" by (rule mult_le_mono1 [OF that(2)])
    moreover have "?b + q * 2 ^ shift < unat (addr + len)" using that(1,3) by (simp add: word_less_nat_alt vadr)
    ultimately have "?b + p * 2 ^ shift < unat (addr + len)" by linarith
    then show ?thesis using that(2,3) by (simp add: word_less_nat_alt vadr)
  qed
  let ?ps = "takeWhile (\<lambda>p. page_vadr s p < addr + len) [?i..<npages n + 1]"
  have set_ps: "set ?ps = {p. ?i \<le> p \<and> p < npages n + 1 \<and> page_vadr s p < addr + len}"
    by (rule takeWhile_upt) (rule mono)
  have last_p: "\<not> page_vadr s (npages n) < addr + len" using e fin by (simp add: word_less_nat_alt vadr)
  have "?i \<le> p \<longleftrightarrow> unat addr < ?b + p * 2 ^ shift + 2 ^ shift" for p
  proof -
    have "?i \<le> p \<longleftrightarrow> (unat addr - ?b) div 2 ^ shift < Suc p" unfolding i(2) by (rule less_Suc_eq_le [symmetric])
    also have "\<dots> \<longleftrightarrow> unat addr - ?b < Suc p * 2 ^ shift" by (rule div_less_iff_less_mult) simp
    also have "\<dots> \<longleftrightarrow> unat addr < ?b + p * 2 ^ shift + 2 ^ shift" by (simp only: less_diff_conv2 [OF b] mult_Suc add_ac)
    finally show ?thesis .
  qed
  then have "p \<in> set ?ps \<longleftrightarrow> p < npages n \<and> unat addr < unat (page_vadr s p) + 2 ^ shift \<and> unat (page_vadr s p) < unat addr + unat len" for p
    unfolding set_ps using last_p by (cases "p = npages n"; cases "p < npages n") (simp_all add: word_less_nat_alt [of "page_vadr s p"] vadr fin)
  then have "set ?ps = {p. p < npages n \<and> unat addr < unat (page_vadr s p) + 2 ^ shift \<and> unat (page_vadr s p) < unat addr + unat len}" by blast
  moreover have "range_pages shift addr len s n = Some ?ps"
    using i(1) last_p set_ps by (simp add: range_pages_def)
  moreover have "distinct ?ps" by (simp add: distinct_takeWhile)
  ultimately show ?thesis by (intro that)
qed

section \<open>A mapped page is a written page\<close>

text \<open>A page is made ready for the mapping exactly as a write fault on it would.\<close>

lemma mmap_page_write_fault:
  assumes "p < npages n" "pg_state (page_array n p) \<noteq> Private" "pg_twin (page_array n p) = 0"
  shows "mmap_page p f n = segv_handler p (f\<lparr>is_write := True\<rparr>) n"
proof -
  have st: "pg_state (page_array (set_protection p PROT_READ_WRITE n) p) = pg_state (page_array n p)"
    by (simp add: set_protection_def)
  show ?thesis
    using assms by (cases "pg_state (page_array n p)") (simp_all add: mmap_page_def segv_handler_def st Let_def cong: option.case_cong)
qed

lemma diff_request_page_size: "Tmk_diff_request p msgs n = Some n' \<Longrightarrow> page_size n' = page_size n"
  by (erule diff_request_eq) simp

lemma make_dirty_page_size: "make_dirty t p n = Retry n' \<Longrightarrow> page_size n' = page_size n"
  by (auto simp: make_dirty_def Tmk_page_dirty_merge_def dest: twin_alloc_frame(4) split: sum.splits)

lemma segv_handler_page_size: "segv_handler i f n = Retry n' \<Longrightarrow> page_size n' = page_size n"
  by (auto simp: segv_handler_def Let_def set_protection_def Tmk_page_reply_def upd_page_def upd_stat_def
      dest!: make_dirty_page_size diff_request_page_size split: if_splits option.splits)

section \<open>Loops over pages\<close>

text \<open>The pages \<open>P\<close> have got an access the others keep, in a coherent process, and nothing else has changed.\<close>

definition visited :: "(prot \<Rightarrow> bool) \<Rightarrow> page_t set \<Rightarrow> 'a node_scheme \<Rightarrow> 'a node_scheme \<Rightarrow> bool" where
  "visited granted P n n' \<longleftrightarrow> coherent n' \<and> npages n' = npages n \<and> page_size n' = page_size n \<and>
     (\<forall>q. q \<notin> P \<longrightarrow> mem n' q = mem n q \<and> protection n' q = protection n q) \<and>
     (\<forall>q. granted (protection n q) \<or> q \<in> P \<longrightarrow> granted (protection n' q))"

text \<open>What a page needs of its environment, in the state in which its turn comes.\<close>

fun all_ready :: "(page_t \<Rightarrow> 'n \<Rightarrow> bool) \<Rightarrow> (page_t \<Rightarrow> 'n \<Rightarrow> 'n fault_result) \<Rightarrow> page_t list \<Rightarrow> 'n \<Rightarrow> bool" where
  "all_ready ready visit [] n = True"
| "all_ready ready visit (p # ps) n \<longleftrightarrow> ready p n \<and> (case visit p n of Retry n \<Rightarrow> all_ready ready visit ps n | _ \<Rightarrow> True)"

locale page_visit =
  fixes visit :: "page_t \<Rightarrow> 'a node_scheme \<Rightarrow> 'a node_scheme fault_result"
    and ready :: "page_t \<Rightarrow> 'a node_scheme \<Rightarrow> bool"
    and granted :: "prot \<Rightarrow> bool"
  assumes visit_page: "coherent n \<Longrightarrow> p < npages n \<Longrightarrow> ready p n \<Longrightarrow> \<exists>n'. visit p n = Retry n' \<and> visited granted {p} n n'"
begin

lemma visit_all_visited:
  assumes "coherent n" "\<forall>p \<in> set ps. p < npages n" "all_ready ready visit ps n"
  shows "\<exists>n'. visit_all visit ps n = Retry n' \<and> visited granted (set ps) n n'"
  using assms
proof (induction ps arbitrary: n)
  case Nil
  then show ?case by (simp add: visited_def)
next
  case (Cons p ps)
  obtain m where m: "visit p n = Retry m" "visited granted {p} n m" using visit_page [of n p] Cons.prems by auto
  have "all_ready ready visit ps m" using Cons.prems(3) m(1) by simp
  moreover have "coherent m" "\<forall>q \<in> set ps. q < npages m" using Cons.prems m(2) by (simp_all add: visited_def)
  ultimately obtain n' where n': "visit_all visit ps m = Retry n'" "visited granted (set ps) m n'" using Cons.IH by blast
  have "visited granted (set (p # ps)) n n'" using m(2) n'(2) unfolding visited_def by simp
  with m(1) n'(1) show ?case by simp
qed

end

lemma settled_prot:
  "node_inv n ds [] free \<Longrightarrow> p < npages n \<Longrightarrow> prot_ok (pg_state (page_array n p)) (pg_twin (page_array n p)) (protection n p) False"
  by (simp add: node_inv_def covered_def)

lemma answered_write [simp]: "answered i (f\<lparr>is_write := w\<rparr>) n = answered i f n"
  by (simp add: answered_def fetched_def Let_def)

lemma fault_visited:
  assumes inv: "node_inv n ds [] free" and p: "p < npages n" and denied: "\<not> allows (protection n p) (is_write f)"
    and env: "fresh_for (fresh_twin f) n" "answered p f n"
  shows "\<exists>n'. segv_handler p f n = Retry n' \<and> visited (\<lambda>pr. allows pr (is_write f)) {p} n n'"
proof -
  have "p \<notin> covered []" by (simp add: covered_def)
  from segv_handler_handled [OF inv p this denied env]
  obtain n' ds' free' where n': "segv_handler p f n = Retry n'" "node_inv n' ds' [] free'" "allows (protection n' p) (is_write f)"
    "npages n' = npages n" "\<forall>q. q \<noteq> p \<longrightarrow> mem n' q = mem n q \<and> protection n' q = protection n q"
    unfolding handled_def by blast
  have "visited (\<lambda>pr. allows pr (is_write f)) {p} n n'"
    unfolding visited_def
  proof (intro conjI allI impI)
    show "coherent n'" by (rule coherentI [OF n'(2)])
    show "page_size n' = page_size n" by (rule segv_handler_page_size [OF n'(1)])
  next
    fix q assume "allows (protection n q) (is_write f) \<or> q \<in> {p}"
    with n'(3,5) show "allows (protection n' q) (is_write f)" by (cases "q = p") auto
  qed (use n'(4,5) in auto)
  with n'(1) show ?thesis by blast
qed

definition mmap_ready :: "(page_t \<Rightarrow> fault) \<Rightarrow> page_t \<Rightarrow> 'a node_scheme \<Rightarrow> bool" where
  "mmap_ready fs p n \<longleftrightarrow> pg_state (page_array n p) = Private \<or> pg_twin (page_array n p) \<noteq> 0 \<or>
     fresh_for (fresh_twin (fs p)) n \<and> answered p (fs p) n"

definition touch_ready :: "(page_t \<Rightarrow> fault) \<Rightarrow> page_t \<Rightarrow> 'a node_scheme \<Rightarrow> bool" where
  "touch_ready fs p n \<longleftrightarrow> allows (protection n p) False \<or> fresh_for (fresh_twin (fs p)) n \<and> answered p (fs p) n"

interpretation mapping: page_visit "\<lambda>p. mmap_page p (fs p)" "mmap_ready fs" "\<lambda>pr. allows pr True"
proof
  fix n :: "'a node_scheme" and p
  assume n: "coherent n" and p: "p < npages n" and ready: "mmap_ready fs p n"
  obtain ds free where inv: "node_inv n ds [] free" using n by (auto simp: coherent_def)
  note prot = settled_prot [OF inv p]
  show "\<exists>n'. mmap_page p (fs p) n = Retry n' \<and> visited (\<lambda>pr. allows pr True) {p} n n'"
  proof (cases "pg_state (page_array n p) = Private \<or> pg_twin (page_array n p) \<noteq> 0")
    case True
    with prot have "protection n p = PROT_READ_WRITE" "pg_state (page_array n p) = Private \<or> pg_state (page_array n p) = Valid"
      by (auto simp: prot_ok_def split: page_state.splits if_splits)
    with True n show ?thesis by (intro exI [of _ n]) (auto simp: mmap_page_def visited_def allows_def Let_def)
  next
    case False
    let ?f = "(fs p)\<lparr>is_write := True\<rparr>"
    have "mmap_page p (fs p) n = segv_handler p ?f n" using False p by (intro mmap_page_write_fault) auto
    moreover have "\<not> allows (protection n p) (is_write ?f)" using False prot by (auto simp: prot_ok_def allows_def split: page_state.splits)
    ultimately show ?thesis using fault_visited [OF inv p, of ?f] False ready by (simp add: mmap_ready_def)
  qed
qed

interpretation syncing: page_visit "\<lambda>p. touch_page p (fs p)" "touch_ready fs" "\<lambda>pr. allows pr False"
proof
  fix n :: "'a node_scheme" and p
  assume n: "coherent n" and p: "p < npages n" and ready: "touch_ready fs p n"
  obtain ds free where inv: "node_inv n ds [] free" using n by (auto simp: coherent_def)
  show "\<exists>n'. touch_page p (fs p) n = Retry n' \<and> visited (\<lambda>pr. allows pr False) {p} n n'"
  proof (cases "allows (protection n p) False")
    case True
    with n show ?thesis by (auto simp: touch_page_def visited_def)
  next
    case False
    then show ?thesis using fault_visited [OF inv p, of "(fs p)\<lparr>is_write := False\<rparr>"] ready by (simp add: touch_page_def touch_ready_def)
  qed
qed

section \<open>Properties\<close>


text \<open>A file of pages filled with their number, of which 10 bytes are mapped at the address of page 3.\<close>

definition demo_kernel :: kernel where
  "demo_kernel = \<lparr>munmap_error = None, mmap_error = None, file_page = (\<lambda>p. [of_nat p, of_nat p, of_nat p, of_nat p]), msync_error = None\<rparr>"

definition demo_memory :: shared where
  "demo_memory = demo_shared\<lparr>shm_end := 0x40000100, shm_page_size := 16\<rparr>"

lemma demo_memory_range:
  "geometry 4 demo_memory demo_node" "PAGE_ALIGNED 0x40000030 demo_memory" "RANGE_WITHIN_BOUNDS 0x40000030 10 demo_memory"
  "range_pages 4 0x40000030 10 demo_memory demo_node = Some [3]"
proof -
  show "geometry 4 demo_memory demo_node" "PAGE_ALIGNED 0x40000030 demo_memory" "RANGE_WITHIN_BOUNDS 0x40000030 10 demo_memory"
    by (simp_all add: geometry_def demo_memory_def demo_shared_def demo_node_simps PAGE_ALIGNED_def RANGE_WITHIN_BOUNDS_def)
  have "fault_page 0x40000000 0x40000030 4 = 3" by (simp add: fault_page_def)
  then show "range_pages 4 0x40000030 10 demo_memory demo_node = Some [3]"
    by (simp add: range_pages_def demo_memory_def demo_shared_def demo_node_simps page_vadr_def upt_rec Let_def)
qed


text \<open>
  Before \<^verbatim>\<open>Tmk_msync\<close> has a page-aligned range inside the shared memory written to its file, every page of the range is
  readable, and so up to date; the process stays coherent, pages outside the range are unchanged, and the result is that of the kernel.
\<close>

theorem msync_current:
  assumes "coherent n" "geometry shift s n" "PAGE_ALIGNED addr s" "RANGE_WITHIN_BOUNDS addr len s"
    and "range_pages shift addr len s n = Some ps" "all_ready (touch_ready fs) (\<lambda>p. touch_page p (fs p)) ps n"
  shows "\<exists>n'. Tmk_msync shift k fs addr len s n = Retry (msync_error k, n') \<and> coherent n' \<and>
     (\<forall>p < npages n.
        if unat addr < unat (page_vadr s p) + 2 ^ shift \<and> unat (page_vadr s p) < unat addr + unat len
        then allows (protection n' p) False \<and> (pg_state (page_array n' p) = Private \<or> pg_state (page_array n' p) = Valid)
        else mem n' p = mem n p \<and> protection n' p = protection n p)"
proof -
  have ps: "set ps = {p. p < npages n \<and> unat addr < unat (page_vadr s p) + 2 ^ shift \<and> unat (page_vadr s p) < unat addr + unat len}"
    by (rule range_pages_iff [OF assms(2,4)]) (use assms(5) in simp)
  obtain m where m: "visit_all (\<lambda>p. touch_page p (fs p)) ps n = Retry m" "visited (\<lambda>pr. allows pr False) (set ps) n m"
    using syncing.visit_all_visited [OF assms(1) _ assms(6)] ps by blast
  obtain ds free where inv: "node_inv m ds [] free" and np: "npages m = npages n" using m(2) by (auto simp: visited_def coherent_def)
  have valid: "pg_state (page_array m p) = Private \<or> pg_state (page_array m p) = Valid" if "p < npages n" "allows (protection m p) False" for p
    using settled_prot [OF inv, of p] that np by (auto simp: prot_ok_def allows_def split: page_state.splits)
  have "Tmk_msync shift k fs addr len s n = Retry (msync_error k, m)"
    using assms(3-5) m(1) by (simp add: Tmk_msync_def)
  moreover have "if p \<in> set ps
        then allows (protection m p) False \<and> (pg_state (page_array m p) = Private \<or> pg_state (page_array m p) = Valid)
        else mem m p = mem n p \<and> protection m p = protection n p" if "p < npages n" for p
    using m(2) valid [OF that] by (simp add: visited_def)
  ultimately show ?thesis using m(2) unfolding ps visited_def by (intro exI [of _ m]) simp
qed

theorem msync_current_witness:
  "\<exists>n'. Tmk_msync 4 demo_kernel (\<lambda>_. demo_fault) 0x40000030 10 demo_memory demo_node = Retry (None, n') \<and> coherent n'"
proof -
  have "all_ready (touch_ready (\<lambda>_. demo_fault)) (\<lambda>p. touch_page p demo_fault) [3] demo_node"
    by (simp add: touch_ready_def allows_def demo_node_simps split: fault_result.splits)
  from msync_current [OF coherentI [OF demo_node_inv] demo_memory_range this, of demo_kernel] show ?thesis
    by (auto simp: demo_kernel_def)
qed

section \<open>The alignment of allocated ranges\<close>

text \<open>
  \<^verbatim>\<open>Tmk_mmap\<close> relies on \<^verbatim>\<open>Tmk_malloc\<close> returning a page-aligned address for a request of whole pages.  That holds for a block taken
  at the break, but not for one split off a larger block: after a block of 12000 bytes has been allocated and freed, a page of
  4096 bytes is the upper half of it.
\<close>

definition after_malloc :: shared where
  "after_malloc = demo_shared\<lparr>table_set := True, curbrk := 0x40003FFC, shm := (\<lambda>_. 0)(0x40000FFC := 25 XOR C_xor_index)\<rparr>"

definition after_free :: shared where
  "after_free = after_malloc\<lparr>nextfit := (\<lambda>_. 0)(25 := 0x40000FFC), shm := (shm after_malloc)(0x40001000 := 0)\<rparr>"

lemma demo_buckets:
  "find_bucket 240 8 = Some 14" "find_bucket 12004 8 = Some 25" "find_bucket 4100 8 = Some 23"
  "BUCKET_SIZE 14 = 256" "BUCKET_SIZE 25 = 12288" "BUCKET_SIZE 23 = 6144"
  by code_simp+

lemma find_none: "List.find (\<lambda>b. False) xs = None" by (induction xs) auto

lemma demo_malloc: "Tmk_malloc 12000 demo_shared = Inr (0x40001000, after_malloc)"
  by (simp add: Tmk_malloc_def demo_buckets table_ready_def demo_shared_def after_malloc_def table_initialize_def
      malloc_loop.simps [of 25] sh_resize_def find_none carve_def store_def in_shm_def Let_def)

lemma demo_free: "Tmk_free 0x40001000 after_malloc = Inr after_free"
  by (simp add: Tmk_free_def after_free_def after_malloc_def demo_shared_def load_def store_def in_shm_def Let_def
      table_ready_def xor.assoc)

lemma demo_split: "\<exists>s. Tmk_malloc 4096 after_free = Inr (0x40002800, s) \<and> shm_page_size s = 4096"
  by (simp add: Tmk_malloc_def demo_buckets table_ready_def malloc_loop.simps [of 23] sh_resize_def split_chain.simps [of 23 25]
      split_chain.simps [of 23 23] after_free_def after_malloc_def demo_shared_def upt_rec [of 25] push_chain_def pop_chain_def
      load_def store_def in_shm_def Let_def)

lemma malloc_unaligned:
  "\<exists>s s' s''. Tmk_malloc 12000 demo_shared = Inr (0x40001000, s) \<and> Tmk_free 0x40001000 s = Inr s' \<and>
     Tmk_malloc 4096 s' = Inr (0x40002800, s'') \<and> \<not> PAGE_ALIGNED 0x40002800 s''"
proof -
  obtain s where s: "Tmk_malloc 4096 after_free = Inr (0x40002800, s)" "shm_page_size s = 4096" using demo_split by blast
  then have "\<not> PAGE_ALIGNED 0x40002800 s" by (simp add: PAGE_ALIGNED_def)
  with s(1) demo_malloc demo_free show ?thesis by blast
qed

end
