(* ===== verification/Tmk_Startup.thy ===== *)
theory Tmk_Startup
  imports Tmk_Sigio Tmk_Mmap "HOL-Library.Char_ord"
begin

text \<open>
  The configuration of a process by \<^verbatim>\<open>Tmk_startup\<close> of \<^verbatim>\<open>Tmk/src/startup.c\<close>: the options, the list of hosts, the number of
  processes and the initialisation of all components, with the page geometry of \<^verbatim>\<open>Tmk/src/page.c\<close>.
\<close>

section \<open>Options\<close>

text \<open>\<^verbatim>\<open>atoi\<close> and \<^verbatim>\<open>atol\<close> of the 32-bit C library, which saturate.\<close>

fun digits :: "int \<Rightarrow> string \<Rightarrow> int" where
  "digits v [] = v"
| "digits v (c # cs) = (if CHR ''0'' \<le> c \<and> c \<le> CHR ''9'' then digits (10 * v + (of_char c - 48)) cs else v)"

definition atoi :: "string \<Rightarrow> int" where
  "atoi s =
     (let s = dropWhile (\<lambda>c. c \<in> {CHR '' '', CHR 0x09, CHR 0x0A, CHR 0x0B, CHR 0x0C, CHR 0x0D}) s;
          v = (case s of [] \<Rightarrow> 0
                | c # cs \<Rightarrow> if c = CHR ''-'' then - digits 0 cs else if c = CHR ''+'' then digits 0 cs else digits 0 s)
      in max (- (2 ^ 31)) (min (2 ^ 31 - 1) v))"

text \<open>
  What \<^verbatim>\<open>Tmk_startup\<close> reads of its environment: the variables \<^verbatim>\<open>DEBUGGER\<close> and \<^verbatim>\<open>DISPLAY\<close>, the words of the file of hosts
  (\<open>None\<close> if it cannot be opened), the outcome of \<^verbatim>\<open>test_hostlist\<close>, the time, the time of the build, the page size and the
  address \<^verbatim>\<open>mmap\<close> gives the shared memory.
\<close>

record environment =
  env_debugger :: bool
  env_display :: bool
  env_hosts :: "string option \<Rightarrow> string list option"
  env_host_ok :: bool
  env_time :: int
  env_TIMESTAMP :: int
  env_pagesize :: u32
  env_vadr :: "u32 \<Rightarrow> u32"

text \<open>The variables the options set; \<open>su_file\<close> is \<^verbatim>\<open>cp\<close>, \<open>su_hosts\<close> the first \<^verbatim>\<open>i\<close> entries of \<^verbatim>\<open>Tmk_hostlist\<close>, \<open>su_j\<close> is \<^verbatim>\<open>j\<close>.\<close>

record startup =
  su_debugger :: bool
  su_display :: bool
  su_file :: "string option"
  su_hosts :: "string list"
  su_proc_id :: u32
  su_vadr :: u32
  su_nprocs :: u32
  su_npages :: u32
  su_port :: "nat \<Rightarrow> nat \<Rightarrow> u32"
  su_j :: nat
  su_netrc :: bool
  su_stat_flag :: nat
  su_debug :: bool
  su_init_to_valid :: bool
  su_page_shift :: u32

abbreviation (input) MAXHOSTNAMELEN :: nat where "MAXHOSTNAMELEN \<equiv> 64"

definition startup_start :: startup where
  "startup_start = \<lparr>su_debugger = False, su_display = False, su_file = None, su_hosts = [], su_proc_id = 0, su_vadr = 0,
     su_nprocs = 0, su_npages = of_nat NPAGES, su_port = (\<lambda>_ _. 0), su_j = 0, su_netrc = False, su_stat_flag = 0,
     su_debug = False, su_init_to_valid = False, su_page_shift = 0\<rparr>"

text \<open>An entry of \<^verbatim>\<open>Tmk_hostlist\<close> is written; a name that does not fit, or an entry behind the last, is a wild access.\<close>

definition add_host :: "string \<Rightarrow> string list \<Rightarrow> string list tmk_result" where
  "add_host h hs = (if NPROCS \<le> length hs \<or> MAXHOSTNAMELEN \<le> length h then Inl Wild_access else Inr (hs @ [h]))"

definition get_display :: "environment \<Rightarrow> startup \<Rightarrow> startup tmk_result" where
  "get_display env su = (if env_display env then Inr (su\<lparr>su_display := True\<rparr>) else Inl (Errexit ''Tmk_startup: DISPLAY=(null)''))"

text \<open>What \<^verbatim>\<open>getopt\<close> returns: an option with its argument; \<^verbatim>\<open>?\<close> for an unknown one.\<close>

definition option_step :: "environment \<Rightarrow> char \<Rightarrow> string \<Rightarrow> startup \<Rightarrow> startup tmk_result" where
  "option_step env c optarg su =
     (if c = CHR ''?'' then Inl (Errexit '''')
      else if c = CHR ''D'' then Inr su
      else if c = CHR ''d'' then
        (if env_debugger env then get_display env (su\<lparr>su_debugger := True\<rparr>) else Inl (Errexit ''Tmk_startup: DEBUGGER=(null)''))
      else if c = CHR ''f'' then Inr (su\<lparr>su_file := Some optarg\<rparr>)
      else if c = CHR ''h'' then tmk_bind (add_host optarg (su_hosts su)) (\<lambda>hs. Inr (su\<lparr>su_hosts := hs\<rparr>))
      else if c = CHR ''I'' then Inr su
      else if c = CHR ''i'' then Inr (su\<lparr>su_proc_id := word_of_int (atoi optarg)\<rparr>)
      else if c = CHR ''m'' then Inr (su\<lparr>su_vadr := word_of_int (atoi optarg)\<rparr>)
      else if c = CHR ''n'' then
        (let np = word_of_int (atoi optarg)
         in if np > of_nat NPROCS then Inl (Errexit ''Tmk_startup: -n exceeds the process limit'')
            else if np = 0 then Inl (Errexit ''Tmk_startup: invalid argument for -n'')
            else Inr (su\<lparr>su_nprocs := np\<rparr>))
      else if c = CHR ''P'' then
        (let np = word_of_int (atoi optarg)
         in if np > of_nat NPAGES then Inl (Errexit ''Tmk_startup: -P exceeds the page limit'') else Inr (su\<lparr>su_npages := np\<rparr>))
      else if c = CHR ''p'' then
        (if NPROCS \<le> su_j su \<or> NPROCS \<le> unat (su_proc_id su) then Inl Wild_access
         else Inr (su\<lparr>su_port := (su_port su)(su_j su := (su_port su (su_j su))(unat (su_proc_id su) := word_of_int (atoi optarg))),
                      su_j := su_j su + 1\<rparr>))
      else if c = CHR ''r'' then Inr (su\<lparr>su_netrc := True\<rparr>)
      else if c = CHR ''S'' then Inr (su\<lparr>su_stat_flag := 2\<rparr>)
      else if c = CHR ''s'' then Inr (su\<lparr>su_stat_flag := 1\<rparr>)
      else if c = CHR ''t'' then Inr (su\<lparr>su_debug := True\<rparr>)
      else if c = CHR ''v'' then Inr (su\<lparr>su_init_to_valid := True\<rparr>)
      else if c = CHR ''x'' then get_display env su
      else if c = CHR ''X'' then
        (let s = word_of_int (atoi optarg)
         in if s > 3 then Inl (Errexit ''Tmk_startup: -X exceeds the maximum page size'') else Inr (su\<lparr>su_page_shift := s\<rparr>))
      else Inr su)"

fun options :: "environment \<Rightarrow> (char \<times> string) list \<Rightarrow> startup \<Rightarrow> startup tmk_result" where
  "options env [] su = Inr su"
| "options env ((c, a) # os) su = tmk_bind (option_step env c a su) (options env os)"

section \<open>Hosts and processes\<close>

text \<open>
  Up to \<open>j\<close> words of the file become hosts: \<^verbatim>\<open>Tmk_nprocs\<close> of them, or \<^verbatim>\<open>NPROCS + 1\<close> if there is no \<^verbatim>\<open>-n\<close>.
\<close>

fun read_hosts :: "nat \<Rightarrow> string list \<Rightarrow> string list \<Rightarrow> string list tmk_result" where
  "read_hosts j [] hs = Inr hs"
| "read_hosts j (w # ws) hs = (if length hs < j then tmk_bind (add_host w hs) (read_hosts j ws) else Inr hs)"

definition hosts :: "environment \<Rightarrow> startup \<Rightarrow> startup tmk_result" where
  "hosts env su =
     (if su_hosts su = [] then
        (case env_hosts env (su_file su) of
           None \<Rightarrow> Inl (Perrexit '''')
         | Some ws \<Rightarrow>
             tmk_bind (read_hosts (if 0 < su_nprocs su then unat (su_nprocs su) else NPROCS + 1) ws [])
               (\<lambda>hs. Inr (su\<lparr>su_hosts := hs\<rparr>)))
      else if su_file su \<noteq> None then Inl (Errexit ''Tmk_startup: the -f and -h options are incompatible'')
      else Inr su)"

definition processes :: "startup \<Rightarrow> startup tmk_result" where
  "processes su =
     (let i = length (su_hosts su)
      in if NPROCS < i then Inl (Errexit ''Tmk_startup: exceeds the process limit'')
         else if i < unat (su_nprocs su) then Inl (Errexit ''Tmk_startup: contains less hosts'')
         else if su_nprocs su = 0 then Inr (su\<lparr>su_nprocs := of_nat i\<rparr>)
         else Inr su)"

text \<open>Outside the ten years from the time of the build the program runs sequentially.\<close>

definition licence :: "environment \<Rightarrow> startup \<Rightarrow> startup" where
  "licence env su =
     (let past = env_TIMESTAMP env; future = past + 10 * 365 * 24 * 3600
      in if past > env_time env \<or> env_time env \<ge> future then su\<lparr>su_nprocs := 1\<rparr> else su)"

definition configure :: "environment \<Rightarrow> (char \<times> string) list \<Rightarrow> bool \<Rightarrow> startup tmk_result" where
  "configure env os rest =
     tmk_bind (options env os startup_start) (\<lambda>su.
       if rest then Inl (Errexit ''Tmk_startup: invalid argument'')
       else tmk_bind (hosts env su) (\<lambda>su.
         tmk_bind (processes su) (\<lambda>su.
           if \<not> env_host_ok env then Inl (Errexit ''Tmk_startup: please change your host list'')
           else Inr (licence env su))))"

section \<open>Page geometry\<close>

text \<open>\<^verbatim>\<open>for (i = 1 << page_shift; i < Tmk_page_size; i <<= 1) page_shift++\<close>; \<open>None\<close> if it never ends.\<close>

partial_function (option) log_loop :: "u32 \<Rightarrow> u32 \<Rightarrow> u32 \<Rightarrow> u32 option" where
  "log_loop sz i shift = (if i < sz then log_loop sz (push_bit 1 i) (shift + 1) else Some shift)"

definition page_geometry :: "u32 \<Rightarrow> u32 \<Rightarrow> (u32 \<times> u32) option" where
  "page_geometry pagesize shift =
     (let sz = push_bit (unat shift) pagesize
      in map_option (Pair sz) (log_loop sz (push_bit (unat shift) 1) shift))"

section \<open>Initialisation\<close>

text \<open>The zeroed globals of all components.  \<^verbatim>\<open>Tmk_interval_initialize\<close> and \<^verbatim>\<open>Tmk_diff_initialize\<close> get the first chunks of their heaps.\<close>

definition zero_req :: req_arrival where
  "zero_req = \<lparr>rq_seqno = 0, rq_from = 0, rq_id = 0, rq_vector_time = (\<lambda>_. 0), rq_repo = False, rq_data = []\<rparr>"

definition zero_cond :: cond where
  "zero_cond = \<lparr>waitq_head = None, waitq_tail = None, signal_vector_time = (\<lambda>_. 0)\<rparr>"

definition zero_lock :: lock where
  "zero_lock = \<lparr>lk_manager = 0, lk_tail = 0, lk_held = False, lk_next = 0, lk_release_seqno = 0, lk_time = 0, lk_cond = (\<lambda>_. zero_cond)\<rparr>"

definition zero_waitq :: waitq_entry where
  "zero_waitq = \<lparr>we_next = None, we_req = \<lparr>rq_seqno = 0, rq_from = 0, rq_id = 0, rq_vector_time = (\<lambda>_. 0), rq_id2 = 0\<rparr>, we_queued = False\<rparr>"

definition zero_enode :: "nat \<Rightarrow> nat \<Rightarrow> nat \<Rightarrow> nat \<Rightarrow> (u32 \<Rightarrow> u8) \<Rightarrow> enode" where
  "zero_enode pid np sz pages m =
     cnode.extend (bnode.extend (snode.extend (rnode.extend (lnode.extend (node.extend (zero_node pid np sz pages)
       (lnode.fields (\<lambda>_. zero_lock) (\<lambda>_ _. 0) (\<lambda>_. 0) (\<lambda>_. zero_waitq) 0 (\<lambda>_. 0)))
       (rnode.fields 0)) (snode.fields (\<lambda>_. 0) (\<lambda>_. zero_req) (\<lambda>_. 0) 0))
       (bnode.fields (\<lambda>_. \<lparr>br_manager = 0, br_mask = 0\<rparr>) False)) (cnode.fields (\<lambda>_. \<lparr>sc_manager = 0, sc_mask = 0\<rparr>) False 0 []))
       (enode.fields m False 0)"

definition Tmk_initialize :: "bool \<Rightarrow> 'a cnode_scheme \<Rightarrow> 'a cnode_scheme" where
  "Tmk_initialize valid n =
     Tmk_sigio_initialize (Tmk_sched_initialize (Tmk_lock_initialize (Tmk_barrier_initialize (Tmk_page_initialize valid n))))"

definition start_node :: "startup \<Rightarrow> u32 \<Rightarrow> (u32 \<Rightarrow> u8) \<Rightarrow> enode" where
  "start_node su sz m = Tmk_initialize (su_init_to_valid su)
     (zero_enode (unat (su_proc_id su)) (unat (su_nprocs su)) (unat sz) (unat (su_npages su)) m)"

section \<open>Limits\<close>

lemma add_host_limit: "add_host h hs = Inr hs' \<Longrightarrow> length hs' \<le> NPROCS \<and> hs' = hs @ [h]"
  by (auto simp: add_host_def split: if_splits)

definition within_limits :: "startup \<Rightarrow> bool" where
  "within_limits su \<longleftrightarrow> su_nprocs su \<le> of_nat NPROCS \<and> su_npages su \<le> of_nat NPAGES \<and> su_page_shift su \<le> 3 \<and>
     length (su_hosts su) \<le> NPROCS"

lemma option_step_limits:
  assumes "option_step env c a su = Inr su'" "within_limits su"
  shows "within_limits su'"
  using assms
  by (auto simp: option_step_def within_limits_def get_display_def tmk_bind_Inr_iff Let_def not_less
      dest: add_host_limit split: if_splits)

lemma options_limits: "options env os su = Inr su' \<Longrightarrow> within_limits su \<Longrightarrow> within_limits su'"
  by (induction env os su rule: options.induct) (auto simp: tmk_bind_Inr_iff dest: option_step_limits)

lemma read_hosts_limit:
  "read_hosts j ws hs = Inr hs' \<Longrightarrow> length hs \<le> NPROCS \<Longrightarrow> length hs' \<le> NPROCS"
  by (induction j ws hs rule: read_hosts.induct) (auto simp: tmk_bind_Inr_iff dest!: add_host_limit split: if_splits)

lemma configure_parts:
  assumes "configure env os rest = Inr su"
  obtains s3 where "su = licence env s3" "within_limits s3" "unat (su_nprocs s3) \<le> length (su_hosts s3)" "su_nprocs s3 = 0 \<Longrightarrow> su_hosts s3 = []"
proof -
  from assms obtain s1 s2 s3 where s: "options env os startup_start = Inr s1" "hosts env s1 = Inr s2" "processes s2 = Inr s3" "su = licence env s3"
    by (auto simp: configure_def tmk_bind_Inr_iff split: if_splits)
  have "within_limits startup_start" by (simp add: within_limits_def startup_start_def)
  from options_limits [OF s(1) this] have 1: "within_limits s1" .
  have 2: "within_limits s2"
    using s(2) 1 by (auto simp: hosts_def within_limits_def tmk_bind_Inr_iff dest!: read_hosts_limit split: if_splits option.splits)
  have none: "su_hosts s2 = []" if "(of_nat (length (su_hosts s2)) :: u32) = 0"
  proof -
    have "length (su_hosts s2) < 2 ^ LENGTH(32)" using 2 by (simp add: within_limits_def)
    from unat_of_nat_small [OF this] that show ?thesis by simp
  qed
  have "within_limits s3 \<and> unat (su_nprocs s3) \<le> length (su_hosts s3) \<and> (su_nprocs s3 = 0 \<longrightarrow> su_hosts s3 = [])"
    using s(3) 2 by (auto simp: processes_def within_limits_def Let_def word_le_nat_alt none split: if_splits)
  with s(4) show ?thesis using that by blast
qed

lemma configure_within: "configure env os rest = Inr su \<Longrightarrow> within_limits su"
  by (erule configure_parts) (auto simp: licence_def within_limits_def Let_def)


lemma configure_npages: "configure env os rest = Inr su \<Longrightarrow> unat (su_npages su) \<le> NPAGES"
  by (drule configure_within) (simp add: within_limits_def word_le_nat_alt)

definition demo_env :: environment where
  "demo_env = \<lparr>env_debugger = False, env_display = False, env_hosts = (\<lambda>_. Some [''uno'', ''dos'', ''tres'']), env_host_ok = True,
     env_time = 900000000, env_TIMESTAMP = 890000000, env_pagesize = 4096, env_vadr = (\<lambda>_. 0x50000000)\<rparr>"

lemma demo_configure:
  "configure demo_env [(CHR ''n'', ''2''), (CHR ''P'', ''64'')] False =
     Inr (startup_start\<lparr>su_nprocs := 2, su_npages := 64, su_hosts := [''uno'', ''dos'']\<rparr>)"
proof -
  have "atoi ''2'' = 2" "atoi ''64'' = 64" by code_simp+
  then show ?thesis
    by (simp add: configure_def option_step_def startup_start_def demo_env_def hosts_def add_host_def processes_def licence_def Let_def)
qed


text \<open>With an empty list of hosts and no \<^verbatim>\<open>-n\<close> the program starts with no process at all, although \<^verbatim>\<open>-n0\<close> is refused.\<close>

lemma startup_no_host:
  "configure (demo_env\<lparr>env_hosts := (\<lambda>_. Some [])\<rparr>) [] False = Inr startup_start"
  by (simp add: configure_def startup_start_def demo_env_def hosts_def processes_def licence_def Let_def)

text \<open>A file with more than \<^verbatim>\<open>NPROCS\<close> hosts is written behind the end of \<^verbatim>\<open>Tmk_hostlist\<close> before their number is checked.\<close>

lemma read_hosts_overflow:
  "NPROCS < j \<Longrightarrow> length hs \<le> NPROCS \<Longrightarrow> NPROCS < length ws + length hs \<Longrightarrow> read_hosts j ws hs = Inl Wild_access"
  by (induction j ws hs rule: read_hosts.induct) (auto simp: add_host_def)

lemma startup_too_many_hosts:
  "env_hosts env None = Some ws \<Longrightarrow> NPROCS < length ws \<Longrightarrow> configure env [] False = Inl Wild_access"
  by (simp add: configure_def startup_start_def hosts_def read_hosts_overflow)

section \<open>Page sizes\<close>

lemma unat_pow2: "j < 32 \<Longrightarrow> unat (2 ^ j :: u32) = 2 ^ j"
proof -
  assume "j < 32"
  then have "(2 :: nat) ^ j < 2 ^ LENGTH(32)" by (intro power_strict_increasing) simp_all
  from unat_of_nat_small [OF this] show ?thesis by simp
qed

lemma log_loop_pow:
  assumes "j \<le> m" "m < 31"
  shows "log_loop (2 ^ m) (2 ^ j) s = Some (s + of_nat (m - j))"
  using assms
proof (induction "m - j" arbitrary: j s)
  case 0
  then show ?case by (subst log_loop.simps) simp
next
  case (Suc d)
  have lt: "(2 :: u32) ^ j < 2 ^ m" using Suc(2-4) by (simp add: word_less_nat_alt unat_pow2)
  have "log_loop (2 ^ m) (2 ^ Suc j) (s + 1) = Some (s + 1 + of_nat (m - Suc j))" by (rule Suc(1)) (use Suc(2-4) in simp_all)
  moreover have "push_bit 1 (2 ^ j :: u32) = 2 ^ Suc j" by (simp add: push_bit_eq_mult)
  moreover have "m - j = Suc (m - Suc j)" using Suc(2) by simp
  ultimately show ?case using lt by (subst log_loop.simps) (simp add: add.assoc mult.commute)
qed

text \<open>
  Whatever power of two the size of a system page is, the loop of \<^verbatim>\<open>Tmk_page_initialize\<close> ends and leaves \<^verbatim>\<open>page_shift\<close> the logarithm
  of \<^verbatim>\<open>Tmk_page_size\<close>, which fault handling relies on, for all page sizes below 2^31 bytes.
\<close>

theorem page_geometry_log:
  assumes "k + unat s < 31"
  shows "page_geometry (2 ^ k) s = Some (2 ^ (k + unat s), of_nat (k + unat s))"
proof -
  have p: "push_bit (unat s) (2 ^ k :: u32) = 2 ^ (k + unat s)" "push_bit (unat s) (1 :: u32) = 2 ^ unat s"
    by (simp_all add: push_bit_eq_mult power_add mult.commute)
  have "log_loop (2 ^ (k + unat s)) (2 ^ unat s) s = Some (s + of_nat (k + unat s - unat s))"
    by (rule log_loop_pow) (use assms in simp_all)
  then show ?thesis unfolding page_geometry_def p Let_def by (simp add: add.commute)
qed

theorem page_geometry_log_witness: "page_geometry 4096 1 = Some (8192, 13)"
proof -
  have "12 + unat (1 :: u32) < 31" by simp
  from page_geometry_log [OF this] show ?thesis by simp
qed

section \<open>The first state\<close>

lemma zero_enode_fields:
  fixes pid np sz pages m
  defines "n \<equiv> zero_enode pid np sz pages m"
  shows "node.truncate n = zero_node pid np sz pages" "proc_id n = pid" "nprocs n = np" "npages n = pages" "page_size n = sz"
    "lock_array n = (\<lambda>_. zero_lock)" "sigio_buffer_tos n = 0" "barrier_array n = (\<lambda>_. \<lparr>br_manager = 0, br_mask = 0\<rparr>)"
    "sched_array n = (\<lambda>_. \<lparr>sc_manager = 0, sc_mask = 0\<rparr>)" "repo_mask n = 0" "exit_flag n = False" "req_seqno n = 0"
  unfolding n_def by (simp_all add: zero_enode_def zero_node_def node.defs lnode.defs rnode.defs snode.defs bnode.defs cnode.defs enode.defs)

lemmas initialize_defs = Tmk_initialize_def Tmk_sigio_initialize_def Tmk_sched_initialize_def Tmk_lock_initialize_def
  Tmk_barrier_initialize_def

lemma page_initialize_truncate: "node.truncate (Tmk_page_initialize valid n) = Tmk_page_initialize valid (node.truncate n)"
  by (cases n rule: node.cases_scheme) (simp add: Tmk_page_initialize_def node.defs Let_def cong: if_cong)

lemma truncate_node: "node.truncate (n :: node) = n"
  by (cases n) (simp add: node.defs)

lemma initialize_truncate: "node.truncate (Tmk_initialize valid n) = Tmk_page_initialize valid (node.truncate n)"
  by (simp add: initialize_defs flip: page_initialize_truncate) (simp add: node.defs)

lemma initialize_fields:
  "proc_id (Tmk_initialize valid n) = proc_id n" "nprocs (Tmk_initialize valid n) = nprocs n"
  "npages (Tmk_initialize valid n) = npages n" "page_size (Tmk_initialize valid n) = page_size n"
  "sigio_buffer_tos (Tmk_initialize valid n) = sigio_buffer_tos n"
  by (simp_all add: initialize_defs Tmk_page_initialize_def Let_def)



end
