(* ===== verification/Tmk_Connect.thy ===== *)
theory Tmk_Connect
  imports Tmk_Startup
begin

text \<open>
  How the processes of a run find each other: \<^verbatim>\<open>Tmk/src/open_udp.c\<close> and the end of \<^verbatim>\<open>Tmk_startup\<close>.  Process 0 starts the others one
  by one and gives each the ports it needs on its command line; every pair of processes then connects in both directions,
  each connection request carrying the ports of its sender.
\<close>

section \<open>Connections\<close>

text \<open>\<^verbatim>\<open>Tmk_port_\<close>: at the entry of processes \<open>j\<close> and \<open>k\<close> the port at which \<open>j\<close> listens to \<open>k\<close>.\<close>

record pnode = enode +
  Tmk_port :: "nat \<Rightarrow> nat \<Rightarrow> u32"

text \<open>\<^verbatim>\<open>Tmk_accept_initialize\<close> for the ports the kernel gives the sockets of a process.\<close>

definition Tmk_accept_initialize :: "nat \<Rightarrow> u32 \<Rightarrow> 'a pnode_scheme \<Rightarrow> 'a pnode_scheme" where
  "Tmk_accept_initialize i port n = n\<lparr>Tmk_port := (Tmk_port n)(proc_id n := (Tmk_port n (proc_id n))(i := port))\<rparr>"

definition Tmk_connect_initialize :: "'a pnode_scheme \<Rightarrow> 'a pnode_scheme" where
  "Tmk_connect_initialize n = n\<lparr>req_seqno := of_nat (proc_id n)\<rparr>"

text \<open>\<^verbatim>\<open>Tmk_connect\<close> sends its sequence number and its row of ports to the port at which process \<open>i\<close> listens to it, and waits for the answer.\<close>

record req_con =
  cn_port :: u32
  cn_seqno :: u32
  cn_row :: "nat \<Rightarrow> u32"

definition connect_send :: "nat \<Rightarrow> 'a pnode_scheme \<Rightarrow> req_con \<times> 'a pnode_scheme" where
  "connect_send i n =
     (let n = n\<lparr>req_seqno := req_seqno n + SEQNO_INCR\<rparr>
      in (\<lparr>cn_port = Tmk_port n i (proc_id n), cn_seqno = req_seqno n, cn_row = Tmk_port n (proc_id n)\<rparr>, n))"

definition connect_wait :: "(unit, unit) recv_event list \<Rightarrow> 'a pnode_scheme \<Rightarrow> (unit, unit) answer" where
  "connect_wait es n = recv_loop ''<recv>Tmk_connect'' (req_seqno n) es []"

definition Tmk_accept :: "nat \<Rightarrow> req_con \<Rightarrow> 'a pnode_scheme \<Rightarrow> u32 \<times> 'a pnode_scheme" where
  "Tmk_accept i req n =
     (cn_seqno req,
      n\<lparr>Tmk_port := (Tmk_port n)(i := (\<lambda>k. if k < NPROCS then cn_row req k else Tmk_port n i k)),
        rep_seqno := (rep_seqno n)(i := cn_seqno req)\<rparr>)"

section \<open>Starting the processes\<close>

text \<open>
  The order of the loops at the end of \<^verbatim>\<open>Tmk_startup\<close>; only process 0 starts others.  \<^verbatim>\<open>start_process\<close> puts \<^verbatim>\<open>-p\<close> options with
  the ports at which the processes before \<open>i\<close> listen to \<open>i\<close> on the command line, which sets them in the new process.
\<close>

datatype action = Start nat | Connect nat | Accept nat

definition startup_actions :: "nat \<Rightarrow> nat \<Rightarrow> action list" where
  "startup_actions np p =
     concat (map (\<lambda>i. [Connect i, Accept i]) [0..<p]) @
     concat (map (\<lambda>i. (if p = 0 then [Start i] else []) @ [Accept i, Connect i]) [p + 1..<np])"

definition start_ports :: "nat \<Rightarrow> (nat \<Rightarrow> nat \<Rightarrow> u32) \<Rightarrow> nat \<Rightarrow> nat \<Rightarrow> u32" where
  "start_ports i tab j k = (if j < i \<and> k = i then tab j i else 0)"

text \<open>The sockets of a process get their ports before it does anything else.\<close>

definition listen_all :: "nat \<Rightarrow> (nat \<Rightarrow> u32) \<Rightarrow> 'a pnode_scheme \<Rightarrow> 'a pnode_scheme" where
  "listen_all np sock n = Tmk_connect_initialize
     (fold (\<lambda>i n. if i = proc_id n then n else Tmk_accept_initialize i (sock i) n) [0..<np] n)"

text \<open>
  A run of the whole system: the processes, what each still has to do, and which are started.  A connection and its acceptance
  happen together: \<^verbatim>\<open>Tmk_connect\<close> repeats the request until the answer of \<^verbatim>\<open>Tmk_accept\<close> arrives.  It needs the right port, since a request to
  any other is not seen by the process.  \<open>np\<close> is the number of processes, \<open>sock j k\<close> the port of the socket of \<open>j\<close> for \<open>k\<close> and \<open>ini\<close>
  the processes after their initialisation.
\<close>

record boot =
  bt_node :: "nat \<Rightarrow> pnode"
  bt_todo :: "nat \<Rightarrow> action list"
  bt_started :: "nat \<Rightarrow> bool"

definition boot_process :: "nat \<Rightarrow> (nat \<Rightarrow> nat \<Rightarrow> u32) \<Rightarrow> (nat \<Rightarrow> pnode) \<Rightarrow> (nat \<Rightarrow> nat \<Rightarrow> u32) \<Rightarrow> nat \<Rightarrow> boot \<Rightarrow> boot" where
  "boot_process np sock ini tab i b =
     b\<lparr>bt_node := (bt_node b)(i := listen_all np (sock i) ((ini i)\<lparr>Tmk_port := tab\<rparr>)),
       bt_todo := (bt_todo b)(i := startup_actions np i), bt_started := (bt_started b)(i := True)\<rparr>"

definition boot_start :: "nat \<Rightarrow> (nat \<Rightarrow> nat \<Rightarrow> u32) \<Rightarrow> (nat \<Rightarrow> pnode) \<Rightarrow> boot" where
  "boot_start np sock ini =
     boot_process np sock ini (\<lambda>_ _. 0) 0 \<lparr>bt_node = ini, bt_todo = (\<lambda>_. []), bt_started = (\<lambda>_. False)\<rparr>"

definition meet :: "nat \<Rightarrow> nat \<Rightarrow> boot \<Rightarrow> boot" where
  "meet p q b =
     (case connect_send q (bt_node b p) of (req, n) \<Rightarrow>
        b\<lparr>bt_node := (bt_node b)(p := n, q := snd (Tmk_accept p req (bt_node b q))),
          bt_todo := (bt_todo b)(p := tl (bt_todo b p), q := tl (bt_todo b q))\<rparr>)"

inductive boot_step :: "nat \<Rightarrow> (nat \<Rightarrow> nat \<Rightarrow> u32) \<Rightarrow> (nat \<Rightarrow> pnode) \<Rightarrow> boot \<Rightarrow> boot \<Rightarrow> bool" for np sock ini where
  Starting: "bt_todo b 0 = Start i # as \<Longrightarrow>
    boot_step np sock ini b
      (boot_process np sock ini (start_ports i (Tmk_port (bt_node b 0))) i (b\<lparr>bt_todo := (bt_todo b)(0 := as)\<rparr>))"
| Meeting: "bt_todo b p = Connect q # as \<Longrightarrow> bt_todo b q = Accept p # bs \<Longrightarrow>
    cn_port (fst (connect_send q (bt_node b p))) = sock q p \<Longrightarrow> boot_step np sock ini b (meet p q b)"

inductive booting :: "nat \<Rightarrow> (nat \<Rightarrow> nat \<Rightarrow> u32) \<Rightarrow> (nat \<Rightarrow> pnode) \<Rightarrow> boot \<Rightarrow> bool" for np sock ini where
  Boot: "booting np sock ini (boot_start np sock ini)"
| Step: "booting np sock ini b \<Longrightarrow> boot_step np sock ini b b' \<Longrightarrow> booting np sock ini b'"

definition boot_done :: "nat \<Rightarrow> boot \<Rightarrow> bool" where
  "boot_done np b \<longleftrightarrow> list_all (\<lambda>p. bt_started b p \<and> bt_todo b p = []) [0..<np]"

section \<open>Sequences of actions\<close>

text \<open>
  What a process has to do is a sequence of sections, one per partner.  The first action of the sequence is the first one of its
  section, the sections before are done, and doing the action takes it from its section only.
\<close>

lemma concat_first:
  assumes "concat (map f xs) = a # as" "\<And>y. y \<in> set xs \<Longrightarrow> a \<in> set (f y) \<Longrightarrow> y = x" "distinct xs" "sorted xs"
  shows "\<exists>bs. x \<in> set xs \<and> f x = a # bs \<and> (\<forall>y \<in> set xs. y < x \<longrightarrow> f y = []) \<and>
    (\<forall>g. (\<forall>y. y \<noteq> x \<longrightarrow> g y = f y) \<and> g x = bs \<longrightarrow> concat (map g xs) = as)"
  using assms
proof (induction xs)
  case (Cons z zs)
  show ?case
  proof (cases "f z = []")
    case True
    have "concat (map f zs) = a # as" using Cons.prems(1) True by simp
    moreover have "y = x" if "y \<in> set zs" "a \<in> set (f y)" for y using Cons.prems(2) [of y] that by simp
    moreover have "distinct zs" "sorted zs" using Cons.prems(3,4) by simp_all
    ultimately obtain bs where bs: "x \<in> set zs" "f x = a # bs" "\<forall>y \<in> set zs. y < x \<longrightarrow> f y = []"
      "\<forall>g. (\<forall>y. y \<noteq> x \<longrightarrow> g y = f y) \<and> g x = bs \<longrightarrow> concat (map g zs) = as"
      using Cons.IH by blast
    have "z \<noteq> x" using bs(1) Cons.prems(3) by auto
    then show ?thesis using bs True by (intro exI [of _ bs]) simp
  next
    case False
    then obtain bs where bs: "f z = a # bs" "as = bs @ concat (map f zs)" using Cons.prems(1) by (cases "f z") auto
    have z: "z = x" by (rule Cons.prems(2)) (simp_all add: bs)
    have "concat (map g (z # zs)) = as" if "\<forall>y. y \<noteq> x \<longrightarrow> g y = f y" "g x = bs" for g
    proof -
      have "map g zs = map f zs" using that(1) Cons.prems(3) z by (intro map_cong) auto
      then show ?thesis unfolding bs(2) z that(2) [symmetric] by (simp only: list.map concat.simps)
    qed
    moreover have "\<not> y < x" if "y \<in> set (z # zs)" for y using that Cons.prems(4) z by auto
    ultimately show ?thesis using z bs(1) by (intro exI [of _ bs]) (simp del: concat.simps list.map)
  qed
qed simp

text \<open>Of the section that is first undone, its first action is the first of the sequence.\<close>

lemma concat_head:
  assumes "sorted xs" "x \<in> set xs" "f x = a # bs" "\<And>y. y \<in> set xs \<Longrightarrow> y < x \<Longrightarrow> f y = []"
  shows "\<exists>as. concat (map f xs) = a # as"
  using assms
proof (induction xs)
  case (Cons z zs)
  show ?case
  proof (cases "z = x")
    case True
    with Cons.prems show ?thesis by simp
  next
    case False
    with Cons.prems(1,2) have x: "x \<in> set zs" "z < x" by (auto simp: order.strict_iff_order)
    then have "f z = []" using Cons.prems(4) by simp
    moreover have "\<exists>as. concat (map f zs) = a # as"
      by (rule Cons.IH) (use Cons.prems x in simp_all)
    ultimately show ?thesis by simp
  qed
qed simp

section \<open>Sessions\<close>

text \<open>
  The session of two processes has three phases: nothing done, the later one connected to the earlier one, and both connected.
\<close>

definition partners :: "nat \<Rightarrow> nat \<Rightarrow> nat list" where
  "partners np p = filter (\<lambda>r. r \<noteq> p) [0..<np]"

definition session :: "(nat \<Rightarrow> bool) \<Rightarrow> (nat set \<Rightarrow> nat) \<Rightarrow> nat \<Rightarrow> nat \<Rightarrow> action list" where
  "session started ph p r =
     (if r < p then (if ph {p, r} = 0 then [Connect r, Accept r] else if ph {p, r} = 1 then [Accept r] else [])
      else if ph {p, r} = 0 then (if p = 0 \<and> \<not> started r then [Start r] else []) @ [Accept r, Connect r]
      else if ph {p, r} = 1 then [Connect r] else [])"

lemma partners_props [simp]: "sorted (partners np p)" "distinct (partners np p)" "set (partners np p) = {r. r < np \<and> r \<noteq> p}"
  by (auto simp: partners_def sorted_wrt_filter)

lemma partners_split: "p < np \<Longrightarrow> partners np p = [0..<p] @ [p + 1..<np]"
proof -
  assume p: "p < np"
  then have "[0..<np] = [0..<p] @ p # [p + 1..<np]" using upt_add_eq_append [of 0 p "np - p"] upt_conv_Cons [OF p] by simp
  then show ?thesis by (simp add: partners_def)
qed

lemma startup_actions_sessions:
  assumes "p < np" "\<And>r. ph {p, r} = 0" "\<And>r. \<not> (p = 0 \<and> started r \<and> r \<noteq> 0)"
  shows "startup_actions np p = concat (map (session started ph p) (partners np p))"
proof -
  have "concat (map (\<lambda>i. [Connect i, Accept i]) [0..<p]) = concat (map (session started ph p) [0..<p])"
    by (intro arg_cong [where f = concat] map_cong) (auto simp: session_def assms(2))
  moreover have "concat (map (\<lambda>i. (if p = 0 then [Start i] else []) @ [Accept i, Connect i]) [p + 1..<np]) =
      concat (map (session started ph p) [p + 1..<np])"
    using assms(3) by (intro arg_cong [where f = concat] map_cong) (auto simp: session_def assms(2))
  ultimately show ?thesis using assms(1) by (simp add: startup_actions_def partners_split)
qed

lemma session_owner: "a \<in> set (session started ph p r) \<Longrightarrow> a \<in> {Start r, Connect r, Accept r}"
  by (auto simp: session_def split: if_splits)

section \<open>The invariant\<close>

fun is_connect :: "action \<Rightarrow> bool" where
  "is_connect (Connect i) = True"
| "is_connect a = False"

definition ports_ok :: "nat \<Rightarrow> (nat \<Rightarrow> nat \<Rightarrow> u32) \<Rightarrow> nat \<Rightarrow> (nat \<Rightarrow> u32) \<Rightarrow> bool" where
  "ports_ok np sock p row \<longleftrightarrow> (\<forall>k < np. k \<noteq> p \<longrightarrow> row k = sock p k)"

definition known :: "nat \<Rightarrow> pnode \<Rightarrow> pnode \<Rightarrow> bool" where
  "known p n m \<longleftrightarrow> NPROCS \<le> unat (rep_seqno m p) \<and> rep_seqno m p \<le> req_seqno n"

definition process_inv :: "nat \<Rightarrow> (nat \<Rightarrow> nat \<Rightarrow> u32) \<Rightarrow> nat \<Rightarrow> pnode \<Rightarrow> action list \<Rightarrow> bool" where
  "process_inv np sock p n todo \<longleftrightarrow> proc_id n = p \<and> ports_ok np sock p (Tmk_port n p) \<and> (\<forall>r < p. Tmk_port n r p = sock r p) \<and>
     unat (req_seqno n) + NPROCS * length (filter is_connect todo) = p + NPROCS * (np - 1)"

definition boot_inv :: "nat \<Rightarrow> (nat \<Rightarrow> nat \<Rightarrow> u32) \<Rightarrow> boot \<Rightarrow> (nat set \<Rightarrow> nat) \<Rightarrow> bool" where
  "boot_inv np sock b ph \<longleftrightarrow> bt_started b 0 \<and>
     (\<forall>p. bt_todo b p = (if p < np \<and> bt_started b p then concat (map (session (bt_started b) ph p) (partners np p)) else [])) \<and>
     (\<forall>p q. \<not> bt_started b p \<longrightarrow> ph {p, q} = 0) \<and>
     (\<forall>p < np. bt_started b p \<longrightarrow> process_inv np sock p (bt_node b p) (bt_todo b p)) \<and>
     (\<forall>p q. p < q \<and> q < np \<and> ph {p, q} \<noteq> 0 \<longrightarrow>
        ports_ok np sock q (Tmk_port (bt_node b p) q) \<and> known q (bt_node b q) (bt_node b p)) \<and>
     (\<forall>p q. p < q \<and> q < np \<and> 1 < ph {p, q} \<longrightarrow> known p (bt_node b p) (bt_node b q))"

lemma listen_all_fields:
  fixes n :: "'a pnode_scheme"
  assumes "proc_id n = p"
  shows "proc_id (listen_all np sock n) = p" "req_seqno (listen_all np sock n) = of_nat p" "rep_seqno (listen_all np sock n) = rep_seqno n"
    "Tmk_port (listen_all np sock n) = (Tmk_port n)(p := (\<lambda>k. if k < np \<and> k \<noteq> p then sock k else Tmk_port n p k))"
proof -
  let ?f = "\<lambda>k. fold (\<lambda>i n. if i = proc_id n then n else Tmk_accept_initialize i (sock i) n) [0..<k] n"
  have "proc_id (?f k) = p \<and> rep_seqno (?f k) = rep_seqno n \<and>
      Tmk_port (?f k) = (Tmk_port n)(p := (\<lambda>i. if i < k \<and> i \<noteq> p then sock i else Tmk_port n p i))" for k
    by (induction k) (use assms in \<open>auto simp: Tmk_accept_initialize_def fun_eq_iff less_Suc_eq\<close>)
  then show "proc_id (listen_all np sock n) = p" "req_seqno (listen_all np sock n) = of_nat p" "rep_seqno (listen_all np sock n) = rep_seqno n"
    "Tmk_port (listen_all np sock n) = (Tmk_port n)(p := (\<lambda>k. if k < np \<and> k \<noteq> p then sock k else Tmk_port n p k))"
    by (simp_all add: listen_all_def Tmk_connect_initialize_def)
qed

lemma startup_actions_connects: "p < np \<Longrightarrow> length (filter is_connect (startup_actions np p)) = np - 1"
proof -
  have 1: "length (filter is_connect (concat (map (\<lambda>i. [Connect i, Accept i]) xs))) = length xs" for xs by (induction xs) auto
  have 2: "length (filter is_connect (concat (map (\<lambda>i. (if p = 0 then [Start i] else []) @ [Accept i, Connect i]) xs))) = length xs" for xs
    by (induction xs) auto
  show "p < np \<Longrightarrow> ?thesis" by (simp add: startup_actions_def 1 2)
qed

lemma listen_process_inv:
  assumes "proc_id n = p" "p < np" "np \<le> NPROCS" "\<And>r. r < p \<Longrightarrow> Tmk_port n r p = sock r p"
  shows "process_inv np sock p (listen_all np (sock p) n) (startup_actions np p)"
proof -
  have "unat (of_nat p :: u32) = p" using assms(2,3) by (intro unat_of_nat_small) simp
  then show ?thesis
    using assms by (auto simp: process_inv_def listen_all_fields [OF assms(1)] ports_ok_def startup_actions_connects)
qed

lemma boot_invD:
  assumes "boot_inv np sock b ph"
  shows "bt_started b 0"
    "bt_todo b p = (if p < np \<and> bt_started b p then concat (map (session (bt_started b) ph p) (partners np p)) else [])"
    "\<not> bt_started b p \<Longrightarrow> ph {p, q} = 0"
    "p < np \<Longrightarrow> bt_started b p \<Longrightarrow> process_inv np sock p (bt_node b p) (bt_todo b p)"
    "p < q \<Longrightarrow> q < np \<Longrightarrow> ph {p, q} \<noteq> 0 \<Longrightarrow> ports_ok np sock q (Tmk_port (bt_node b p) q) \<and> known q (bt_node b q) (bt_node b p)"
    "p < q \<Longrightarrow> q < np \<Longrightarrow> 1 < ph {p, q} \<Longrightarrow> known p (bt_node b p) (bt_node b q)"
  using assms unfolding boot_inv_def by blast+

lemma boot_start_inv:
  assumes "0 < np" "np \<le> NPROCS" "proc_id (ini 0) = 0"
  shows "boot_inv np sock (boot_start np sock ini) (\<lambda>_. 0)"
proof -
  let ?s = "(\<lambda>_. False)(0 := True)"
  have "startup_actions np 0 = concat (map (session ?s (\<lambda>_. 0) 0) (partners np 0))"
    by (rule startup_actions_sessions) (use assms in auto)
  moreover have "process_inv np sock 0 (listen_all np (sock 0) ((ini 0)\<lparr>Tmk_port := \<lambda>_ _. 0\<rparr>)) (startup_actions np 0)"
    by (rule listen_process_inv) (use assms in auto)
  ultimately show ?thesis using assms(1) by (auto simp: boot_inv_def boot_start_def boot_process_def)
qed

text \<open>The next action of a process.\<close>

lemma next_action:
  assumes inv: "boot_inv np sock b ph" and todo: "bt_todo b p = a # as" and a: "a \<in> {Start r, Connect r, Accept r}"
  shows "p < np \<and> bt_started b p \<and> r < np \<and> r \<noteq> p \<and>
    (\<exists>bs. session (bt_started b) ph p r = a # bs \<and> (\<forall>y. y < r \<and> y \<noteq> p \<longrightarrow> session (bt_started b) ph p y = []) \<and>
      (\<forall>g. (\<forall>y. y \<noteq> r \<longrightarrow> g y = session (bt_started b) ph p y) \<and> g r = bs \<longrightarrow> concat (map g (partners np p)) = as))"
proof -
  have p: "p < np" "bt_started b p" "concat (map (session (bt_started b) ph p) (partners np p)) = a # as"
    using boot_invD(2) [OF inv, of p] todo by (auto split: if_splits)
  have "\<exists>bs. r \<in> set (partners np p) \<and> session (bt_started b) ph p r = a # bs \<and>
     (\<forall>y \<in> set (partners np p). y < r \<longrightarrow> session (bt_started b) ph p y = []) \<and>
     (\<forall>g. (\<forall>y. y \<noteq> r \<longrightarrow> g y = session (bt_started b) ph p y) \<and> g r = bs \<longrightarrow> concat (map g (partners np p)) = as)"
    by (rule concat_first [OF p(3)]) (use a in \<open>auto dest!: session_owner\<close>)
  then obtain bs where bs: "r \<in> set (partners np p)" "session (bt_started b) ph p r = a # bs"
     "\<forall>y \<in> set (partners np p). y < r \<longrightarrow> session (bt_started b) ph p y = []"
     "\<forall>g. (\<forall>y. y \<noteq> r \<longrightarrow> g y = session (bt_started b) ph p y) \<and> g r = bs \<longrightarrow> concat (map g (partners np p)) = as"
    by (elim exE conjE) (rule that)
  have r: "r < np" "r \<noteq> p" using bs(1) by simp_all
  moreover have "\<forall>y. y < r \<and> y \<noteq> p \<longrightarrow> session (bt_started b) ph p y = []" using bs(3) r(1) by simp
  ultimately show ?thesis using p(1,2) bs(2,4) by (intro conjI exI [of _ bs])
qed

lemma session_other_start: "p \<noteq> 0 \<Longrightarrow> session s ph p = session s' ph p"
  by (rule ext) (simp add: session_def)

lemma starting_inv:
  assumes inv: "boot_inv np sock b ph" and np: "np \<le> NPROCS" and ini: "\<And>i. i < np \<Longrightarrow> proc_id (ini i) = i"
    and todo: "bt_todo b 0 = Start i # as"
  shows "boot_inv np sock (boot_process np sock ini (start_ports i (Tmk_port (bt_node b 0))) i (b\<lparr>bt_todo := (bt_todo b)(0 := as)\<rparr>)) ph"
    and "i < np" and "i \<noteq> 0" and "\<not> bt_started b i"
proof -
  have "Start i \<in> {Start i, Connect i, Accept i}" by simp
  from next_action [OF inv todo this] obtain bs where n: "0 < np" "i < np" "i \<noteq> 0" "session (bt_started b) ph 0 i = Start i # bs"
    "\<forall>y. y < i \<and> y \<noteq> 0 \<longrightarrow> session (bt_started b) ph 0 y = []"
    "\<forall>g. (\<forall>y. y \<noteq> i \<longrightarrow> g y = session (bt_started b) ph 0 y) \<and> g i = bs \<longrightarrow> concat (map g (partners np 0)) = as"
    by (elim conjE exE) (rule that)
  have i: "\<not> bt_started b i" "bs = [Accept i, Connect i]" "ph {0, i} = 0" using n(4) by (auto simp: session_def split: if_splits)
  then show "i < np" "i \<noteq> 0" "\<not> bt_started b i" using n by simp_all
  let ?s = "(bt_started b)(i := True)" and ?tab = "start_ports i (Tmk_port (bt_node b 0))"
  let ?b = "boot_process np sock ini ?tab i (b\<lparr>bt_todo := (bt_todo b)(0 := as)\<rparr>)"
  have ph0: "ph {i, r} = 0" "ph {r, i} = 0" for r using boot_invD(3) [OF inv i(1), of r] by (simp_all add: insert_commute)
  have todo0: "concat (map (session ?s ph 0) (partners np 0)) = as"
    by (rule n(6) [rule_format]) (use i n(3) in \<open>auto simp: session_def\<close>)
  have todo_i: "startup_actions np i = concat (map (session ?s ph i) (partners np i))"
    by (rule startup_actions_sessions) (use n ph0 in auto)
  have T: "bt_todo ?b p = (if p < np \<and> ?s p then concat (map (session ?s ph p) (partners np p)) else [])" for p
    using n(1,2,3) todo0 todo_i boot_invD(1,2) [OF inv] session_other_start [of p ?s ph "bt_started b"]
    by (cases "p = 0"; cases "p = i") (simp_all add: boot_process_def)
  have port: "Tmk_port (bt_node b 0) r i = sock r i" if "r < i" for r
  proof (cases "r = 0")
    case True
    then show ?thesis using boot_invD(1) [OF inv] boot_invD(4) [OF inv n(1)] n by (simp add: process_inv_def ports_ok_def)
  next
    case False
    then have "ph {0, r} \<noteq> 0" using n(5) that by (auto simp: session_def split: if_splits)
    with False that n(2) boot_invD(5) [OF inv, of 0 r] show ?thesis by (simp add: ports_ok_def)
  qed
  have P: "process_inv np sock p (bt_node ?b p) (bt_todo ?b p)" if "p < np" "?s p" for p
  proof (cases "p = i")
    case True
    have "process_inv np sock i (listen_all np (sock i) ((ini i)\<lparr>Tmk_port := ?tab\<rparr>)) (startup_actions np i)"
      by (rule listen_process_inv) (use ini n np port in \<open>simp_all add: start_ports_def\<close>)
    then show ?thesis using True by (simp add: boot_process_def)
  next
    case False
    then show ?thesis using boot_invD(4) [OF inv that(1)] that todo by (cases "p = 0") (simp_all add: boot_process_def process_inv_def)
  qed
  have N: "bt_node ?b p = bt_node b p" if "ph {p, q} \<noteq> 0" for p q
    using that ph0 by (cases "p = i") (simp_all add: boot_process_def)
  have N': "bt_node ?b q = bt_node b q" if "ph {p, q} \<noteq> 0" for p q
    using that ph0 by (cases "q = i") (simp_all add: boot_process_def)
  have s: "bt_started ?b = ?s" by (simp add: boot_process_def)
  show "boot_inv np sock ?b ph"
    unfolding boot_inv_def s
  proof (intro conjI allI impI)
    show "?s 0" using boot_invD(1) [OF inv] by simp
    show "ph {p, q} = 0" if "\<not> ?s p" for p q using that boot_invD(3) [OF inv] by (cases "p = i") simp_all
    show "process_inv np sock p (bt_node ?b p) (bt_todo ?b p)" if "p < np" "?s p" for p using P that .
  next
    fix p q assume *: "p < q \<and> q < np \<and> ph {p, q} \<noteq> 0"
    then show "ports_ok np sock q (Tmk_port (bt_node ?b p) q)" "known q (bt_node ?b q) (bt_node ?b p)"
      using boot_invD(5) [OF inv, of p q] N [of p q] N' [of p q] by simp_all
  next
    fix p q assume *: "p < q \<and> q < np \<and> 1 < ph {p, q}"
    then show "known p (bt_node ?b p) (bt_node ?b q)"
      using boot_invD(6) [OF inv, of p q] N [of p q] N' [of p q] by simp
  qed (rule T)
qed

lemma meet_fields:
  assumes "p \<noteq> q" "proc_id (bt_node b p) = p"
  shows "req_seqno (bt_node (meet p q b) k) = (if k = p then req_seqno (bt_node b p) + SEQNO_INCR else req_seqno (bt_node b k))"
    "rep_seqno (bt_node (meet p q b) k) r = (if k = q \<and> r = p then req_seqno (bt_node b p) + SEQNO_INCR else rep_seqno (bt_node b k) r)"
    "Tmk_port (bt_node (meet p q b) k) r j =
       (if k = q \<and> r = p \<and> j < NPROCS then Tmk_port (bt_node b p) p j else Tmk_port (bt_node b k) r j)"
    "proc_id (bt_node (meet p q b) k) = proc_id (bt_node b k)" "bt_started (meet p q b) = bt_started b"
    "bt_todo (meet p q b) k = (if k = p \<or> k = q then tl (bt_todo b k) else bt_todo b k)"
  using assms by (simp_all add: meet_def connect_send_def Tmk_accept_def Let_def)

text \<open>A session is in the same phase for both when they meet, and moves to the next one.\<close>

lemma meeting_phase:
  assumes "session s ph p q = Connect q # bs" "session s ph q p = Accept p # cs" "p \<noteq> q" "s p"
  shows "q < p \<and> ph {p, q} = 0 \<and> bs = [Accept q] \<and> cs = [Connect p] \<or> p < q \<and> ph {p, q} = 1 \<and> bs = [] \<and> cs = []"
  using assms by (auto simp: session_def insert_commute split: if_splits)

lemma session_next:
  assumes "session s ph p q = Connect q # bs" "session s ph q p = Accept p # cs" "p \<noteq> q" "s p"
  defines "ph' \<equiv> ph({p, q} := Suc (ph {p, q}))"
  shows "session s ph' p q = bs" "session s ph' q p = cs"
    "{k, r} \<noteq> {p, q} \<Longrightarrow> session s ph' k r = session s ph k r"
  using meeting_phase [OF assms(1-4)] assms(3,4) unfolding ph'_def session_def by (auto simp: insert_commute)

lemma meeting_inv:
  assumes inv: "boot_inv np sock b ph" and np: "np \<le> NPROCS"
    and todo: "bt_todo b p = Connect q # as" "bt_todo b q = Accept p # bs"
  shows "boot_inv np sock (meet p q b) (ph({p, q} := Suc (ph {p, q})))"
proof -
  let ?b = "meet p q b" and ?ph = "ph({p, q} := Suc (ph {p, q}))" and ?s = "bt_started b"
  have "Connect q \<in> {Start q, Connect q, Accept q}" by simp
  from next_action [OF inv todo(1) this] obtain cs where n: "p < np" "?s p" "q < np" "q \<noteq> p" "session ?s ph p q = Connect q # cs"
    "\<forall>g. (\<forall>y. y \<noteq> q \<longrightarrow> g y = session ?s ph p y) \<and> g q = cs \<longrightarrow> concat (map g (partners np p)) = as"
    by (elim conjE exE) (rule that)
  have "Accept p \<in> {Start p, Connect p, Accept p}" by simp
  from next_action [OF inv todo(2) this] obtain ds where m: "?s q" "session ?s ph q p = Accept p # ds"
    "\<forall>g. (\<forall>y. y \<noteq> p \<longrightarrow> g y = session ?s ph q y) \<and> g p = ds \<longrightarrow> concat (map g (partners np q)) = bs"
    by (elim conjE exE) (rule that)
  have pq: "p \<noteq> q" using n(4) by simp
  note phase = meeting_phase [OF n(5) m(2) pq n(2)] and nxt = session_next [OF n(5) m(2) pq n(2)]
  have proc: "process_inv np sock k (bt_node b k) (bt_todo b k)" if "k < np" "?s k" for k by (rule boot_invD(4) [OF inv that])
  note P = proc [OF n(1,2)] and fields = meet_fields [OF pq, of b]
  have pid: "proc_id (bt_node b p) = p" using P by (simp add: process_inv_def)
  have count: "unat (req_seqno (bt_node b p)) + NPROCS * length (filter is_connect as) + NPROCS = p + NPROCS * (np - 1)"
    using P todo(1) by (simp add: process_inv_def)
  have "unat (req_seqno (bt_node b p)) + 32 < 2 ^ 32" using count n(1) np by simp
  then have req: "unat (req_seqno (bt_node b p) + SEQNO_INCR) = unat (req_seqno (bt_node b p)) + NPROCS" by (simp add: unat_word_ariths)
  have le: "req_seqno (bt_node b k) \<le> req_seqno (bt_node ?b k)" for k
    using req by (simp add: fields(1) [OF pid] word_le_nat_alt)
  have T: "bt_todo ?b k = (if k < np \<and> ?s k then concat (map (session ?s ?ph k) (partners np k)) else [])" for k
  proof -
    have "concat (map (session ?s ?ph p) (partners np p)) = as"
      by (rule n(6) [rule_format]) (use nxt pq in \<open>auto simp: doubleton_eq_iff\<close>)
    moreover have "concat (map (session ?s ?ph q) (partners np q)) = bs"
      by (rule m(3) [rule_format]) (use nxt pq in \<open>auto simp: doubleton_eq_iff\<close>)
    moreover have "session ?s ?ph k = session ?s ph k" if "k \<noteq> p" "k \<noteq> q"
      by (rule ext, rule nxt(3)) (use that in \<open>auto simp: doubleton_eq_iff\<close>)
    moreover have "bt_todo ?b p = as" "bt_todo ?b q = bs" "k \<noteq> p \<Longrightarrow> k \<noteq> q \<Longrightarrow> bt_todo ?b k = bt_todo b k"
      using todo by (simp_all add: fields(6) [OF pid])
    ultimately show ?thesis
      using n(1-3) m(1) boot_invD(2) [OF inv, of k] by (cases "k = p \<or> k = q") auto
  qed
  have Q: "process_inv np sock k (bt_node ?b k) (bt_todo ?b k)" if "k < np" "?s k" for k
  proof -
    have "unat (req_seqno (bt_node ?b k)) + NPROCS * length (filter is_connect (bt_todo ?b k)) = k + NPROCS * (np - 1)"
      using proc [OF that] count req todo pq by (cases "k = p"; cases "k = q") (simp_all add: fields [OF pid] process_inv_def)
    moreover have "ports_ok np sock k (Tmk_port (bt_node ?b k) k)"
      using proc [OF that] pq by (simp add: ports_ok_def fields(3) [OF pid] process_inv_def)
    moreover have "Tmk_port (bt_node ?b k) r k = sock r k" if "r < k" for r
      using proc [OF \<open>k < np\<close> \<open>?s k\<close>] P that n(3) by (auto simp: fields(3) [OF pid] process_inv_def ports_ok_def)
    ultimately show ?thesis using proc [OF that] unfolding process_inv_def fields(4) [OF pid] by blast
  qed
  have rows: "ports_ok np sock v (Tmk_port (bt_node ?b u) v)" if "ports_ok np sock v (Tmk_port (bt_node b u) v) \<or> v = p \<and> u = q" for u v
    using that P np by (auto simp: ports_ok_def fields(3) [OF pid] process_inv_def)
  have nums: "known v (bt_node ?b v) (bt_node ?b u)" if "known v (bt_node b v) (bt_node b u) \<or> v = p \<and> u = q" for u v
  proof (cases "v = p \<and> u = q")
    case True
    then show ?thesis using req by (simp add: known_def fields(1,2) [OF pid])
  next
    case False
    then show ?thesis using that le [of v] unfolding known_def fields(2) [OF pid] by auto
  qed
  show ?thesis
    unfolding boot_inv_def fields(5) [OF pid]
  proof (intro conjI allI impI)
    show "?s 0" by (rule boot_invD(1) [OF inv])
    show "?ph {k, r} = 0" if "\<not> ?s k" for k r
      using boot_invD(3) [OF inv that, of r] that n(2) m(1) by (auto simp: doubleton_eq_iff)
    show "process_inv np sock k (bt_node ?b k) (bt_todo ?b k)" if "k < np" "?s k" for k by (rule Q [OF that])
  next
    fix u v assume uv: "u < v \<and> v < np \<and> ?ph {u, v} \<noteq> 0"
    have *: "ph {u, v} \<noteq> 0 \<or> v = p \<and> u = q" using uv phase by (auto simp: doubleton_eq_iff insert_commute split: if_splits)
    show "ports_ok np sock v (Tmk_port (bt_node ?b u) v)" by (rule rows) (use * uv boot_invD(5) [OF inv, of u v] in blast)
    show "known v (bt_node ?b v) (bt_node ?b u)" by (rule nums) (use * uv boot_invD(5) [OF inv, of u v] in blast)
  next
    fix u v assume uv: "u < v \<and> v < np \<and> 1 < ?ph {u, v}"
    have *: "1 < ph {u, v} \<or> u = p \<and> v = q" using uv phase by (auto simp: doubleton_eq_iff insert_commute split: if_splits)
    show "known u (bt_node ?b u) (bt_node ?b v)" by (rule nums) (use * uv boot_invD(6) [OF inv, of u v] in blast)
  qed (rule T)
qed

lemma booting_inv:
  assumes "booting np sock ini b" "0 < np" "np \<le> NPROCS" "\<And>i. i < np \<Longrightarrow> proc_id (ini i) = i"
  shows "\<exists>ph. boot_inv np sock b ph"
  using assms(1)
proof induction
  case Boot
  show ?case by (rule exI, rule boot_start_inv [of np ini, OF assms(2,3) assms(4) [OF assms(2)]])
next
  case (Step b b')
  then obtain ph where inv: "boot_inv np sock b ph" by blast
  from Step(2) show ?case
  proof cases
    case (Starting i as)
    show ?thesis unfolding Starting(1) by (rule exI, rule starting_inv(1) [OF inv assms(3) assms(4) Starting(2)])
  next
    case (Meeting p q as bs)
    show ?thesis unfolding Meeting(1) by (rule exI, rule meeting_inv [OF inv assms(3) Meeting(2,3)])
  qed
qed

section \<open>Progress\<close>

text \<open>What is left to do; a process that is not started has everything to do.\<close>

definition boot_left :: "nat \<Rightarrow> boot \<Rightarrow> nat" where
  "boot_left np b = (\<Sum>p<np. if bt_started b p then length (bt_todo b p) else 2 * (np - 1))"

lemma length_startup_actions: "i \<noteq> 0 \<Longrightarrow> i < np \<Longrightarrow> length (startup_actions np i) = 2 * (np - 1)"
proof -
  have "length (concat (map (\<lambda>i. [Connect i, Accept i]) xs)) = 2 * length xs" "length (concat (map (\<lambda>i. [Accept i, Connect i]) xs)) = 2 * length xs" for xs
    by (induction xs) auto
  then show "i \<noteq> 0 \<Longrightarrow> i < np \<Longrightarrow> ?thesis" by (simp add: startup_actions_def)
qed

lemma boot_step_decreases:
  assumes inv: "boot_inv np sock b ph" and np: "np \<le> NPROCS" "\<And>i. i < np \<Longrightarrow> proc_id (ini i) = i" and step: "boot_step np sock ini b b'"
  shows "boot_left np b' < boot_left np b"
  using step
proof cases
  case (Starting i as)
  note i = starting_inv(2,3,4) [OF inv np Starting(2)]
  show ?thesis
    unfolding boot_left_def
  proof (rule sum_strict_mono_ex1)
    show "\<forall>p \<in> {..<np}. (if bt_started b' p then length (bt_todo b' p) else 2 * (np - 1)) \<le> (if bt_started b p then length (bt_todo b p) else 2 * (np - 1))"
      using i length_startup_actions [OF i(2,1)] Starting(2) by (auto simp: Starting(1) boot_process_def)
    show "\<exists>p \<in> {..<np}. (if bt_started b' p then length (bt_todo b' p) else 2 * (np - 1)) < (if bt_started b p then length (bt_todo b p) else 2 * (np - 1))"
      using i Starting(2) boot_invD(1) [OF inv] by (intro bexI [of _ 0]) (auto simp: Starting(1) boot_process_def)
  qed simp
next
  case (Meeting p q as bs)
  have p: "p < np" "bt_started b p" "proc_id (bt_node b p) = p"
    using boot_invD(2) [OF inv, of p] boot_invD(4) [OF inv, of p] Meeting(2) by (auto simp: process_inv_def split: if_splits)
  have pq: "p \<noteq> q" using Meeting(2,3) by auto
  note fields = meet_fields(5,6) [OF pq p(3)]
  show ?thesis
    unfolding boot_left_def
  proof (rule sum_strict_mono_ex1)
    show "\<forall>k \<in> {..<np}. (if bt_started b' k then length (bt_todo b' k) else 2 * (np - 1)) \<le> (if bt_started b k then length (bt_todo b k) else 2 * (np - 1))"
      by (simp add: Meeting(1) fields)
    show "\<exists>k \<in> {..<np}. (if bt_started b' k then length (bt_todo b' k) else 2 * (np - 1)) < (if bt_started b k then length (bt_todo b k) else 2 * (np - 1))"
      using p Meeting(2) by (intro bexI [of _ p]) (simp_all add: Meeting(1) fields)
  qed simp
qed

lemma session_Nil: "session s ph p r = [] \<Longrightarrow> 1 < ph {p, r}"
  by (auto simp: session_def split: if_splits)

lemma session_done: "1 < ph {p, r} \<Longrightarrow> session s ph p r = []"
  by (simp add: session_def)

lemma process_done:
  assumes "boot_inv np sock b ph" "p < np" "bt_started b p" "bt_todo b p = []" "r < np" "r \<noteq> p"
  shows "1 < ph {p, r}"
proof -
  have "concat (map (session (bt_started b) ph p) (partners np p)) = []" using boot_invD(2) [OF assms(1), of p] assms by simp
  then have "session (bt_started b) ph p r = []" using assms(5,6) by simp
  then show ?thesis by (rule session_Nil)
qed

lemma first_action:
  assumes "boot_inv np sock b ph" "p < np" "bt_started b p" "r < np" "r \<noteq> p" "session (bt_started b) ph p r = a # bs"
    "\<And>y. y < r \<Longrightarrow> y \<noteq> p \<Longrightarrow> 1 < ph {p, y}"
  shows "\<exists>as. bt_todo b p = a # as"
proof -
  have "\<exists>as. concat (map (session (bt_started b) ph p) (partners np p)) = a # as"
    by (rule concat_head [where x = r]) (use assms in \<open>auto intro: session_done\<close>)
  then show ?thesis using boot_invD(2) [OF assms(1), of p] assms(2,3) by simp
qed

lemma boot_progress:
  assumes inv: "boot_inv np sock b ph" and np: "0 < np" and open_end: "\<not> boot_done np b"
  shows "\<exists>b'. boot_step np sock ini b b'"
proof -
  let ?s = "bt_started b"
  have started: "?s p" if "bt_todo b 0 = []" "p < np" for p
    using process_done [OF inv np boot_invD(1) [OF inv] that(1), of p] boot_invD(1) [OF inv] boot_invD(3) [OF inv, of p 0] that(2)
    by (cases "p = 0") (auto simp: insert_commute)
  have "\<exists>p. p < np \<and> bt_todo b p \<noteq> []"
    using open_end started np by (auto simp: boot_done_def list_all_iff)
  then obtain k where k: "k < np" "bt_todo b k \<noteq> []" "\<And>y. y < k \<Longrightarrow> bt_todo b y = []"
    using exists_least_iff [of "\<lambda>p. p < np \<and> bt_todo b p \<noteq> []"] by (metis less_trans)
  have sk: "?s k" using k(1,2) boot_invD(2) [OF inv, of k] by (simp split: if_splits)
  have all: "?s p" if "0 < k" "p < np" for p using started [OF k(3) [OF that(1)] that(2)] .
  have before: "1 < ph {y, r}" if "y < k" "r < np" "r \<noteq> y" for y r
    using process_done [OF inv _ _ k(3) [OF that(1)] that(2,3)] all that k(1) by simp
  have "\<exists>r. r < np \<and> r \<noteq> k \<and> session ?s ph k r \<noteq> []"
    using k(1,2) sk boot_invD(2) [OF inv, of k] by auto
  then obtain r where r: "r < np" "r \<noteq> k" "session ?s ph k r \<noteq> []" and least: "\<forall>y < r. \<not> (y < np \<and> y \<noteq> k \<and> session ?s ph k y \<noteq> [])"
    unfolding exists_least_iff [of "\<lambda>r. r < np \<and> r \<noteq> k \<and> session ?s ph k r \<noteq> []"] by (elim exE conjE) (rule that)
  have done_k: "session ?s ph k y = []" if "y < r" "y \<noteq> k" for y using least that order.strict_trans [OF that(1) r(1)] by blast
  have kr: "k < r" using before [of r k] session_done [of ph k r] r k(1) by (cases r k rule: linorder_cases) (auto simp: insert_commute)
  have first_k: "\<exists>as. bt_todo b k = a # as" if "session ?s ph k r = a # bs" for a bs
    by (rule first_action [OF inv k(1) sk r(1,2) that]) (rule session_Nil, rule done_k)
  have first_r: "\<exists>as. bt_todo b r = a # as" if "session ?s ph r k = a # bs" "?s r" for a bs
  proof (rule first_action [OF inv r(1) that(2) k(1) _ that(1)])
    show "k \<noteq> r" using r(2) by simp
    show "1 < ph {r, y}" if "y < k" "y \<noteq> r" for y using before [OF that(1) r(1)] that(2) by (simp add: insert_commute)
  qed
  have inv_r: "process_inv np sock r (bt_node b r) (bt_todo b r)" if "?s r" by (rule boot_invD(4) [OF inv r(1) that])
  have inv_k: "proc_id (bt_node b k) = k" using boot_invD(4) [OF inv k(1) sk] by (simp add: process_inv_def)
  consider (start) "k = 0" "\<not> ?s r" | (zero) "?s r" "ph {k, r} = 0" | (one) "?s r" "ph {k, r} = 1"
    using all [of r] r(1,3) session_done [of ph k r ?s] by (cases "k = 0"; cases "?s r"; fastforce)
  then show ?thesis
  proof cases
    case start
    then have "session ?s ph k r = [Start r, Accept r, Connect r]"
      using kr boot_invD(3) [OF inv start(2), of k] by (simp add: session_def insert_commute)
    from first_k [OF this] start(1) obtain as where "bt_todo b 0 = Start r # as" by blast
    from boot_step.Starting [OF this] show ?thesis by blast
  next
    case zero
    have "session ?s ph k r = [Accept r, Connect r]" "session ?s ph r k = [Connect k, Accept k]"
      using kr zero by (auto simp: session_def insert_commute)
    from first_k [OF this(1)] first_r [OF this(2) zero(1)] obtain as bs where "bt_todo b r = Connect k # as" "bt_todo b k = Accept r # bs" by blast
    moreover have "cn_port (fst (connect_send k (bt_node b r))) = sock k r"
      using inv_r [OF zero(1)] kr by (simp add: connect_send_def process_inv_def Let_def)
    ultimately show ?thesis using boot_step.Meeting by blast
  next
    case one
    have "session ?s ph k r = [Connect r]" "session ?s ph r k = [Accept k]" using kr one by (auto simp: session_def insert_commute)
    from first_k [OF this(1)] first_r [OF this(2) one(1)] obtain as bs where "bt_todo b k = Connect r # as" "bt_todo b r = Accept k # bs" by blast
    moreover have "cn_port (fst (connect_send r (bt_node b k))) = sock r k"
      using boot_invD(5) [OF inv kr r(1)] one(2) inv_k kr k(1) by (simp add: connect_send_def ports_ok_def Let_def)
    ultimately show ?thesis using boot_step.Meeting by blast
  qed
qed

text \<open>So every start can be completed.\<close>

lemma boot_completes:
  assumes "booting np sock ini b" "0 < np" "np \<le> NPROCS" "\<And>i. i < np \<Longrightarrow> proc_id (ini i) = i"
  shows "\<exists>b'. booting np sock ini b' \<and> boot_done np b'"
  using assms(1)
proof (induction "boot_left np b" arbitrary: b rule: less_induct)
  case less
  obtain ph where inv: "boot_inv np sock b ph" using booting_inv [OF less(2) assms(2-4)] by blast
  show ?case
  proof (cases "boot_done np b")
    case True
    with less(2) show ?thesis by (intro exI [of _ b]) simp
  next
    case False
    obtain b' where b': "boot_step np sock ini b b'" using boot_progress [OF inv assms(2) False] by blast
    show ?thesis
      by (rule less(1) [OF boot_step_decreases [OF inv assms(3,4) b'] booting.Step [OF less(2) b']])
  qed
qed

text \<open>Two processes, for the witnesses.\<close>

definition demo_ini :: "nat \<Rightarrow> pnode" where
  "demo_ini i = enode.extend (exit_demo\<lparr>proc_id := i\<rparr>) (pnode.fields (\<lambda>_ _. 0))"

lemma demo_ini_proc_id: "proc_id (demo_ini i) = i"
  by (simp add: demo_ini_def enode.defs)

text \<open>
  C33: The start of a run cannot get stuck: in every state that the processes can reach, either all are started and connected, or one
  can be started, or two of them can connect, at the port where the other listens; and each of these steps leaves less to do, so
  that a run of \<open>np\<close> processes is connected after at most \<open>(2 * np + 1) * (np - 1)\<close> steps.
\<close>

theorem startup_connects:
  assumes "booting np sock ini b" "0 < np" "np \<le> NPROCS" "\<forall>i < np. proc_id (ini i) = i"
  shows "(boot_done np b \<or> (\<exists>b'. boot_step np sock ini b b')) \<and>
    (\<forall>b'. boot_step np sock ini b b' \<longrightarrow> boot_left np b' < boot_left np b) \<and>
    boot_left np (boot_start np sock ini) = (2 * np + 1) * (np - 1)"
proof -
  obtain ph where inv: "boot_inv np sock b ph" using booting_inv [OF assms(1-3)] assms(4) by blast
  have "boot_left np (boot_start np sock ini) = (2 * np + 1) * (np - 1)"
  proof -
    obtain k where k: "np = Suc k" using assms(2) gr0_implies_Suc by blast
    have "{..<np} = insert 0 {1..<np}" using assms(2) by auto
    moreover have "length (startup_actions np 0) = 3 * (np - 1)"
    proof -
      have "length (concat (map (\<lambda>i. [Start i, Accept i, Connect i]) xs)) = 3 * length xs" for xs by (induction xs) auto
      then show ?thesis by (simp add: startup_actions_def)
    qed
    ultimately show ?thesis by (simp add: boot_left_def boot_start_def boot_process_def k algebra_simps)
  qed
  then show ?thesis
    using boot_progress [OF inv assms(2)] boot_step_decreases [OF inv assms(3)] assms(4) by blast
qed

theorem startup_connects_witness:
  "\<exists>b'. boot_step 2 (\<lambda>j k. of_nat (1024 + 32 * j + k)) demo_ini (boot_start 2 (\<lambda>j k. of_nat (1024 + 32 * j + k)) demo_ini) b'"
proof -
  let ?sock = "\<lambda>j k. of_nat (1024 + 32 * j + k)"
  have "\<not> boot_done 2 (boot_start 2 ?sock demo_ini)" by (simp add: boot_done_def boot_start_def boot_process_def upt_rec)
  then show ?thesis using startup_connects [OF booting.Boot, of 2 demo_ini ?sock] demo_ini_proc_id by simp
qed

text \<open>
  C34: When all are connected, every process has recorded a sequence number of every other, at least \<^verbatim>\<open>NPROCS\<close> and not above the last one
  the other has used; so the first request of any process to any other is new there, and the sequence numbers of different processes
  differ.
\<close>

theorem startup_seqnos:
  assumes "booting np sock ini b" "np \<le> NPROCS" "\<forall>i < np. proc_id (ini i) = i" "boot_done np b" "p < np" "q < np" "p \<noteq> q"
  shows "NPROCS \<le> unat (rep_seqno (bt_node b q) p) \<and>
    rep_seqno (bt_node b q) p < req_seqno (bt_node b p) + SEQNO_INCR \<and>
    unat (req_seqno (bt_node b p)) mod NPROCS = p \<and>
    (\<forall>r. request_from r = p \<longrightarrow> request_seqno r = req_seqno (bt_node b p) + SEQNO_INCR \<longrightarrow> is_new r (bt_node b q))"
proof -
  have np: "0 < np" using assms(5) by simp
  obtain ph where inv: "boot_inv np sock b ph" using booting_inv [OF assms(1) np assms(2)] assms(3) by blast
  have fin: "bt_started b k" "bt_todo b k = []" if "k < np" for k using assms(4) that by (simp_all add: boot_done_def list_all_iff)
  have num: "unat (req_seqno (bt_node b p)) = p + NPROCS * (np - 1)"
    using boot_invD(4) [OF inv assms(5) fin(1) [OF assms(5)]] fin(2) [OF assms(5)] by (simp add: process_inv_def)
  have "1 < ph {p, q}" by (rule process_done [OF inv assms(5) fin [OF assms(5)] assms(6)]) (use assms(7) in simp)
  then have known: "known p (bt_node b p) (bt_node b q)"
    using boot_invD(5) [OF inv, of q p] boot_invD(6) [OF inv, of p q] assms(5-7)
    by (cases p q rule: linorder_cases) (auto simp: insert_commute)
  have "unat (req_seqno (bt_node b p) + SEQNO_INCR) = unat (req_seqno (bt_node b p)) + 32"
    using num assms(2,5) by (simp add: unat_word_ariths)
  then have new: "rep_seqno (bt_node b q) p < req_seqno (bt_node b p) + SEQNO_INCR"
    using known by (simp add: known_def word_le_nat_alt word_less_nat_alt)
  show ?thesis
  proof (intro conjI allI impI)
    show "NPROCS \<le> unat (rep_seqno (bt_node b q) p)" using known by (simp add: known_def)
    show "unat (req_seqno (bt_node b p)) mod NPROCS = p" using num assms(2,5) by simp
    show "is_new r (bt_node b q)" if "request_from r = p" "request_seqno r = req_seqno (bt_node b p) + SEQNO_INCR" for r
      using that new by (simp add: is_new_def)
  qed (rule new)
qed

theorem startup_seqnos_witness:
  "\<exists>b. boot_done 2 b \<and> NPROCS \<le> unat (rep_seqno (bt_node b 0) 1) \<and>
     is_new (Req_repo (req_seqno (bt_node b 1) + SEQNO_INCR) 1) (bt_node b 0)"
proof -
  let ?sock = "\<lambda>j k. of_nat (1024 + 32 * j + k)"
  obtain b where b: "booting 2 ?sock demo_ini b" "boot_done 2 b"
    using boot_completes [OF booting.Boot, of 2 demo_ini ?sock] demo_ini_proc_id by auto
  have *: "\<forall>i < 2. proc_id (demo_ini i) = i" by (simp add: demo_ini_proc_id)
  have "NPROCS \<le> unat (rep_seqno (bt_node b 0) 1) \<and> is_new (Req_repo (req_seqno (bt_node b 1) + SEQNO_INCR) 1) (bt_node b 0)"
    using startup_seqnos [OF b(1) _ * b(2), of 1 0] by simp
  with b(2) show ?thesis by blast
qed

end
