(* ===== verification/Suma.thy ===== *)
theory Suma
  imports Main "HOL-Library.Multiset"
begin

text \<open>
  The parallel sum \<^verbatim>\<open>codigo/suma_tmk.c\<close>, a program on top of TreadMarks: the processes print their parts of a shared array
  in turn and add up its elements.  Between two barriers the processes run in any order; what they do to the shared data is
  taken to be atomic, which the lock ensures for the sum.
\<close>

section \<open>The program\<close>

abbreviation (input) DIM :: nat where "DIM \<equiv> 100"

text \<open>\<^verbatim>\<open>Info\<close>, and what has been printed: the elements with their indices.\<close>

record info =
  info_sum :: int
  turn :: nat
  info_array :: "int list"
  printed :: "(nat \<times> int) list"

definition coordinador :: info where
  "coordinador = \<lparr>info_sum = 0, turn = 0, info_array = map (\<lambda>i. int i + 1) [0..<DIM], printed = []\<rparr>"

definition start_of :: "nat \<Rightarrow> nat \<Rightarrow> nat" where
  "start_of np i = i * (DIM div np) + i * (DIM mod np) div np"

text \<open>\<open>end\<close> of process \<open>i\<close> is the same expression for \<^verbatim>\<open>id1\<close>.\<close>

definition end_of :: "nat \<Rightarrow> nat \<Rightarrow> nat" where
  "end_of np i = (i + 1) * (DIM div np) + (i + 1) * (DIM mod np) div np"

text \<open>One round of the printing loop, in which the processes come in the order \<open>ps\<close>, up to the barrier.\<close>

definition imprime :: "nat \<Rightarrow> nat \<Rightarrow> info \<Rightarrow> info" where
  "imprime np p s =
     (if turn s = p
      then s\<lparr>printed := printed s @ map (\<lambda>i. (i, info_array s ! i)) [start_of np p..<end_of np p], turn := turn s + 1\<rparr>
      else s)"

definition ronda :: "nat \<Rightarrow> nat list \<Rightarrow> info \<Rightarrow> info" where
  "ronda np ps s = fold (imprime np) ps s"

text \<open>The local sum, added to the global one under the lock.\<close>

definition my_sum :: "nat \<Rightarrow> nat \<Rightarrow> info \<Rightarrow> int" where
  "my_sum np p s = sum_list (map (\<lambda>i. info_array s ! i) [start_of np p..<end_of np p])"

definition suma :: "nat \<Rightarrow> nat \<Rightarrow> info \<Rightarrow> info" where
  "suma np p s = s\<lparr>info_sum := info_sum s + my_sum np p s\<rparr>"

text \<open>A run of \<open>np\<close> processes: the orders in the rounds, and the order in which they get the lock.\<close>

definition run :: "nat \<Rightarrow> nat list list \<Rightarrow> nat list \<Rightarrow> info" where
  "run np rounds locks = fold (suma np) locks (fold (ronda np) rounds coordinador)"

section \<open>The parts of the array\<close>

lemma end_start: "end_of np i = start_of np (i + 1)"
  by (simp add: start_of_def end_of_def)

lemma start_0: "start_of np 0 = 0"
  by (simp add: start_of_def)

lemma start_np: "0 < np \<Longrightarrow> start_of np np = DIM"
  by (simp add: start_of_def)

lemma start_mono: "i \<le> j \<Longrightarrow> start_of np i \<le> start_of np j"
  unfolding start_of_def by (intro add_le_mono mult_le_mono1 div_le_mono)

text \<open>The parts of the first processes are the beginning of the array.\<close>

lemma parts_prefix: "concat (map (\<lambda>p. [start_of np p..<end_of np p]) [0..<k]) = [0..<start_of np k]"
proof (induction k)
  case 0
  then show ?case by (simp add: start_0)
next
  case (Suc k)
  have "[0..<start_of np (Suc k)] = [0..<start_of np k] @ [start_of np k..<start_of np (Suc k)]"
    using upt_add_eq_append [of 0 "start_of np k" "start_of np (Suc k) - start_of np k"] start_mono [of k "Suc k" np] by simp
  then show ?case using Suc by (simp add: end_start)
qed

section \<open>Printing in turn\<close>

definition printed_ok :: "nat \<Rightarrow> nat \<Rightarrow> info \<Rightarrow> bool" where
  "printed_ok np k s \<longleftrightarrow> turn s \<le> np \<and> k \<le> turn s \<and> info_array s = info_array coordinador \<and> info_sum s = 0 \<and>
     printed s = map (\<lambda>i. (i, info_array coordinador ! i)) [0..<start_of np (turn s)]"

lemma imprime_ok:
  assumes "printed_ok np k s" "p < np"
  shows "printed_ok np k (imprime np p s)" "turn s \<le> turn (imprime np p s)" "p = turn s \<Longrightarrow> turn (imprime np p s) = turn s + 1"
proof -
  have "[0..<start_of np (Suc p)] = [0..<start_of np p] @ [start_of np p..<start_of np (Suc p)]"
    using upt_add_eq_append [of 0 "start_of np p" "start_of np (Suc p) - start_of np p"] start_mono [of p "Suc p" np] by simp
  then show "printed_ok np k (imprime np p s)" using assms by (auto simp: printed_ok_def imprime_def end_start)
qed (simp_all add: imprime_def)

lemma fold_imprime:
  assumes "printed_ok np k s" "\<forall>p \<in> set ps. p < np"
  shows "printed_ok np k (fold (imprime np) ps s) \<and> turn s \<le> turn (fold (imprime np) ps s) \<and>
    (turn s \<in> set ps \<longrightarrow> turn s < turn (fold (imprime np) ps s))"
  using assms
proof (induction ps arbitrary: s)
  case (Cons p ps)
  note ok = imprime_ok [OF Cons.prems(1), of p]
  have "p < np" using Cons.prems(2) by simp
  note IH = Cons.IH [OF ok(1) [OF this]]
  show ?case using IH ok [OF \<open>p < np\<close>] Cons.prems(2) by (cases "p = turn s") (auto simp: imprime_def)
qed simp

lemma ronda_ok:
  assumes "printed_ok np k s" "set ps = {..<np}" "k < np"
  shows "printed_ok np (Suc k) (ronda np ps s)"
proof -
  have *: "\<forall>p \<in> set ps. p < np" using assms(2) by simp
  show ?thesis
    using fold_imprime [OF assms(1) *] assms by (cases "turn s < np") (auto simp: ronda_def printed_ok_def)
qed

lemma rondas_ok:
  assumes "\<forall>ps \<in> set rounds. set ps = {..<np}" "printed_ok np k s" "k + length rounds \<le> np"
  shows "printed_ok np (k + length rounds) (fold (ronda np) rounds s)"
  using assms
proof (induction rounds arbitrary: k s)
  case (Cons ps rounds)
  have "printed_ok np (Suc k) (ronda np ps s)" by (rule ronda_ok) (use Cons.prems in auto)
  from Cons.IH [OF _ this] show ?case using Cons.prems by simp
qed simp

lemma sum_list_concat_map: "sum_list (map (\<lambda>p. sum_list (map f (g p))) ps) = sum_list (map f (concat (map g ps)))"
  by (induction ps) simp_all

lemma fold_suma:
  "info_sum (fold (suma np) ps s) = info_sum s + sum_list (map (\<lambda>p. my_sum np p s) ps) \<and>
   printed (fold (suma np) ps s) = printed s"
proof (induction ps arbitrary: s)
  case (Cons p ps)
  have "my_sum np q (suma np p s) = my_sum np q s" for q by (simp add: my_sum_def suma_def)
  with Cons [of "suma np p s"] show ?case by (simp add: suma_def)
qed simp

text \<open>
  C38: For every number of processes, in whatever order they run between the barriers and get the lock, the program prints
  all elements of the array once, in their order, and computes the sum of the numbers from 1 to 100.
\<close>

theorem suma_correct:
  assumes "0 < np" "length rounds = np" "\<forall>ps \<in> set rounds. set ps = {..<np}" "mset locks = mset [0..<np]"
  shows "printed (run np rounds locks) = map (\<lambda>i. (i, int i + 1)) [0..<DIM] \<and> info_sum (run np rounds locks) = 5050"
proof
  let ?s = "fold (ronda np) rounds coordinador"
  have "printed_ok np 0 coordinador" by (simp add: printed_ok_def coordinador_def start_0)
  from rondas_ok [OF assms(3) this] have ok: "printed_ok np np ?s" using assms(2) by simp
  then have t: "turn ?s = np" "info_array ?s = info_array coordinador" "info_sum ?s = 0" by (auto simp: printed_ok_def)
  have "printed ?s = map (\<lambda>i. (i, info_array coordinador ! i)) [0..<DIM]" using ok t(1) start_np [OF assms(1)] by (simp add: printed_ok_def)
  also have "\<dots> = map (\<lambda>i. (i, int i + 1)) [0..<DIM]" by (rule map_cong) (simp_all add: coordinador_def)
  finally show "printed (run np rounds locks) = map (\<lambda>i. (i, int i + 1)) [0..<DIM]" by (simp add: run_def fold_suma)
  have "sum_list (map (\<lambda>p. my_sum np p ?s) locks) = sum_list (map (\<lambda>p. my_sum np p ?s) [0..<np])"
    by (metis assms(4) mset_map sum_mset_sum_list)
  also have "\<dots> = sum_list (map (\<lambda>i. info_array coordinador ! i) (concat (map (\<lambda>p. [start_of np p..<end_of np p]) [0..<np])))"
    by (simp only: my_sum_def t(2) sum_list_concat_map)
  also have "\<dots> = sum_list (map (\<lambda>i. info_array coordinador ! i) [0..<DIM])" unfolding parts_prefix start_np [OF assms(1)] ..
  also have "map (\<lambda>i. info_array coordinador ! i) [0..<DIM] = info_array coordinador"
    using map_nth [of "info_array coordinador"] by (simp add: coordinador_def)
  also have "sum_list (info_array coordinador) = 5050" by code_simp
  finally show "info_sum (run np rounds locks) = 5050" by (simp add: run_def fold_suma t(3))
qed

theorem suma_correct_witness:
  "info_sum (run 3 [[2, 0, 1], [0, 1, 2], [1, 2, 0]] [2, 0, 1]) = 5050 \<and>
   length (printed (run 3 [[2, 0, 1], [0, 1, 2], [1, 2, 0]] [2, 0, 1])) = 100"
proof -
  have "\<forall>ps \<in> set [[2, 0, 1], [0, 1, 2], [1, 2, 0 :: nat]]. set ps = {..<3}" by auto
  moreover have "mset [2, 0, 1 :: nat] = mset [0..<3]" by (simp add: upt_rec)
  ultimately have "printed (run 3 [[2, 0, 1], [0, 1, 2], [1, 2, 0]] [2, 0, 1]) = map (\<lambda>i. (i, int i + 1)) [0..<DIM] \<and>
      info_sum (run 3 [[2, 0, 1], [0, 1, 2], [1, 2, 0]] [2, 0, 1]) = 5050"
    by (intro suma_correct) simp_all
  then show ?thesis by (simp only: length_map length_upt) simp
qed

end
