(* ===== verification/Uber.thy ===== *)
theory Uber
  imports Main
begin

text \<open>
  The servers of the two remote procedure call exercises: \<^verbatim>\<open>Practica02/estructura_server.c\<close> (\<^verbatim>\<open>servidor.c\<close> is an earlier version
  of it) and \<^verbatim>\<open>Practica02_2/UBER_Servidor.c\<close>.  Both assign vehicles to passengers and keep accounts.

  Coordinates are integers.  Distances are the square roots of integers, computed in \<^verbatim>\<open>double\<close>: as long as the squares are below
  2^51 two of them compare as the squares do, and the integer part of their product with an integer is that of the
  exact number.  So distances are compared by their squares here, and truncated by an integer square root.
\<close>

section \<open>Distances\<close>

function isqrt_from :: "nat \<Rightarrow> nat \<Rightarrow> nat" where
  "isqrt_from n k = (if (k + 1) * (k + 1) \<le> n then isqrt_from n (k + 1) else k)"
  by pat_completeness auto
termination
  by (relation "measure (\<lambda>(n, k). n - k)") (auto intro: diff_less_mono2 dest: order_trans [rotated])

declare isqrt_from.simps [simp del]

definition isqrt :: "nat \<Rightarrow> nat" where "isqrt n = isqrt_from n 0"

definition dist2 :: "int \<times> int \<Rightarrow> int \<times> int \<Rightarrow> int" where
  "dist2 a b = (fst a - fst b) ^ 2 + (snd a - snd b) ^ 2"

text \<open>\<^verbatim>\<open>(int)(distance * c)\<close>: truncation towards zero.\<close>

definition dist_times :: "int \<Rightarrow> int \<Rightarrow> int" where
  "dist_times d2 c = sgn c * int (isqrt (nat (d2 * c * c)))"

lemma isqrt_from_bounds: "k * k \<le> n \<Longrightarrow> isqrt_from n k * isqrt_from n k \<le> n \<and> n < (isqrt_from n k + 1) * (isqrt_from n k + 1)"
proof (induction n k rule: isqrt_from.induct)
  case (1 n k)
  show ?case
  proof (cases "(k + 1) * (k + 1) \<le> n")
    case True
    with 1(1) [OF True True] show ?thesis by (subst (1 2 3 4) isqrt_from.simps) simp
  next
    case False
    with 1(2) show ?thesis by (subst (1 2 3 4) isqrt_from.simps) simp
  qed
qed

lemma isqrt_bounds: "isqrt n * isqrt n \<le> n" "n < (isqrt n + 1) * (isqrt n + 1)"
  using isqrt_from_bounds [of 0 n] by (simp_all add: isqrt_def)

section \<open>The server of the first exercise\<close>

record vehiculo =
  disponible :: bool
  placa :: string
  tipo :: string
  posicion :: "int \<times> int"

record servidor =
  vehiculos :: "vehiculo list"
  ganancias :: int
  viajes :: int
  vehiculos_inicializados :: bool

record info_auto =
  ia_pos :: "int \<times> int"
  ia_tipo :: string
  ia_tarifa :: "int option"
  ia_placa :: string

record info_servicio =
  is_ganancias :: int
  is_viajes :: int
  is_vehiculos_disponibles :: nat

abbreviation (input) N :: nat where "N \<equiv> 5"

text \<open>The random numbers drawn for a vehicle: the number and the letters of the plate, the type and the position.\<close>

record azar =
  az_num :: nat
  az_letras :: "nat \<times> nat \<times> nat"
  az_tipo :: nat
  az_x :: nat
  az_y :: nat

definition digito :: "nat \<Rightarrow> char" where "digito d = char_of (48 + d mod 10)"

definition letra :: "nat \<Rightarrow> char" where "letra d = char_of (65 + d mod 26)"

definition placa_de :: "azar \<Rightarrow> string" where
  "placa_de a = (let k = az_num a mod 1000
     in [digito (k div 100), digito (k div 10), digito k, letra (fst (az_letras a)), letra (fst (snd (az_letras a))), letra (snd (snd (az_letras a)))])"

definition inicializar_vehiculos :: "(nat \<Rightarrow> azar) \<Rightarrow> servidor \<Rightarrow> servidor" where
  "inicializar_vehiculos az s =
     s\<lparr>vehiculos := map (\<lambda>i. \<lparr>disponible = True, placa = placa_de (az i),
         tipo = [''UberPlanet'', ''UberXL'', ''UberBlack''] ! (az_tipo (az i) mod 3),
         posicion = (int (az_x (az i) mod 100), int (az_y (az i) mod 100))\<rparr>) [0..<N]\<rparr>"

definition inicia :: "(nat \<Rightarrow> azar) \<Rightarrow> servidor \<Rightarrow> servidor" where
  "inicia az s = (if vehiculos_inicializados s then s else (inicializar_vehiculos az s)\<lparr>vehiculos_inicializados := True\<rparr>)"

text \<open>The nearest of the free vehicles; \<^verbatim>\<open>DBL_MAX\<close> is above every distance, which is \<open>None\<close> here.\<close>

fun mas_cercano :: "int \<times> int \<Rightarrow> vehiculo list \<Rightarrow> nat list \<Rightarrow> nat \<times> int option \<Rightarrow> nat \<times> int option" where
  "mas_cercano pos vs [] best = best"
| "mas_cercano pos vs (i # is) best =
     (let d = dist2 (posicion (vs ! i)) pos
      in mas_cercano pos vs is
           (if (case snd best of None \<Rightarrow> True | Some m \<Rightarrow> d < m) then (i, Some d) else best))"

text \<open>A type without a price would leave the fare unset: \<open>None\<close>.\<close>

definition tarifa_de :: "string \<Rightarrow> int option" where
  "tarifa_de t = (if t = ''UberPlanet'' then Some 10 else if t = ''UberXL'' then Some 15 else if t = ''UberBlack'' then Some 25 else None)"

definition solicitarviaje :: "(nat \<Rightarrow> azar) \<Rightarrow> int \<times> int \<Rightarrow> servidor \<Rightarrow> info_auto option \<times> servidor" where
  "solicitarviaje az pos s =
     (let s = inicia az s; vs = vehiculos s; libres = filter (\<lambda>i. disponible (vs ! i)) [0..<N]
      in if libres = [] then (None, s)
         else
           (let i = fst (mas_cercano pos vs libres (0, None)); v = vs ! i
            in (Some \<lparr>ia_pos = posicion v, ia_tipo = tipo v, ia_tarifa = tarifa_de (tipo v), ia_placa = placa v\<rparr>,
                s\<lparr>vehiculos := vs[i := v\<lparr>disponible := False\<rparr>]\<rparr>)))"

text \<open>\<open>None\<close> is the error of an unknown plate, for which nothing changes.\<close>

definition terminarviaje :: "int \<times> int \<Rightarrow> int \<Rightarrow> string \<Rightarrow> servidor \<Rightarrow> servidor option" where
  "terminarviaje final costo pl s =
     (case List.find (\<lambda>i. placa (vehiculos s ! i) = pl) [0..<length (vehiculos s)] of
        None \<Rightarrow> None
      | Some i \<Rightarrow>
          (let v = vehiculos s ! i
           in Some (s\<lparr>vehiculos := (vehiculos s)[i := v\<lparr>disponible := True, posicion := final\<rparr>],
                     ganancias := ganancias s + dist_times (dist2 final (posicion v)) costo, viajes := viajes s + 1\<rparr>)))"

definition estadoservicio :: "(nat \<Rightarrow> azar) \<Rightarrow> servidor \<Rightarrow> info_servicio \<times> servidor" where
  "estadoservicio az s =
     (let s = inicia az s
      in (\<lparr>is_ganancias = ganancias s, is_viajes = viajes s, is_vehiculos_disponibles = length (filter disponible (vehiculos s))\<rparr>, s))"

section \<open>The nearest vehicle\<close>

lemma mas_cercano_least:
  assumes "mas_cercano pos vs is (b, Some (dist2 (posicion (vs ! b)) pos)) = (i, d)"
  shows "(i = b \<or> i \<in> set is) \<and> (\<forall>j \<in> insert b (set is). dist2 (posicion (vs ! i)) pos \<le> dist2 (posicion (vs ! j)) pos)"
  using assms
proof (induction "is" arbitrary: b)
  case (Cons k ks)
  show ?case
  proof (cases "dist2 (posicion (vs ! k)) pos < dist2 (posicion (vs ! b)) pos")
    case True
    with Cons.prems Cons.IH [of k] show ?thesis by fastforce
  next
    case False
    with Cons.prems Cons.IH [of b] show ?thesis by fastforce
  qed
qed simp

lemma nearest_free:
  assumes "is \<noteq> []" "mas_cercano pos vs is (0, None) = (i, d)"
  shows "i \<in> set is" "\<And>j. j \<in> set is \<Longrightarrow> dist2 (posicion (vs ! i)) pos \<le> dist2 (posicion (vs ! j)) pos"
proof -
  obtain k ks where "is": "is = k # ks" using assms(1) by (cases "is") auto
  with assms(2) mas_cercano_least [of pos vs ks k i d]
  show "i \<in> set is" "\<And>j. j \<in> set is \<Longrightarrow> dist2 (posicion (vs ! i)) pos \<le> dist2 (posicion (vs ! j)) pos" by auto
qed

lemma solicitarviaje_nearest:
  assumes "solicitarviaje az pos s = (r, s')"
  shows "(r = None \<and> s' = inicia az s \<and> (\<forall>i < N. \<not> disponible (vehiculos s' ! i))) \<or>
    (\<exists>i v. i < N \<and> v = vehiculos (inicia az s) ! i \<and> disponible v \<and>
      r = Some \<lparr>ia_pos = posicion v, ia_tipo = tipo v, ia_tarifa = tarifa_de (tipo v), ia_placa = placa v\<rparr> \<and>
      (\<forall>j < N. disponible (vehiculos (inicia az s) ! j) \<longrightarrow>
         dist2 (posicion v) pos \<le> dist2 (posicion (vehiculos (inicia az s) ! j)) pos) \<and>
      s' = (inicia az s)\<lparr>vehiculos := (vehiculos (inicia az s))[i := v\<lparr>disponible := False\<rparr>]\<rparr>)"
proof -
  let ?vs = "vehiculos (inicia az s)" let ?libres = "filter (\<lambda>i. disponible (?vs ! i)) [0..<N]"
  show ?thesis
  proof (cases "?libres = []")
    case True
    then have "r = None" "s' = inicia az s" using assms by (simp_all add: solicitarviaje_def Let_def)
    moreover have "\<forall>i < N. \<not> disponible (?vs ! i)" using True unfolding filter_empty_conv by simp
    ultimately show ?thesis by blast
  next
    case False
    obtain i d where i: "mas_cercano pos ?vs ?libres (0, None) = (i, d)" by (cases "mas_cercano pos ?vs ?libres (0, None)")
    have "i < N" "disponible (?vs ! i)" using nearest_free(1) [OF False i] by simp_all
    moreover have "\<forall>j < N. disponible (?vs ! j) \<longrightarrow> dist2 (posicion (?vs ! i)) pos \<le> dist2 (posicion (?vs ! j)) pos"
      using nearest_free(2) [OF False i] by simp
    moreover have "r = Some \<lparr>ia_pos = posicion (?vs ! i), ia_tipo = tipo (?vs ! i), ia_tarifa = tarifa_de (tipo (?vs ! i)), ia_placa = placa (?vs ! i)\<rparr>"
      "s' = (inicia az s)\<lparr>vehiculos := ?vs[i := (?vs ! i)\<lparr>disponible := False\<rparr>]\<rparr>"
      using assms False i unfolding solicitarviaje_def Let_def by simp_all
    ultimately show ?thesis by blast
  qed
qed

lemma find_first_index:
  assumes "distinct (map f xs)" "i < length xs" "f (xs ! i) = y"
  shows "List.find (\<lambda>k. f (xs ! k) = y) [0..<length xs] = Some i"
proof -
  have "f (xs ! k) \<noteq> y" if "k < i" for k
    using nth_eq_iff_index_eq [OF assms(1), of k i] that assms(2,3) by simp
  then have "i < length [0..<length xs] \<and> f (xs ! ([0..<length xs] ! i)) = y \<and> i = [0..<length xs] ! i \<and>
      (\<forall>j < i. f (xs ! ([0..<length xs] ! j)) \<noteq> y)" using assms(2,3) by simp
  then show ?thesis unfolding find_Some_iff by blast
qed


definition demo_azar :: "nat \<Rightarrow> azar" where
  "demo_azar i = \<lparr>az_num = i, az_letras = (0, 1, 2), az_tipo = i, az_x = 10 * i, az_y = 0\<rparr>"

definition demo_servidor :: servidor where
  "demo_servidor = \<lparr>vehiculos = [], ganancias = 0, viajes = 0, vehiculos_inicializados = False\<rparr>"

lemma demo_chars:
  "digito 0 = CHR ''0''" "digito (Suc 0) = CHR ''1''" "digito 2 = CHR ''2''" "digito (Suc (Suc 0)) = CHR ''2''" "digito 3 = CHR ''3''" "digito 4 = CHR ''4''"
  "letra 0 = CHR ''A''" "letra (Suc 0) = CHR ''B''" "letra 2 = CHR ''C''"
  by (simp_all add: digito_def letra_def char_of_def bit_Suc_0_iff)

lemma demo_inicia:
  "inicia demo_azar demo_servidor = demo_servidor\<lparr>vehiculos_inicializados := True, vehiculos :=
     [\<lparr>disponible = True, placa = ''000ABC'', tipo = ''UberPlanet'', posicion = (0, 0)\<rparr>,
      \<lparr>disponible = True, placa = ''001ABC'', tipo = ''UberXL'', posicion = (10, 0)\<rparr>,
      \<lparr>disponible = True, placa = ''002ABC'', tipo = ''UberBlack'', posicion = (20, 0)\<rparr>,
      \<lparr>disponible = True, placa = ''003ABC'', tipo = ''UberPlanet'', posicion = (30, 0)\<rparr>,
      \<lparr>disponible = True, placa = ''004ABC'', tipo = ''UberXL'', posicion = (40, 0)\<rparr>]\<rparr>"
  by (simp add: inicia_def inicializar_vehiculos_def demo_servidor_def demo_azar_def placa_de_def demo_chars upt_rec Let_def)


section \<open>The server of the second exercise\<close>

record auto_info =
  au_disponible :: int
  au_posicion :: "int \<times> int"
  au_tipoUber :: int
  au_tarifa :: int
  au_placa :: "string option"

text \<open>A plate is \<open>None\<close> while the table has not been initialised (\<^verbatim>\<open>NULL\<close>); \<open>autoDisponible\<close> is the static result.\<close>

record uber =
  autos :: "auto_info list"
  viajesRealizados :: int
  ganancia_total :: int
  isFirstTime :: bool
  autoDisponible :: auto_info

abbreviation (input) NUM_AUTOS :: nat where "NUM_AUTOS \<equiv> 8"

definition inicializarAutos :: "(nat \<Rightarrow> azar) \<Rightarrow> uber \<Rightarrow> uber" where
  "inicializarAutos az u =
     u\<lparr>autos := map (\<lambda>i. \<lparr>au_disponible = 1, au_posicion = (int (az_x (az i) mod 51), int (az_y (az i) mod 51)),
        au_tipoUber = 1 + int (az_tipo (az i) mod 3), au_tarifa = 0,
        au_placa = Some ([digito i] @ (let k = az_num (az i) mod 1000
           in (if 100 \<le> k then [digito (k div 100)] else []) @ (if 10 \<le> k then [digito (k div 10)] else []) @ [digito k]) @
           [letra (fst (az_letras (az i))), letra (fst (snd (az_letras (az i)))), letra (snd (snd (az_letras (az i))))])\<rparr>) [0..<NUM_AUTOS]\<rparr>"

text \<open>There is no result for another type.\<close>

definition calcularTarifa :: "int \<Rightarrow> int \<Rightarrow> int option" where
  "calcularTarifa tipoUBER kilometro =
     (if tipoUBER = 1 then Some (10 * kilometro) else if tipoUBER = 2 then Some (15 * kilometro)
      else if tipoUBER = 3 then Some (25 * kilometro) else None)"

text \<open>
  The loop of \<^verbatim>\<open>solicitarviaje_1_svc\<close>: the first free vehicle has a distance below \<^verbatim>\<open>INFINITY\<close>, and the \<^verbatim>\<open>break\<close> ends the search.
\<close>

definition busca :: "auto_info list \<Rightarrow> nat option" where
  "busca vs = List.find (\<lambda>i. au_disponible (vs ! i) = 1) [0..<NUM_AUTOS]"

definition solicitarviaje2 :: "(nat \<Rightarrow> azar) \<Rightarrow> int \<times> int \<Rightarrow> uber \<Rightarrow> (auto_info \<times> uber) option" where
  "solicitarviaje2 az pos u =
     (let u = (if isFirstTime u then (inicializarAutos az u)\<lparr>isFirstTime := False\<rparr> else u)
      in case busca (autos u) of
           None \<Rightarrow> (let r = (autoDisponible u)\<lparr>au_disponible := 0\<rparr> in Some (r, u\<lparr>autoDisponible := r\<rparr>))
         | Some i \<Rightarrow>
             (case calcularTarifa (au_tipoUber (autos u ! i)) (int (isqrt (nat (dist2 (au_posicion (autos u ! i)) pos)))) of
                None \<Rightarrow> None
              | Some t \<Rightarrow>
                  (let r = (autos u ! i)\<lparr>au_tarifa := t\<rparr>
                   in Some (r, u\<lparr>autos := (autos u)[i := r\<lparr>au_disponible := 0\<rparr>], autoDisponible := r,
                                 viajesRealizados := viajesRealizados u + 1\<rparr>))))"

text \<open>\<open>None\<close>: \<^verbatim>\<open>strcmp\<close> reads a plate that is \<^verbatim>\<open>NULL\<close>.\<close>

fun terminar_loop :: "int \<times> int \<Rightarrow> string \<Rightarrow> auto_info list \<Rightarrow> auto_info list option \<times> bool" where
  "terminar_loop pos pl [] = (Some [], False)"
| "terminar_loop pos pl (v # vs) =
     (case au_placa v of
        None \<Rightarrow> (None, False)
      | Some p \<Rightarrow>
          if p = pl then (Some (v\<lparr>au_disponible := 1, au_posicion := pos\<rparr> # vs), True)
          else (case terminar_loop pos pl vs of (r, found) \<Rightarrow> (map_option ((#) v) r, found)))"

definition terminarviaje2 :: "int \<times> int \<Rightarrow> int \<Rightarrow> string \<Rightarrow> uber \<Rightarrow> uber option" where
  "terminarviaje2 pos costo pl u =
     (case terminar_loop pos pl (autos u) of
        (None, found) \<Rightarrow> None
      | (Some vs, found) \<Rightarrow> Some (u\<lparr>autos := vs, ganancia_total := (if found then ganancia_total u + costo else ganancia_total u)\<rparr>))"

definition estadoservicio2 :: "uber \<Rightarrow> info_servicio" where
  "estadoservicio2 u = \<lparr>is_ganancias = ganancia_total u, is_viajes = viajesRealizados u,
     is_vehiculos_disponibles = length (filter (\<lambda>v. au_disponible v = 1) (autos u))\<rparr>"

definition demo_auto :: auto_info where
  "demo_auto = \<lparr>au_disponible = 0, au_posicion = (0, 0), au_tipoUber = 0, au_tarifa = 0, au_placa = None\<rparr>"

definition demo_uber :: uber where
  "demo_uber = \<lparr>autos = replicate NUM_AUTOS demo_auto, viajesRealizados = 0, ganancia_total = 0, isFirstTime = True, autoDisponible = demo_auto\<rparr>"

text \<open>The server assigns the first free vehicle although another one is where the passenger is.\<close>

lemma uber2_not_nearest:
  "case solicitarviaje2 demo_azar (30, 0) demo_uber of
     Some (r, u) \<Rightarrow> au_posicion r = (0, 0) \<and> au_disponible (autos u ! 3) = 1 \<and> au_posicion (autos u ! 3) = (30, 0)
   | None \<Rightarrow> False"
  by code_simp

text \<open>Ending a trip before the first request reads a plate that is not there.\<close>

lemma uber2_end_first: "terminarviaje2 pos costo pl demo_uber = None"
  by (simp add: terminarviaje2_def demo_uber_def demo_auto_def numeral_eq_Suc)

end
