(* ===== verification/Inscripcion.thy ===== *)
theory Inscripcion
  imports Main
begin

text \<open>
  The registration of students over TCP, \<^verbatim>\<open>Practica01/clienteTCPCodificar.c\<close> and \<^verbatim>\<open>Practica01/servidorTCPDecodificar.c\<close>
  (\<^verbatim>\<open>servidorPrueba.c\<close> has the same loop): the client sends name, course and group separated by \<^verbatim>\<open>#\<close>, the server splits them
  with \<^verbatim>\<open>sscanf\<close>, appends them to its table and answers with the number of the request.
\<close>

section \<open>The client\<close>

abbreviation (input) NUL :: char where "NUL \<equiv> CHR 0x00"

definition is_space :: "char \<Rightarrow> bool" where
  "is_space c \<longleftrightarrow> c \<in> {CHR '' '', CHR 0x09, CHR 0x0A, CHR 0x0B, CHR 0x0C, CHR 0x0D}"

record alumno =
  nombre :: string
  claveUEA :: string
  grupo :: string

text \<open>
  What is typed is one string.  \<^verbatim>\<open>fgets\<close> reads a line, but at most 99 characters, \<^verbatim>\<open>scanf\<close> skips white space and reads a word of at
  most 7 or 5, and the rest of the line is thrown away.  At the end of the input a variable stays indeterminate, or \<^verbatim>\<open>getchar\<close>
  is called for ever (\<open>None\<close>).
\<close>

definition fgets_line :: "string \<Rightarrow> (string \<times> string) option" where
  "fgets_line s =
     (let l = takeWhile (\<lambda>c. c \<noteq> CHR 0x0A) (take 99 s)
      in if s = [] then None
         else Some (takeWhile (\<lambda>c. c \<noteq> NUL) l, if length l < 99 then drop (Suc (length l)) s else drop 99 s))"

definition scanf_word :: "nat \<Rightarrow> string \<Rightarrow> (string \<times> string) option" where
  "scanf_word k s =
     (let t = dropWhile is_space s; w = take k (takeWhile (\<lambda>c. \<not> is_space c) t)
      in if w = [] then None else Some (takeWhile (\<lambda>c. c \<noteq> NUL) w, drop (length w) t))"

definition limpiar :: "string \<Rightarrow> string option" where
  "limpiar s = (if CHR 0x0A \<in> set s then Some (tl (dropWhile (\<lambda>c. c \<noteq> CHR 0x0A) s)) else None)"

definition leer :: "string \<Rightarrow> (alumno \<times> string) option" where
  "leer s =
     Option.bind (fgets_line s) (\<lambda>(n, s).
     Option.bind (scanf_word 7 s) (\<lambda>(c, s).
     Option.bind (limpiar s) (\<lambda>s.
     Option.bind (scanf_word 5 s) (\<lambda>(g, s).
     Option.bind (limpiar s) (\<lambda>s. Some (\<lparr>nombre = n, claveUEA = c, grupo = g\<rparr>, s))))))"

definition codificar :: "alumno \<Rightarrow> string" where
  "codificar a = nombre a @ ''#'' @ claveUEA a @ ''#'' @ grupo a"

section \<open>The server\<close>

text \<open>
  \<open>request\<close> is the buffer of 400 bytes, which keeps what earlier messages left; a string in it that has no end is \<open>None\<close>.
\<close>

record servidor_ins =
  request :: string
  alumnos :: "alumno list"

abbreviation (input) ETHSIZE :: nat where "ETHSIZE \<equiv> 400"

definition leer_peticion :: "string \<Rightarrow> string \<Rightarrow> string" where
  "leer_peticion msg buf = (let m = take ETHSIZE msg in m @ drop (length m) buf)"

definition c_string :: "string \<Rightarrow> string option" where
  "c_string buf = (if NUL \<in> set buf then Some (takeWhile (\<lambda>c. c \<noteq> NUL) buf) else None)"

text \<open>
  \<^verbatim>\<open>sscanf(request, "%[^#]#%[^#]#%s", ...)\<close>: \<open>None\<close> when a field does not match, which leaves its variable indeterminate.
\<close>

definition scan_set :: "string \<Rightarrow> (string \<times> string) option" where
  "scan_set s = (let f = takeWhile (\<lambda>c. c \<noteq> CHR ''#'') s in if f = [] then None else Some (f, drop (length f) s))"

definition scan_hash :: "string \<Rightarrow> string option" where
  "scan_hash s = (case s of c # cs \<Rightarrow> if c = CHR ''#'' then Some cs else None | [] \<Rightarrow> None)"

definition scan_word :: "string \<Rightarrow> string option" where
  "scan_word s = (let w = takeWhile (\<lambda>c. \<not> is_space c) (dropWhile is_space s) in if w = [] then None else Some w)"

definition decodificar :: "string \<Rightarrow> alumno option" where
  "decodificar s =
     Option.bind (scan_set s) (\<lambda>(n, s).
     Option.bind (scan_hash s) (\<lambda>s.
     Option.bind (scan_set s) (\<lambda>(c, s).
     Option.bind (scan_hash s) (\<lambda>s.
     Option.bind (scan_word s) (\<lambda>g. Some \<lparr>nombre = n, claveUEA = c, grupo = g\<rparr>)))))"

text \<open>
  One request: the fields must fit their arrays and the table has ten entries, otherwise memory behind them is overwritten
  (\<open>None\<close>).  The answer has the places of the group and the number of the request.
\<close>

definition cabe :: "alumno \<Rightarrow> bool" where
  "cabe a \<longleftrightarrow> length (nombre a) < 100 \<and> length (claveUEA a) < 8 \<and> length (grupo a) < 6"

definition atender :: "string \<Rightarrow> servidor_ins \<Rightarrow> ((nat \<times> nat) \<times> servidor_ins) option" where
  "atender msg s =
     (let buf = leer_peticion msg (request s)
      in Option.bind (c_string buf) (\<lambda>str.
         Option.bind (decodificar str) (\<lambda>a.
           if cabe a \<and> length (alumnos s) < 10
           then Some ((30, length (alumnos s) + 1), s\<lparr>request := buf, alumnos := alumnos s @ [a]\<rparr>)
           else None)))"

section \<open>Registration\<close>

lemma takeWhile_stop: "\<forall>x \<in> set xs. P x \<Longrightarrow> \<not> P y \<Longrightarrow> takeWhile P (xs @ y # ys) = xs"
  by (simp add: takeWhile_tail)

lemma scan_set_append:
  "f \<noteq> [] \<Longrightarrow> CHR ''#'' \<notin> set f \<Longrightarrow> scan_set (f @ CHR ''#'' # s) = Some (f, CHR ''#'' # s)"
proof -
  assume f: "f \<noteq> []" "CHR ''#'' \<notin> set f"
  then have "takeWhile (\<lambda>c. c \<noteq> CHR ''#'') (f @ CHR ''#'' # s) = f" by (intro takeWhile_stop) auto
  with f(1) show ?thesis by (simp add: scan_set_def)
qed

definition valido :: "alumno \<Rightarrow> bool" where
  "valido a \<longleftrightarrow> cabe a \<and> nombre a \<noteq> [] \<and> claveUEA a \<noteq> [] \<and> grupo a \<noteq> [] \<and>
     CHR ''#'' \<notin> set (nombre a) \<and> CHR ''#'' \<notin> set (claveUEA a) \<and> (\<forall>c \<in> set (grupo a). \<not> is_space c) \<and>
     NUL \<notin> set (nombre a) \<union> set (claveUEA a) \<union> set (grupo a)"

lemma decodificar_codificar: "valido a \<Longrightarrow> decodificar (codificar a) = Some a"
proof -
  assume a: "valido a"
  have "scan_set (codificar a) = Some (nombre a, CHR ''#'' # claveUEA a @ CHR ''#'' # grupo a)"
    "scan_set (claveUEA a @ CHR ''#'' # grupo a) = Some (claveUEA a, CHR ''#'' # grupo a)"
    using a scan_set_append [of "nombre a" "claveUEA a @ CHR ''#'' # grupo a"] scan_set_append [of "claveUEA a" "grupo a"]
    by (simp_all add: valido_def codificar_def)
  moreover have "scan_word (grupo a) = Some (grupo a)"
  proof -
    have "dropWhile is_space (grupo a) = grupo a" using a by (cases "grupo a") (auto simp: valido_def)
    moreover have "takeWhile (\<lambda>c. \<not> is_space c) (grupo a) = grupo a" using a by (simp add: valido_def)
    moreover have "grupo a \<noteq> []" using a by (simp add: valido_def)
    ultimately show ?thesis unfolding scan_word_def Let_def by metis
  qed
  ultimately show ?thesis by (simp add: decodificar_def scan_hash_def)
qed

definition entrada :: "alumno \<Rightarrow> string" where
  "entrada a = nombre a @ [CHR 0x0A] @ claveUEA a @ [CHR 0x0A] @ grupo a @ [CHR 0x0A]"

lemma fgets_line_entrada:
  assumes "CHR 0x0A \<notin> set n" "NUL \<notin> set n" "length n < 99"
  shows "fgets_line (n @ CHR 0x0A # s) = Some (n, s)"
proof -
  have "takeWhile (\<lambda>c. c \<noteq> CHR 0x0A) (n @ CHR 0x0A # take (98 - length n) s) = n"
    using assms(1) by (intro takeWhile_stop) auto
  moreover have "take 99 (n @ CHR 0x0A # s) = n @ CHR 0x0A # take (98 - length n) s" using assms(3) by (simp add: take_Cons')
  moreover have "takeWhile (\<lambda>c. c \<noteq> NUL) n = n" using assms(2) by (auto simp: takeWhile_eq_all_conv)
  ultimately show ?thesis using assms(3) by (simp add: fgets_line_def)
qed

lemma scanf_word_entrada:
  assumes "w \<noteq> []" "\<forall>c \<in> set w. \<not> is_space c" "NUL \<notin> set w" "length w \<le> k"
  shows "scanf_word k (w @ CHR 0x0A # s) = Some (w, CHR 0x0A # s)"
proof -
  have "dropWhile is_space (w @ CHR 0x0A # s) = w @ CHR 0x0A # s" using assms(1,2) by (cases w) auto
  moreover have "takeWhile (\<lambda>c. \<not> is_space c) (w @ CHR 0x0A # s) = w"
    using assms(2) by (intro takeWhile_stop) (auto simp: is_space_def)
  moreover have "takeWhile (\<lambda>c. c \<noteq> NUL) w = w" using assms(3) by (auto simp: takeWhile_eq_all_conv)
  moreover have "0 < k" using assms(1,4) by (cases w) auto
  ultimately show ?thesis using assms(1,4) by (simp add: scanf_word_def)
qed

lemma limpiar_entrada: "limpiar (CHR 0x0A # s) = Some s"
  by (simp add: limpiar_def)

lemma leer_entrada:
  assumes "valido a" "CHR 0x0A \<notin> set (nombre a)" "length (nombre a) < 99" "\<forall>c \<in> set (claveUEA a). \<not> is_space c"
  shows "leer (entrada a @ s) = Some (a, s)"
proof -
  have "fgets_line (entrada a @ s) = Some (nombre a, claveUEA a @ CHR 0x0A # grupo a @ CHR 0x0A # s)"
    using fgets_line_entrada [of "nombre a" "claveUEA a @ CHR 0x0A # grupo a @ CHR 0x0A # s"] assms(1-3)
    by (simp add: entrada_def valido_def)
  moreover have "scanf_word 7 (claveUEA a @ CHR 0x0A # grupo a @ CHR 0x0A # s) = Some (claveUEA a, CHR 0x0A # grupo a @ CHR 0x0A # s)"
    "scanf_word 5 (grupo a @ CHR 0x0A # s) = Some (grupo a, CHR 0x0A # s)"
    using assms(1,4) by (simp_all add: scanf_word_entrada valido_def cabe_def)
  ultimately show ?thesis by (simp add: leer_def limpiar_entrada)
qed

lemma atender_codificar:
  assumes "valido a" "length (alumnos s) < 10" "length (request s) = ETHSIZE"
    and "request s ! length (codificar a) = NUL"
  shows "\<exists>s'. atender (codificar a) s = Some ((30, length (alumnos s) + 1), s') \<and> alumnos s' = alumnos s @ [a] \<and>
    length (request s') = ETHSIZE"
proof -
  let ?m = "codificar a" let ?buf = "leer_peticion ?m (request s)"
  have len: "length ?m < ETHSIZE" using assms(1) by (simp add: valido_def cabe_def codificar_def)
  have "NUL \<notin> set ?m" using assms(1) by (auto simp: valido_def codificar_def)
  moreover have "drop (length ?m) (request s) = NUL # drop (Suc (length ?m)) (request s)"
    using assms(3,4) len by (metis Cons_nth_drop_Suc)
  then have buf: "?buf = ?m @ NUL # drop (Suc (length ?m)) (request s)" using len by (simp add: leer_peticion_def Let_def)
  ultimately have "c_string ?buf = Some ?m" unfolding c_string_def buf by (subst takeWhile_stop) auto
  then have "atender ?m s = Some ((30, length (alumnos s) + 1), s\<lparr>request := ?buf, alumnos := alumnos s @ [a]\<rparr>)"
    using decodificar_codificar [OF assms(1)] assms(1,2) by (simp add: atender_def valido_def Let_def)
  moreover have "length ?buf = ETHSIZE" using len assms(3) by (simp add: leer_peticion_def Let_def)
  ultimately show ?thesis by simp
qed



text \<open>
  The server does not end the message it has read: a message shorter than the one before is followed by the rest of that one,
  and the group gets both, more than its array holds.
\<close>

lemma registro_stale:
  assumes "atender ''Ana Luz#1151042#CTG01'' \<lparr>request = replicate 400 NUL, alumnos = []\<rparr> = Some (r, s)"
  shows "decodificar (the (c_string (leer_peticion ''Ana#11#C1'' (request s)))) =
      Some \<lparr>nombre = ''Ana'', claveUEA = ''11'', grupo = ''C1151042#CTG01''\<rparr> \<and> atender ''Ana#11#C1'' s = None"
proof -
  have s: "request s = ''Ana Luz#1151042#CTG01'' @ replicate 379 NUL"
    using assms by (auto simp: atender_def leer_peticion_def Let_def bind_eq_Some_conv split: if_splits)
  have str: "c_string (leer_peticion ''Ana#11#C1'' (request s)) = Some ''Ana#11#C1151042#CTG01''"
    unfolding s leer_peticion_def c_string_def by (simp add: takeWhile_replicate)
  have dec: "decodificar ''Ana#11#C1151042#CTG01'' = Some \<lparr>nombre = ''Ana'', claveUEA = ''11'', grupo = ''C1151042#CTG01''\<rparr>"
    by code_simp
  show ?thesis using str dec by (simp add: atender_def cabe_def Let_def)
qed

end
