(* ===== verification/Spec2Isabelle.thy ===== *)
theory Spec2Isabelle
  imports Tmk_Connect Suma Uber Inscripcion
begin

text \<open>
  A verification of the C programs of this repository: the TreadMarks distributed shared memory library in \<^verbatim>\<open>Tmk/src\<close>, for the
  target the repository is built for (\<^verbatim>\<open>i386_linux2\<close>, UDP, without threads), and the exercises that have logic of their own.

  \<^bold>\<open>The program.\<close>  TreadMarks gives the processes of a run one shared memory with lazy release consistency.  A process writes to its
  own copy of a page; the first write faults, and \<^verbatim>\<open>segv.c\<close> keeps a twin of the page and puts it on the dirty list (\<^verbatim>\<open>page.c\<close>).
  At a release \<^verbatim>\<open>interval.c\<close> turns the dirty list into an interval with a write notice per page.  At an acquire (\<^verbatim>\<open>lock.c\<close>,
  \<^verbatim>\<open>barrier.c\<close>, \<^verbatim>\<open>sched.c\<close>) the intervals that a process lacks travel to it, and it invalidates the pages they name.  The next access to
  such a page faults, asks for the diffs behind the notices (\<^verbatim>\<open>diff.c\<close>) and applies them in the order of the intervals.
  Requests interrupt a process; \<^verbatim>\<open>sigio.c\<close> reads them and calls the handler of their type.  When memory is short, \<^verbatim>\<open>repo.c\<close> drops the
  consistency data at a barrier.  \<^verbatim>\<open>sh_malloc.c\<close> allocates shared memory, \<^verbatim>\<open>mmap.c\<close> maps files into it, \<^verbatim>\<open>distribute.c\<close> copies private
  data, \<^verbatim>\<open>startup.c\<close>, \<^verbatim>\<open>open_udp.c\<close> and \<^verbatim>\<open>exit.c\<close> begin and end a run.

  \<^bold>\<open>State.\<close>  The globals of one process are the record \<open>node\<close> of \<open>Tmk_Node\<close>.  Each component with globals of its own extends it, in
  the order \<open>lnode\<close> (locks), \<open>rnode\<close> (reclamation), \<open>snode\<close> (message buffers), \<open>bnode\<close> (barriers), \<open>cnode\<close> (fork and join), \<open>enode\<close>
  (exit, private memory), \<open>pnode\<close> (ports); operations of an earlier component work on every extension.  Pointers into the
  page table are page numbers, pointers to twins, intervals and write notices are addresses or positions in lists, and a wild
  access, a fatal exit or a walk that never ends is a value of the result (\<open>None\<close>, \<open>Inl\<close>).  Sequence numbers, sizes and
  the fields of messages have the width they have in C.

  \<^bold>\<open>Theories, from the bottom up.\<close>

  \<^item> \<open>Tmk_Prelude\<close>: machine integers, constants of both \<^verbatim>\<open>Tmk.h\<close>, fatal exits, collections of simplification rules, lemmas on lists and words.
  \<^item> \<open>Tmk_Diff\<close> (\<^verbatim>\<open>diff.c\<close>: encoder and \<^verbatim>\<open>diff_apply\<close>): applying the diff of a page and its twin gives the page; the diffs of
    processes that write different words commute; a diff is never longer than its buffer.
  \<^item> \<open>Tmk_Node\<close>, \<open>Tmk_Page_List\<close>, \<open>Tmk_Page\<close> (\<^verbatim>\<open>page.c\<close>, the twins of \<^verbatim>\<open>segv.c\<close>): the lists of page runs threaded through the page table.  The
    locales \<open>page_runs\<close> and \<open>two_page_lists\<close> state what the list code relies on, once, and are interpreted for the dirty and the invalidation
    list.  Merging pages in any order and performing the invalidations invalidates exactly them.
  \<^item> \<open>Tmk_Heap\<close>: the chunked heaps; the locale \<open>chunked_heap\<close> is interpreted for intervals and for diffs.
  \<^item> \<open>Tmk_Interval\<close>, \<open>Tmk_Wire\<close>, \<open>Tmk_Coherence\<close> (\<^verbatim>\<open>interval.c\<close>): the ends of intervals, their 16-bit format and their incorporation.
    \<open>coherent\<close> is the invariant of a process: page lists, twins, write notices, states and protections fit together.  Ending an
    interval names exactly the dirty pages; what one process sends the other incorporates; every operation keeps \<open>coherent\<close>.
  \<^item> \<open>Tmk_Diff_Request\<close>, \<open>Tmk_Diff_Server\<close> (\<^verbatim>\<open>diff.c\<close>): write notices are sorted in an order that respects the intervals, cut into
    requests to processes that have all the diffs of the request, and the diffs sent in pieces arrive as they were.
  \<^item> \<open>Tmk_Fault\<close>, \<open>Tmk_Process\<close> (\<^verbatim>\<open>segv.c\<close>): after a fault that is answered the page allows the access and has the diffs applied;
    all other faults are errors.  A process is a state machine whose reachable states are coherent and protect their pages as their state says.
  \<^item> \<open>Tmk_Lock\<close>, \<open>Tmk_Lock_Protocol\<close>, \<open>Tmk_Lock_Net\<close> (\<^verbatim>\<open>lock.c\<close>): all operations and handlers of locks and condition variables.  A network of
    processes that run them implements a queue of processes (refinement), from which mutual exclusion and the end of every wait
    follow.  The queue of a condition is an interpretation of the locale \<open>fifo_queue\<close>.
  \<^item> \<open>Tmk_Await\<close>: the loops around \<^verbatim>\<open>select\<close> and \<^verbatim>\<open>recv\<close>; they end with the answer to the request and no other.
  \<^item> \<open>Tmk_Spin\<close>, \<open>Tmk_Repo\<close>, \<open>Tmk_Buffer\<close>, \<open>Tmk_Gather\<close>, \<open>Tmk_Barrier\<close>, \<open>Tmk_Sched\<close> (\<^verbatim>\<open>repo.c\<close>, \<^verbatim>\<open>sigio.c\<close>, \<^verbatim>\<open>barrier.c\<close>, \<^verbatim>\<open>sched.c\<close>): the locale
    \<open>spinning\<close> says when a manager stops to wait for the others, \<open>gathering\<close> what it has incorporated then; both are
    interpreted for barriers and for joins, \<open>spinning\<close> also for reclamation.  Buffers that hold a request are never overwritten; the new manager of
    a page that is discarded keeps it.
  \<^item> \<open>Tmk_Exit\<close> (\<^verbatim>\<open>distribute.c\<close>, \<^verbatim>\<open>exit.c\<close>) and \<open>Tmk_Sigio\<close> (\<^verbatim>\<open>sigio.c\<close>): the dispatcher over all handlers; every request is handled as new
    once, whatever is repeated.
  \<^item> \<open>Tmk_Malloc\<close> (\<^verbatim>\<open>sh_malloc.c\<close>): blocks handed out do not overlap, and a block freed is given out again.
  \<^item> \<open>Tmk_Mmap\<close> (\<^verbatim>\<open>mmap.c\<close>): the locale \<open>page_visit\<close> describes a walk over the pages of a range; it is interpreted for mapping and for synchronising.
  \<^item> \<open>Tmk_Startup\<close>, \<open>Tmk_Connect\<close> (\<^verbatim>\<open>startup.c\<close>, \<^verbatim>\<open>open_udp.c\<close>): accepted configurations respect the limits of the arrays and give a state that
    satisfies the invariants of the components; the processes cannot get stuck while they connect, and afterwards the first request of each is new to all.
  \<^item> \<open>Suma\<close> (\<^verbatim>\<open>codigo/suma_tmk.c\<close>), \<open>Uber\<close> (\<^verbatim>\<open>Practica02/estructura_server.c\<close>, \<^verbatim>\<open>Practica02_2/UBER_Servidor.c\<close>), \<open>Inscripcion\<close>
    (\<^verbatim>\<open>Practica01/clienteTCPCodificar.c\<close>, \<^verbatim>\<open>Practica01/servidorTCPDecodificar.c\<close>): the exercises.

  \<^bold>\<open>Waiting, interleaving and bounds.\<close>  An operation that waits for a message is split where it waits: the first part returns the
  messages it sends, the second takes what has arrived.  The waits themselves are functions of a finite list of outcomes of system calls, \<open>None\<close>
  meaning that the process still waits at its end, and theorems say which lists end them.  Walks along pointers are partial functions into
  \<open>option\<close>; that they end is proved from the invariants, so no number of steps has to be chosen.  Page sizes are those for which the offsets of a diff fit its 16 bits
  (\<open>page_words_ok\<close>), which the largest page size that \<^verbatim>\<open>-X\<close> admits exceeds.

  \<^bold>\<open>Assumed of the outside.\<close>  The kernel (\<^verbatim>\<open>mprotect\<close>, \<^verbatim>\<open>mmap\<close>, sockets, timers), the environment of \<^verbatim>\<open>Tmk_startup\<close> and random numbers are arguments.
  \<^verbatim>\<open>malloc\<close> succeeds where its failure ends the process.  The network theorems on locks deliver every message once, which \<open>Tmk_Await\<close>
  and \<open>Tmk_Sigio\<close> justify.

  \<^bold>\<open>Not modelled.\<close>  The branches for other systems (AIX, MPL, ATM, LoadLeveler, threads: \<^verbatim>\<open>mpl.c\<close>, \<^verbatim>\<open>open_mpl.c\<close>, \<^verbatim>\<open>open_atm.c\<close>, \<^verbatim>\<open>ll.c\<close>), which this target does
  not compile; signal masks and signal handlers (\<^verbatim>\<open>timeout.c\<close>), the command line of remote processes, socket options, and output; the
  Fortran wrappers \<^verbatim>\<open>fort_if.c\<close>; the benchmarks in \<^verbatim>\<open>Tmk/apps\<close>; clients and servers that only do input and output; stubs
  generated by \<^verbatim>\<open>rpcgen\<close>; and the vendored gRPC library below \<^verbatim>\<open>Practica03\<close>.
\<close>

end
